(* ===== verification/Prelude.thy ===== *)
theory Prelude
  imports Main "HOL-Library.Word" "HOL-Library.Monad_Syntax"
begin

text \<open>
  The shared vocabulary of the development: names for the machine integers of the C sources,
  the collections of rewrite rules the component theories add to, and the generic facts about
  lists, options and words that several components use.
\<close>

unbundle bit_operations_syntax

section \<open>Machine types\<close>

type_synonym u8 = "8 word"
type_synonym u16 = "16 word"
type_synonym u32 = "32 word"
type_synonym u64 = "64 word"

text \<open>
  A C object of array type is the list of its elements.  An access outside the object is
  undefined in C; every operation that may do so returns \<open>None\<close> for it.
\<close>

type_synonym bytes = "u8 list"

text \<open>The bounds of a C \<open>int\<close>; signed arithmetic that leaves them is undefined.\<close>

definition INT_MAX :: int where "INT_MAX = 2147483647"

definition c_int :: "int \<Rightarrow> int option" where
  "c_int n = (if - INT_MAX - 1 \<le> n \<and> n \<le> INT_MAX then Some n else None)"

section \<open>Rule collections\<close>

named_theorems buf_simps \<open>unfolding rules for the buffer primitives\<close>
named_theorems ext_defs \<open>definitions of the external representations\<close>

section \<open>Lists\<close>

text \<open>Overwriting the elements of a list from a position on.\<close>

definition splice_at :: "'a list \<Rightarrow> int \<Rightarrow> 'a list \<Rightarrow> 'a list" where
  "splice_at b i xs = take (nat i) b @ xs @ drop (nat i + length xs) b"

lemma splice_at_Nil [simp]: "splice_at b i [] = b"
  by (simp add: splice_at_def)

lemma length_splice_at [simp]:
  "0 \<le> i \<Longrightarrow> i + int (length xs) \<le> int (length b) \<Longrightarrow> length (splice_at b i xs) = length b"
  by (simp add: splice_at_def)

lemma splice_at_append:
  assumes "0 \<le> i" and "i + int (length xs) + int (length ys) \<le> int (length b)"
  shows "splice_at (splice_at b i xs) (i + int (length xs)) ys = splice_at b i (xs @ ys)"
proof -
  obtain n where i: "i = int n" using assms(1) by (metis nonneg_int_cases)
  have "nat (int n + int (length xs)) = n + length xs" by simp
  moreover have "n + length xs + length ys \<le> length b" using assms(2) i by linarith
  moreover from this have "length b \<le> n \<Longrightarrow> xs = []" by (cases xs) auto
  ultimately show ?thesis
    by (auto simp: splice_at_def i min_def ac_simps)
qed

lemma list_update_splice_at:
  assumes "0 \<le> i" and "i < int (length b)"
  shows "b[nat i := x] = splice_at b i [x]"
  using assms by (simp add: splice_at_def upd_conv_take_nth_drop)

text \<open>A buffer with room for \<open>n\<close> elements at a position, taken apart there.\<close>

lemma room_at:
  assumes "0 \<le> i" and "i + int n \<le> int (length b)"
  obtains pre mid post where "b = pre @ mid @ post" and "i = int (length pre)" and "length mid = n"
proof
  show "b = take (nat i) b @ take n (drop (nat i) b) @ drop (nat i + n) b"
    by (metis append_take_drop_id drop_drop add.commute)
qed (use assms in auto)

lemma splice_at_parts [simp]:
  "length xs = length mid \<Longrightarrow>
   splice_at (pre @ mid @ post) (int (length pre)) xs = pre @ xs @ post"
  by (simp add: splice_at_def)

lemma splice_at_prepend:
  assumes "0 \<le> i" and "i + int (length xs) + int (length ys) \<le> int (length b)"
  shows "splice_at (splice_at b (i + int (length xs)) ys) i xs = splice_at b i (xs @ ys)"
proof -
  from assms obtain pre mid post where b: "b = pre @ mid @ post" and i: "i = int (length pre)"
    and m: "length mid = length (xs @ ys)"
    using room_at [of i "length (xs @ ys)" b] by auto
  let ?m1 = "take (length xs) mid" and ?m2 = "drop (length xs) mid"
  have b': "b = (pre @ ?m1) @ ?m2 @ post" by (simp add: b)
  have "i + int (length xs) = int (length (pre @ ?m1))" using m by (simp add: i)
  then have "splice_at b (i + int (length xs)) ys = (pre @ ?m1) @ ys @ post"
    using m by (simp only: b') (rule splice_at_parts, simp)
  moreover have "splice_at (pre @ ?m1 @ ys @ post) i xs = pre @ xs @ ys @ post"
    using m unfolding i by (intro splice_at_parts) simp
  moreover have "splice_at b i (xs @ ys) = pre @ (xs @ ys) @ post"
    using m unfolding i b by (intro splice_at_parts) simp
  ultimately show ?thesis by simp
qed

text \<open>A position of a list at which a given sequence of elements can be read.\<close>

definition sees :: "'a list \<Rightarrow> int \<Rightarrow> 'a list \<Rightarrow> bool" where
  "sees b i xs \<longleftrightarrow> 0 \<le> i \<and> i \<le> int (length b) \<and> take (length xs) (drop (nat i) b) = xs"

lemma sees_Nil [simp]: "sees b i [] \<longleftrightarrow> 0 \<le> i \<and> i \<le> int (length b)"
  by (auto simp: sees_def)

lemma sees_length: "sees b i xs \<Longrightarrow> i + int (length xs) \<le> int (length b)"
proof -
  assume s: "sees b i xs"
  then have "length (take (length xs) (drop (nat i) b)) = length xs"
    by (simp add: sees_def)
  then have "length xs \<le> length b - nat i" by simp
  with s show ?thesis by (auto simp: sees_def)
qed

lemma sees_Cons:
  "sees b i (x # xs) \<longleftrightarrow> 0 \<le> i \<and> i < int (length b) \<and> b ! nat i = x \<and> sees b (i + 1) xs"
proof (cases "0 \<le> i \<and> i < int (length b)")
  case True
  then have "nat i < length b" and "nat (i + 1) = Suc (nat i)" by auto
  then have "drop (nat i) b = b ! nat i # drop (nat (i + 1)) b"
    by (simp add: Cons_nth_drop_Suc)
  with True show ?thesis by (auto simp: sees_def)
next
  case False
  then show ?thesis by (auto simp: sees_def not_less)
qed

lemma sees_append:
  "sees b i (xs @ ys) \<longleftrightarrow> sees b i xs \<and> sees b (i + int (length xs)) ys"
proof (induction xs arbitrary: i)
  case Nil
  then show ?case by (auto simp: sees_def)
next
  case (Cons x xs)
  have "i + 1 + int (length xs) = i + int (length (x # xs))" by simp
  then show ?case by (simp only: append_Cons sees_Cons Cons.IH conj_assoc)
qed

lemma sees_nth:
  assumes "sees b i xs" and "k < length xs"
  shows "b ! (nat i + k) = xs ! k"
proof -
  have "xs ! k = take (length xs) (drop (nat i) b) ! k" using assms(1) by (simp add: sees_def)
  also have "\<dots> = drop (nat i) b ! k" using assms(2) by (rule nth_take)
  also have "\<dots> = b ! (nat i + k)" using assms(1) by (intro nth_drop) (auto simp: sees_def)
  finally show ?thesis ..
qed

lemma sees_splice_at:
  assumes "0 \<le> i" and "i + int (length xs) \<le> int (length b)"
  shows "sees (splice_at b i xs) i xs"
  using assms by (auto simp: sees_def splice_at_def)

section \<open>Words\<close>

lemma word_join_be16:
  fixes n :: "'a::len word"
  assumes "16 \<le> LENGTH('a)"
  shows "push_bit 8 (ucast (ucast (drop_bit 8 n) :: u8))
      OR ucast (ucast n :: u8)
    = (ucast n :: u16)" (is "?l = _")
proof (rule bit_word_eqI)
  fix i assume "i < LENGTH(16)"
  then have "i < 16" by simp
  then consider "i < 8" | "8 \<le> i" "i < 16"
    by linarith
  then show "bit ?l i = bit (ucast n :: u16) i"
    using assms by cases (simp_all add: bit_simps less_diff_conv2)
qed

lemma word_join_be32:
  fixes n :: "'a::len word"
  assumes "32 \<le> LENGTH('a)"
  shows "push_bit 24 (ucast (ucast (drop_bit 24 n) :: u8))
      OR push_bit 16 (ucast (ucast (drop_bit 16 n) :: u8))
      OR push_bit 8 (ucast (ucast (drop_bit 8 n) :: u8))
      OR ucast (ucast n :: u8)
    = (ucast n :: u32)" (is "?l = _")
proof (rule bit_word_eqI)
  fix i assume "i < LENGTH(32)"
  then have "i < 32" by simp
  then consider "i < 8" | "8 \<le> i" "i < 16" | "16 \<le> i" "i < 24" | "24 \<le> i" "i < 32"
    by linarith
  then show "bit ?l i = bit (ucast n :: u32) i"
    using assms by cases (simp_all add: bit_simps less_diff_conv2)
qed

lemma word_join_be64:
  fixes n :: "'a::len word"
  assumes "64 \<le> LENGTH('a)"
  shows "push_bit 56 (ucast (ucast (drop_bit 56 n) :: u8))
      OR push_bit 48 (ucast (ucast (drop_bit 48 n) :: u8))
      OR push_bit 40 (ucast (ucast (drop_bit 40 n) :: u8))
      OR push_bit 32 (ucast (ucast (drop_bit 32 n) :: u8))
      OR push_bit 24 (ucast (ucast (drop_bit 24 n) :: u8))
      OR push_bit 16 (ucast (ucast (drop_bit 16 n) :: u8))
      OR push_bit 8 (ucast (ucast (drop_bit 8 n) :: u8))
      OR ucast (ucast n :: u8)
    = (ucast n :: u64)" (is "?l = _")
proof (rule bit_word_eqI)
  fix i assume "i < LENGTH(64)"
  then have "i < 64" by simp
  then consider "i < 8" | "8 \<le> i" "i < 16" | "16 \<le> i" "i < 24" | "24 \<le> i" "i < 32" | "32 \<le> i" "i < 40" | "40 \<le> i" "i < 48" | "48 \<le> i" "i < 56" | "56 \<le> i" "i < 64"
    by linarith
  then show "bit ?l i = bit (ucast n :: u64) i"
    using assms by cases (simp_all add: bit_simps less_diff_conv2)
qed

lemma drop_bit_8_less: "(up :: u64) \<noteq> 0 \<Longrightarrow> unat (drop_bit 8 up) < unat up"
  by (simp add: drop_bit_eq_div unat_div unat_gt_0)

lemma and_ff [simp]: "ucast (n AND 0xff) = (ucast n :: u8)" for n :: "'a::len word"
proof -
  have "(255 :: 'a word) = mask 8" by (simp add: mask_eq_exp_minus_1)
  then have "n AND 0xff = take_bit 8 n" by (simp only: take_bit_eq_mask)
  then show ?thesis by (auto intro!: bit_word_eqI simp: bit_simps dest: bit_imp_le_length)
qed

lemma ucast_u32_u8_of_nat [simp]: "ucast (of_nat n :: u32) = (of_nat n :: u8)"
  by (auto intro!: bit_word_eqI simp: bit_simps)

lemma ucast_u32_u8_of_int [simp]: "ucast (word_of_int k :: u32) = (word_of_int k :: u8)"
  by (auto intro!: bit_word_eqI simp: bit_simps)

lemma and_ff_u8 [simp]: "n AND 0xff = n" for n :: u8
  using and_ff [of n] by simp

lemma nat_or_push_bit: "a OR push_bit n b = a + 2 ^ n * b" if "a < 2 ^ n" for a b :: nat
proof -
  have "\<not> bit a k" if k: "n \<le> k" for k
  proof -
    have "(2 :: nat) ^ n \<le> 2 ^ k" using k by (rule power_increasing) simp
    with \<open>a < 2 ^ n\<close> have "a < 2 ^ k" by (rule less_le_trans)
    then show ?thesis by (simp add: bit_iff_odd)
  qed
  then have "bit (a AND push_bit n b) k = bit 0 k" for k
    by (auto simp: bit_and_iff bit_push_bit_iff_nat)
  then have "a AND push_bit n b = 0" by (rule bit_eqI)
  then have "a OR push_bit n b = a + push_bit n b"
    by (rule disjunctive_add_eq_or [symmetric])
  then show ?thesis by (simp only: push_bit_eq_mult mult.commute)
qed

lemma unat_or_digit:
  fixes u :: "'a::len word" and x :: u8
  assumes "unat u < 2 ^ n" and "n + 8 \<le> LENGTH('a)"
  shows "unat (u OR push_bit n (ucast x)) = unat u + 2 ^ n * unat x"
proof -
  have x: "unat x < 2 ^ 8" using unsigned_less [of x] by simp
  have "2 ^ n * unat x < 2 ^ n * 2 ^ 8" using x by simp
  also have "2 ^ n * 2 ^ 8 = (2 :: nat) ^ (n + 8)" by (simp only: power_add)
  also have "\<dots> \<le> 2 ^ LENGTH('a)" by (rule power_increasing) (use assms(2) in auto)
  finally have "2 ^ n * unat x < 2 ^ LENGTH('a)" .
  moreover have "(2 :: nat) ^ 8 \<le> 2 ^ LENGTH('a)" by (rule power_increasing) (use assms(2) in auto)
  then have "unat (ucast x :: 'a word) = unat x"
    using x by (simp only: unsigned_ucast_eq take_bit_nat_eq_self)
  ultimately have "unat (push_bit n (ucast x :: 'a word)) = push_bit n (unat x)"
    unfolding unsigned_push_bit_eq push_bit_eq_mult [where 'a = nat]
    by (simp add: take_bit_nat_eq_self mult.commute)
  then show ?thesis
    using assms(1) by (simp add: unsigned_or_eq nat_or_push_bit)
qed

lemma uint_of_sint:
  fixes p :: "'a::len word"
  shows "sint p < 0 \<Longrightarrow> uint (- p) = - sint p" and "0 \<le> sint p \<Longrightarrow> uint p = sint p"
proof -
  define v where "v = sint p"
  have p: "p = word_of_int v" "- p = word_of_int (- v)" by (simp_all add: v_def)
  have "(2 :: int) ^ (LENGTH('a) - 1) < 2 ^ LENGTH('a)"
    by (rule power_strict_increasing) (simp_all add: Suc_le_eq)
  moreover have "- (2 ^ (LENGTH('a) - 1)) \<le> v" and "v < 2 ^ (LENGTH('a) - 1)"
    unfolding v_def by (rule sint_ge, rule sint_lt)
  ultimately have "\<bar>v\<bar> < 2 ^ LENGTH('a)" by linarith
  then have eq: "uint (word_of_int w :: 'a word) = w" if "0 \<le> w" "w = v \<or> w = - v" for w
    using that by (auto simp: uint_word_of_int_eq take_bit_int_eq_self)
  show "uint (- p) = - sint p" if "sint p < 0"
  proof -
    from that have "uint (word_of_int (- v) :: 'a word) = - v" by (intro eq) (simp_all add: v_def)
    from this [folded p(2)] show ?thesis by (simp only: v_def)
  qed
  show "uint p = sint p" if "0 \<le> sint p"
  proof -
    from that have "uint (word_of_int v :: 'a word) = v" by (intro eq) (simp_all add: v_def)
    from this [folded p(1)] show ?thesis by (simp only: v_def)
  qed
qed

lemma ucast_u8_id: "uint p < 256 \<Longrightarrow> ucast (ucast p :: u8) = p" for p :: "'a::len word"
  by (intro word_uint_eqI) (simp only: unsigned_ucast_eq, simp add: unsigned_take_bit_eq take_bit_int_eq_self)

lemma u8_eq_iff:
  "x = y \<longleftrightarrow> bit x 0 = bit y 0 \<and> bit x 1 = bit y 1 \<and> bit x 2 = bit y 2 \<and> bit x 3 = bit y 3
     \<and> bit x 4 = bit y 4 \<and> bit x 5 = bit y 5 \<and> bit x 6 = bit y 6 \<and> bit x 7 = bit y 7"
  for x y :: u8
proof
  assume r: "bit x 0 = bit y 0 \<and> bit x 1 = bit y 1 \<and> bit x 2 = bit y 2 \<and> bit x 3 = bit y 3
     \<and> bit x 4 = bit y 4 \<and> bit x 5 = bit y 5 \<and> bit x 6 = bit y 6 \<and> bit x 7 = bit y 7"
  show "x = y"
  proof (rule bit_word_eqI)
    fix n assume "n < LENGTH(8)"
    then have "n = 0 \<or> n = 1 \<or> n = 2 \<or> n = 3 \<or> n = 4 \<or> n = 5 \<or> n = 6 \<or> n = 7" by auto
    with r show "bit x n = bit y n" by auto
  qed
qed simp

lemma u8_bit_ge [simp]: "8 \<le> n \<Longrightarrow> \<not> bit c n" for c :: u8
  using bit_imp_le_length [of c n] by auto

lemma sint_u32_of_nat: "n < 2 ^ 31 \<Longrightarrow> sint (of_nat n :: u32) = int n"
  by (simp add: signed_of_nat signed_take_bit_int_eq_self)

text \<open>A statement about all bytes is checked by enumerating them.\<close>

lemma byte_all: "(\<forall>b::u8. P b) \<longleftrightarrow> list_all (\<lambda>n. P (word_of_int n)) [0..255]"
proof
  assume a: "list_all (\<lambda>n. P (word_of_int n)) [0..255]"
  show "\<forall>b. P b"
  proof
    fix b :: u8
    have "uint b \<in> set [0..255]" using uint_lt2p [of b] by auto
    with a have "P (word_of_int (uint b))" unfolding list_all_iff by blast
    then show "P b" by simp
  qed
qed (simp add: list_all_iff)

end
