(* ===== verification/Ei_Buffer.thy ===== *)
theory Ei_Buffer
  imports Prelude
begin

text \<open>
  The buffer primitives of the \<open>ei\<close> library (\<open>lib/erl_interface/src/misc/putget.h\<close>) and the
  contracts of its encoders and decoders.

  An encoder gets a buffer pointer, which may be \<open>NULL\<close>, and an index.  With \<open>NULL\<close> it only
  advances the index (the sizing pass); otherwise it also writes.  A decoder reads from a buffer
  and advances the index.  Both return \<open>0\<close> or \<open>-1\<close>.  The buffer is a list of bytes, the
  pointer \<open>s\<close> into it is its distance from the start, and an access outside the buffer has no
  result (\<open>None\<close>).  Positions are unbounded integers: the C index is an \<open>int\<close>, so the model is
  exact for buffers below two gigabytes.
\<close>

section \<open>The tags of the external term format\<close>

text \<open>\<open>lib/erl_interface/include/ei.h\<close> and \<open>src/misc/eiext.h\<close>.\<close>

abbreviation ERL_SMALL_INTEGER_EXT :: u8 where "ERL_SMALL_INTEGER_EXT \<equiv> 97"
abbreviation ERL_INTEGER_EXT :: u8 where "ERL_INTEGER_EXT \<equiv> 98"
abbreviation ERL_FLOAT_EXT :: u8 where "ERL_FLOAT_EXT \<equiv> 99"
abbreviation NEW_FLOAT_EXT :: u8 where "NEW_FLOAT_EXT \<equiv> 70"
abbreviation ERL_ATOM_EXT :: u8 where "ERL_ATOM_EXT \<equiv> 100"
abbreviation ERL_SMALL_ATOM_EXT :: u8 where "ERL_SMALL_ATOM_EXT \<equiv> 115"
abbreviation ERL_ATOM_UTF8_EXT :: u8 where "ERL_ATOM_UTF8_EXT \<equiv> 118"
abbreviation ERL_SMALL_ATOM_UTF8_EXT :: u8 where "ERL_SMALL_ATOM_UTF8_EXT \<equiv> 119"
abbreviation ERL_REFERENCE_EXT :: u8 where "ERL_REFERENCE_EXT \<equiv> 101"
abbreviation ERL_NEW_REFERENCE_EXT :: u8 where "ERL_NEW_REFERENCE_EXT \<equiv> 114"
abbreviation ERL_NEWER_REFERENCE_EXT :: u8 where "ERL_NEWER_REFERENCE_EXT \<equiv> 90"
abbreviation ERL_PORT_EXT :: u8 where "ERL_PORT_EXT \<equiv> 102"
abbreviation ERL_NEW_PORT_EXT :: u8 where "ERL_NEW_PORT_EXT \<equiv> 89"
abbreviation ERL_PID_EXT :: u8 where "ERL_PID_EXT \<equiv> 103"
abbreviation ERL_NEW_PID_EXT :: u8 where "ERL_NEW_PID_EXT \<equiv> 88"
abbreviation ERL_SMALL_TUPLE_EXT :: u8 where "ERL_SMALL_TUPLE_EXT \<equiv> 104"
abbreviation ERL_LARGE_TUPLE_EXT :: u8 where "ERL_LARGE_TUPLE_EXT \<equiv> 105"
abbreviation ERL_NIL_EXT :: u8 where "ERL_NIL_EXT \<equiv> 106"
abbreviation ERL_STRING_EXT :: u8 where "ERL_STRING_EXT \<equiv> 107"
abbreviation ERL_LIST_EXT :: u8 where "ERL_LIST_EXT \<equiv> 108"
abbreviation ERL_BINARY_EXT :: u8 where "ERL_BINARY_EXT \<equiv> 109"
abbreviation ERL_BIT_BINARY_EXT :: u8 where "ERL_BIT_BINARY_EXT \<equiv> 77"
abbreviation ERL_SMALL_BIG_EXT :: u8 where "ERL_SMALL_BIG_EXT \<equiv> 110"
abbreviation ERL_LARGE_BIG_EXT :: u8 where "ERL_LARGE_BIG_EXT \<equiv> 111"
abbreviation ERL_NEW_FUN_EXT :: u8 where "ERL_NEW_FUN_EXT \<equiv> 112"
abbreviation ERL_MAP_EXT :: u8 where "ERL_MAP_EXT \<equiv> 116"
abbreviation ERL_FUN_EXT :: u8 where "ERL_FUN_EXT \<equiv> 117"
abbreviation ERL_EXPORT_EXT :: u8 where "ERL_EXPORT_EXT \<equiv> 113"
abbreviation ERL_V4_PORT_EXT :: u8 where "ERL_V4_PORT_EXT \<equiv> 120"
abbreviation ERL_VERSION_MAGIC :: u8 where "ERL_VERSION_MAGIC \<equiv> 131"
abbreviation ERL_MAX :: int where "ERL_MAX \<equiv> 134217727"
abbreviation ERL_MIN :: int where "ERL_MIN \<equiv> - 134217728"

section \<open>Reading\<close>

definition get8 :: "bytes \<Rightarrow> int \<Rightarrow> (u8 \<times> int) option" where
  "get8 b s = (if 0 \<le> s \<and> s < int (length b) then Some (b ! nat s, s + 1) else None)"

definition get16be :: "bytes \<Rightarrow> int \<Rightarrow> (u16 \<times> int) option" where
  "get16be b s = do {
     (x1, s) \<leftarrow> get8 b s;
     (x0, s) \<leftarrow> get8 b s;
     Some (push_bit 8 (ucast x1) OR ucast x0, s) }"

text \<open>The value of \<open>get32be\<close> is a C \<open>int\<close>: used as a number, it is read with \<^const>\<open>sint\<close>.\<close>

definition get32be :: "bytes \<Rightarrow> int \<Rightarrow> (u32 \<times> int) option" where
  "get32be b s = do {
     (x3, s) \<leftarrow> get8 b s;
     (x2, s) \<leftarrow> get8 b s;
     (x1, s) \<leftarrow> get8 b s;
     (x0, s) \<leftarrow> get8 b s;
     Some (push_bit 24 (ucast x3) OR push_bit 16 (ucast x2)
           OR push_bit 8 (ucast x1) OR ucast x0, s) }"

definition get32le :: "bytes \<Rightarrow> int \<Rightarrow> (u32 \<times> int) option" where
  "get32le b s = do {
     (x0, s) \<leftarrow> get8 b s;
     (x1, s) \<leftarrow> get8 b s;
     (x2, s) \<leftarrow> get8 b s;
     (x3, s) \<leftarrow> get8 b s;
     Some (push_bit 24 (ucast x3) OR push_bit 16 (ucast x2)
           OR push_bit 8 (ucast x1) OR ucast x0, s) }"

definition get64be :: "bytes \<Rightarrow> int \<Rightarrow> (u64 \<times> int) option" where
  "get64be b s = do {
     (x7, s) \<leftarrow> get8 b s;
     (x6, s) \<leftarrow> get8 b s;
     (x5, s) \<leftarrow> get8 b s;
     (x4, s) \<leftarrow> get8 b s;
     (x3, s) \<leftarrow> get8 b s;
     (x2, s) \<leftarrow> get8 b s;
     (x1, s) \<leftarrow> get8 b s;
     (x0, s) \<leftarrow> get8 b s;
     Some (push_bit 56 (ucast x7) OR push_bit 48 (ucast x6)
           OR push_bit 40 (ucast x5) OR push_bit 32 (ucast x4)
           OR push_bit 24 (ucast x3) OR push_bit 16 (ucast x2)
           OR push_bit 8 (ucast x1) OR ucast x0, s) }"

text \<open>The source side of a \<open>memcpy\<close> or \<open>memmove\<close> of \<open>n\<close> bytes from the pointer \<open>s\<close>.\<close>

definition read_bytes :: "bytes \<Rightarrow> int \<Rightarrow> int \<Rightarrow> bytes option" where
  "read_bytes b s n =
     (if n = 0 then Some []
      else if 0 \<le> s \<and> 0 < n \<and> s + n \<le> int (length b) then Some (take (nat n) (drop (nat s) b))
      else None)"

text \<open>\<open>strlen\<close> of a string at the start of a memory: there is none without a terminating zero.\<close>

definition c_strlen :: "bytes \<Rightarrow> int option" where
  "c_strlen p = (if 0 \<in> set p then Some (int (length (takeWhile (\<lambda>c. c \<noteq> 0) p))) else None)"

section \<open>Writing\<close>

definition put8 :: "bytes \<Rightarrow> int \<Rightarrow> 'a::len word \<Rightarrow> (bytes \<times> int) option" where
  "put8 b s n =
     (if 0 \<le> s \<and> s < int (length b) then Some (b[nat s := ucast n], s + 1) else None)"

definition put16be :: "bytes \<Rightarrow> int \<Rightarrow> 'a::len word \<Rightarrow> (bytes \<times> int) option" where
  "put16be b s n = do {
     (b, s) \<leftarrow> put8 b s (drop_bit 8 n);
     put8 b s n }"

definition put32be :: "bytes \<Rightarrow> int \<Rightarrow> 'a::len word \<Rightarrow> (bytes \<times> int) option" where
  "put32be b s n = do {
     (b, s) \<leftarrow> put8 b s (drop_bit 24 n);
     (b, s) \<leftarrow> put8 b s (drop_bit 16 n);
     (b, s) \<leftarrow> put8 b s (drop_bit 8 n);
     put8 b s n }"

definition put32le :: "bytes \<Rightarrow> int \<Rightarrow> 'a::len word \<Rightarrow> (bytes \<times> int) option" where
  "put32le b s n = do {
     (b, s) \<leftarrow> put8 b s n;
     (b, s) \<leftarrow> put8 b s (drop_bit 8 n);
     (b, s) \<leftarrow> put8 b s (drop_bit 16 n);
     put8 b s (drop_bit 24 n) }"

definition put64be :: "bytes \<Rightarrow> int \<Rightarrow> 'a::len word \<Rightarrow> (bytes \<times> int) option" where
  "put64be b s n = do {
     (b, s) \<leftarrow> put8 b s (drop_bit 56 n);
     (b, s) \<leftarrow> put8 b s (drop_bit 48 n);
     (b, s) \<leftarrow> put8 b s (drop_bit 40 n);
     (b, s) \<leftarrow> put8 b s (drop_bit 32 n);
     (b, s) \<leftarrow> put8 b s (drop_bit 24 n);
     (b, s) \<leftarrow> put8 b s (drop_bit 16 n);
     (b, s) \<leftarrow> put8 b s (drop_bit 8 n);
     put8 b s n }"

text \<open>The destination side of a \<open>memcpy\<close> or \<open>memmove\<close>, with \<open>s\<close> moved past the bytes.\<close>

fun put_bytes :: "bytes \<Rightarrow> int \<Rightarrow> bytes \<Rightarrow> (bytes \<times> int) option" where
  "put_bytes b s [] = Some (b, s)"
| "put_bytes b s (x # xs) = do { (b, s) \<leftarrow> put8 b s x; put_bytes b s xs }"

section \<open>Byte sequences of numbers\<close>

definition be16 :: "'a::len word \<Rightarrow> bytes" where
  "be16 n = [ucast (drop_bit 8 n), ucast n]"

definition be32 :: "'a::len word \<Rightarrow> bytes" where
  "be32 n = [ucast (drop_bit 24 n), ucast (drop_bit 16 n), ucast (drop_bit 8 n), ucast n]"

definition be64 :: "'a::len word \<Rightarrow> bytes" where
  "be64 n = [ucast (drop_bit 56 n), ucast (drop_bit 48 n), ucast (drop_bit 40 n),
     ucast (drop_bit 32 n), ucast (drop_bit 24 n), ucast (drop_bit 16 n),
     ucast (drop_bit 8 n), ucast n]"

definition le32 :: "'a::len word \<Rightarrow> bytes" where
  "le32 n = rev (be32 n)"

lemma length_be [simp]:
  "length (be16 n) = 2" "length (be32 n) = 4" "length (be64 n) = 8" "length (le32 n) = 4"
  by (simp_all add: be16_def be32_def be64_def le32_def)

lemma put8_bytes: "put8 b s n = put_bytes b s [ucast n]"
  by (simp add: put8_def)

lemma put_bytes_append:
  "put_bytes b s (xs @ ys) = do { (b, s) \<leftarrow> put_bytes b s xs; put_bytes b s ys }"
  by (induction xs arbitrary: b s) (auto simp: put8_def)

text \<open>What a run of writes does, whether or not it stays inside the buffer.\<close>

lemma put_bytes_eq:
  "put_bytes b s xs =
     (if xs = [] then Some (b, s)
      else if 0 \<le> s \<and> s + int (length xs) \<le> int (length b)
      then Some (splice_at b s xs, s + int (length xs)) else None)"
proof (induction xs arbitrary: b s)
  case Nil
  then show ?case by simp
next
  case (Cons x xs)
  show ?case
  proof (cases "0 \<le> s \<and> s < int (length b)")
    case True
    then have one: "b[nat s := x] = splice_at b s [x]"
      by (simp add: list_update_splice_at)
    have "splice_at (splice_at b s [x]) (s + 1) xs = splice_at b s (x # xs)"
      if "s + int (length (x # xs)) \<le> int (length b)"
      using splice_at_append [of s "[x]" xs b] True that by simp
    with True show ?thesis
      by (auto simp: put8_def Cons.IH one)
  next
    case False
    then show ?thesis by (auto simp: put8_def)
  qed
qed

lemma put_bytes_in:
  "0 \<le> s \<Longrightarrow> s + int (length xs) \<le> int (length b) \<Longrightarrow>
   put_bytes b s xs = Some (splice_at b s xs, s + int (length xs))"
  by (simp add: put_bytes_eq)

lemma put_words:
  "put16be b s n = put_bytes b s (be16 n)"
  "put32be b s n = put_bytes b s (be32 n)"
  "put64be b s n = put_bytes b s (be64 n)"
  "put32le b s n = put_bytes b s (le32 n)"
  by (simp_all add: put16be_def put32be_def put64be_def put32le_def be16_def be32_def be64_def
      le32_def put8_def)

text \<open>A sequence of writes is one write of the concatenation.\<close>

lemma put_seq:
  "put_bytes b s xs \<bind> (\<lambda>(b, s). put_bytes b s ys \<bind> (\<lambda>(b, s). f b s))
   = put_bytes b s (xs @ ys) \<bind> (\<lambda>(b, s). f b s)"
  by (cases "put_bytes b s xs") (auto simp: put_bytes_append)

declare put_bytes.simps(2) [simp del]

lemmas [buf_simps] = put8_bytes put_words put_seq put_bytes_in

lemma read_bytes_sees: "sees b s xs \<Longrightarrow> read_bytes b s (int (length xs)) = Some xs"
  using sees_length [of b s xs] by (auto simp: read_bytes_def sees_def)

lemma c_strlen_terminated:
  "c_strlen (p @ 0 # rest) = Some (int (length (takeWhile (\<lambda>c. c \<noteq> 0) p)))"
  unfolding c_strlen_def by (induction p) simp_all

lemma get8_sees: "sees b s (x # xs) \<Longrightarrow> get8 b s = Some (x, s + 1)"
  by (simp add: get8_def sees_Cons)

lemma get8_nth:
  assumes "sees b s xs" and "k < length xs"
  shows "get8 b (s + int k) = Some (xs ! k, s + int k + 1)"
  using assms sees_nth [OF assms] sees_length [OF assms(1)]
  by (simp add: get8_def sees_def nat_add_distrib)

lemma get16be_sees:
  fixes n :: "'a::len word"
  assumes "sees b s (be16 n)" and "16 \<le> LENGTH('a)"
  shows "get16be b s = Some (ucast n, s + 2)"
  using assms word_join_be16 [of n]
  by (simp add: get16be_def get8_def be16_def sees_Cons)

lemma get32be_sees:
  fixes n :: "'a::len word"
  assumes "sees b s (be32 n)" and "32 \<le> LENGTH('a)"
  shows "get32be b s = Some (ucast n, s + 4)"
  using assms word_join_be32 [of n]
  by (simp add: get32be_def get8_def be32_def sees_Cons)

lemma get32le_sees:
  fixes n :: "'a::len word"
  assumes "sees b s (le32 n)" and "32 \<le> LENGTH('a)"
  shows "get32le b s = Some (ucast n, s + 4)"
  using assms word_join_be32 [of n]
  by (simp add: get32le_def get8_def le32_def be32_def sees_Cons)

lemma get64be_sees:
  fixes n :: "'a::len word"
  assumes "sees b s (be64 n)" and "64 \<le> LENGTH('a)"
  shows "get64be b s = Some (ucast n, s + 8)"
  using assms word_join_be64 [of n]
  by (simp add: get64be_def get8_def be64_def sees_Cons)

text \<open>The reading rules at the widths the library uses, for \<open>auto dest!: sees_getters\<close>.\<close>

lemmas sees_getters =
  get16be_sees [where 'a = 16, simplified] get16be_sees [where 'a = 32, simplified]
  get32be_sees [where 'a = 32, simplified] get32be_sees [where 'a = 64, simplified]
  get32le_sees [where 'a = 32, simplified] get64be_sees [where 'a = 64, simplified]

lemmas sees_simps = sees_Cons sees_append get8_def

section \<open>The contracts\<close>

text \<open>
  The result of an encoder: its return value, the buffer and the index.  The result of a decoder:
  \<open>-1\<close> or \<open>0\<close> with what it stored through its pointers, and the index.
\<close>

type_synonym enc_res = "(int \<times> bytes option \<times> int) option"

datatype 'a cret = Fail | Done 'a

type_synonym 'a dec_res = "('a cret \<times> int) option"

text \<open>
  An encoder, applied to one value, against the external representation \<open>ext\<close> of that value
  (\<open>None\<close> where the encoder rejects it).  The sizing pass and the writing pass agree on the
  length; the writing pass stays inside a buffer that has this room and touches nothing else.
\<close>

locale ei_encoder =
  fixes enc :: "bytes option \<Rightarrow> int \<Rightarrow> enc_res"
    and ext :: "bytes option"
  assumes size_pass: "ext = Some bs \<Longrightarrow> enc None i = Some (0, None, i + int (length bs))"
    and write_pass: "ext = Some bs \<Longrightarrow> 0 \<le> i \<Longrightarrow> i + int (length bs) \<le> int (length b) \<Longrightarrow>
      enc (Some b) i = Some (0, Some (splice_at b i bs), i + int (length bs))"
    and reject: "ext = None \<Longrightarrow> \<exists>i'. enc None i = Some (-1, None, i')"
begin

lemma sized_write:
  assumes "enc None i = Some (0, None, i')" and "0 \<le> i" and "i' \<le> int (length b)"
  obtains bs where "ext = Some bs" and "i' = i + int (length bs)"
    and "enc (Some b) i = Some (0, Some (splice_at b i bs), i')"
proof (cases ext)
  case None
  then show ?thesis using reject [of i] assms(1) by auto
next
  case (Some bs)
  then show ?thesis
    using that [OF Some] size_pass [OF Some, of i] write_pass [OF Some assms(2), of b] assms(1,3)
    by simp
qed

lemma sized_write_frame:
  assumes "enc None i = Some (0, None, i')" and "0 \<le> i" and "i' \<le> int (length b)"
  shows "\<exists>b'. enc (Some b) i = Some (0, Some b', i') \<and> length b' = length b
    \<and> take (nat i) b' = take (nat i) b \<and> drop (nat i') b' = drop (nat i') b"
proof -
  from assms obtain bs where "ext = Some bs" and i': "i' = i + int (length bs)"
    and e: "enc (Some b) i = Some (0, Some (splice_at b i bs), i')"
    by (rule sized_write)
  have "nat i' = nat i + length bs" using assms(2) i' by simp
  moreover have "nat i + length bs \<le> length b" using assms(2,3) i' by linarith
  ultimately show ?thesis
    using e assms(2,3) i' by (simp add: splice_at_def)
qed

end

text \<open>
  The idiom \<open>if (ei_encode_x(buf, index, ...) < 0) return -1;\<close> followed by further encoding.
\<close>

definition enc_then ::
  "(bytes option \<Rightarrow> int \<Rightarrow> enc_res) \<Rightarrow> (bytes option \<Rightarrow> int \<Rightarrow> enc_res) \<Rightarrow> bytes option \<Rightarrow> int \<Rightarrow> enc_res"
where
  "enc_then e1 e2 buf index = do {
     (r, buf, index) \<leftarrow> e1 buf index;
     (if r < 0 then Some (-1, buf, index) else e2 buf index) }"

lemma enc_then:
  assumes "ei_encoder e1 x1" and "ei_encoder e2 x2"
  shows "ei_encoder (enc_then e1 e2) (do { a \<leftarrow> x1; b \<leftarrow> x2; Some (a @ b) })"
proof
  fix bs i and b :: bytes
  assume "do { a \<leftarrow> x1; b \<leftarrow> x2; Some (a @ b) } = Some bs"
  then obtain b1 b2 where x: "x1 = Some b1" "x2 = Some b2" and bs: "bs = b1 @ b2"
    by (auto split: Option.bind_splits)
  show "enc_then e1 e2 None i = Some (0, None, i + int (length bs))"
    using ei_encoder.size_pass [OF assms(1) x(1)] ei_encoder.size_pass [OF assms(2) x(2)]
    by (simp add: enc_then_def bs)
  assume "0 \<le> i" and "i + int (length bs) \<le> int (length b)"
  then show "enc_then e1 e2 (Some b) i = Some (0, Some (splice_at b i bs), i + int (length bs))"
    using ei_encoder.write_pass [OF assms(1) x(1), of i b]
      ei_encoder.write_pass [OF assms(2) x(2), of "i + int (length b1)" "splice_at b i b1"]
      splice_at_append [of i b1 b2 b]
    by (simp add: enc_then_def bs)
next
  fix i
  assume "do { a \<leftarrow> x1; b \<leftarrow> x2; Some (a @ b) } = None"
  then show "\<exists>i'. enc_then e1 e2 None i = Some (-1, None, i')"
    using ei_encoder.reject [OF assms(1), of i] ei_encoder.reject [OF assms(2)]
      ei_encoder.size_pass [OF assms(1), of _ i]
    by (cases x1; cases x2) (auto simp: enc_then_def)
qed

text \<open>A decoder, applied where the external representation of a value starts.\<close>

locale ei_decoder =
  fixes dec :: "bytes \<Rightarrow> int \<Rightarrow> 'a dec_res"
    and ext :: bytes
    and v :: 'a
  assumes decodes: "sees b i ext \<Longrightarrow> dec b i = Some (Done v, i + int (length ext))"

text \<open>
  An encoder and a decoder that agree on the external representation of the values the encoder
  accepts.
\<close>

locale ei_partial_codec = ei_encoder enc ext
  for enc :: "bytes option \<Rightarrow> int \<Rightarrow> enc_res"
    and ext :: "bytes option" +
  fixes dec :: "bytes \<Rightarrow> int \<Rightarrow> 'a dec_res"
    and v :: 'a
  assumes decodes_ext: "ext = Some bs \<Longrightarrow> sees b i bs \<Longrightarrow> dec b i = Some (Done v, i + int (length bs))"
begin

text \<open>
  In a buffer with the room the sizing pass asks for, the writing pass succeeds, changes nothing
  outside its own bytes, and the decoder returns the value and the same index.
\<close>

lemma round_trip:
  assumes "enc None i = Some (0, None, j)" and "0 \<le> i" and "j \<le> int (length b)"
  shows "\<exists>b'. enc (Some b) i = Some (0, Some b', j) \<and> dec b' i = Some (Done v, j)
    \<and> length b' = length b
    \<and> take (nat i) b' = take (nat i) b \<and> drop (nat j) b' = drop (nat j) b"
proof -
  from assms obtain bs where x: "ext = Some bs" and j: "j = i + int (length bs)"
    and w: "enc (Some b) i = Some (0, Some (splice_at b i bs), j)"
    by (rule sized_write)
  with assms(3) have le: "i + int (length bs) \<le> int (length b)" by simp
  from w decodes_ext [OF x sees_splice_at [OF assms(2) le]] sized_write_frame [OF assms]
  show ?thesis by (auto simp: j)
qed

end

text \<open>The total case: every value has a representation.\<close>

locale ei_codec = ei_encoder enc "Some ext" + ei_decoder dec ext v
  for enc :: "bytes option \<Rightarrow> int \<Rightarrow> enc_res"
    and dec :: "bytes \<Rightarrow> int \<Rightarrow> 'a dec_res"
    and ext :: bytes
    and v :: 'a

sublocale ei_codec \<subseteq> ei_partial_codec enc "Some ext" dec v
  by unfold_locales (simp add: decodes)

end
