(* ===== verification/Ei_Integer.thy ===== *)
theory Ei_Integer
  imports Ei_Buffer
begin

text \<open>
  The integer codecs of \<open>ei\<close>: \<open>encode_long.c\<close>, \<open>encode_longlong.c\<close>, \<open>encode_ulong.c\<close>,
  \<open>encode_ulonglong.c\<close>, \<open>encode_char.c\<close> and their decoders.  The \<open>longlong\<close> functions are the
  ones a 64-bit build uses for \<open>long\<close> (\<open>EI_64BIT\<close>); the \<open>_32\<close> functions are the bodies the
  other builds compile, where \<open>long\<close> has 32 bits.
\<close>

section \<open>Encoders\<close>

text \<open>The loop \<open>while (up) { *s++ = up & 0xff; up >>= 8; arity++; }\<close>.\<close>

function put_digits :: "bytes \<Rightarrow> int \<Rightarrow> u64 \<Rightarrow> nat \<Rightarrow> (bytes \<times> int \<times> nat) option" where
  "put_digits b s up arity =
     (if up = 0 then Some (b, s, arity)
      else do { (b, s) \<leftarrow> put8 b s (up AND 0xff); put_digits b s (drop_bit 8 up) (arity + 1) })"
  by pat_completeness auto

termination
  by (relation "measure (\<lambda>(b, s, up, arity). unat up)") (auto simp: drop_bit_8_less)

text \<open>The same loop in the sizing pass: \<open>while (up) { s++; up >>= 8; }\<close>.\<close>

function count_digits :: "int \<Rightarrow> u64 \<Rightarrow> int" where
  "count_digits s up = (if up = 0 then s else count_digits (s + 1) (drop_bit 8 up))"
  by pat_completeness auto
termination
  by (relation "measure (\<lambda>(s, up). unat up)") (auto simp: drop_bit_8_less)

declare put_digits.simps [simp del] count_digits.simps [simp del]

text \<open>
  The branch for numbers beyond \<open>ERL_MIN\<close>..\<open>ERL_MAX\<close>, the same in both functions below: the
  place of the arity byte is skipped and filled in after the digits.
\<close>

definition put_small_big :: "bytes \<Rightarrow> int \<Rightarrow> u8 \<Rightarrow> u64 \<Rightarrow> enc_res" where
  "put_small_big b index sign up = do {
     (b, s) \<leftarrow> put8 b index ERL_SMALL_BIG_EXT;
     let arityp = s;
     let s = s + 1;
     (b, s) \<leftarrow> put8 b s sign;
     (b, s, arity) \<leftarrow> put_digits b s up 0;
     (b, _) \<leftarrow> put8 b arityp (of_nat arity :: u32);
     Some (0, Some b, s) }"

definition ei_encode_longlong :: "bytes option \<Rightarrow> int \<Rightarrow> u64 \<Rightarrow> enc_res" where
  "ei_encode_longlong buf index p =
     (if sint p < 256 \<and> 0 \<le> sint p then
        (case buf of
           None \<Rightarrow> Some (0, None, index + 2)
         | Some b \<Rightarrow> do {
             (b, s) \<leftarrow> put8 b index ERL_SMALL_INTEGER_EXT;
             (b, s) \<leftarrow> put8 b s (p AND 0xff);
             Some (0, Some b, s) })
      else if sint p \<le> ERL_MAX \<and> ERL_MIN \<le> sint p then
        (case buf of
           None \<Rightarrow> Some (0, None, index + 5)
         | Some b \<Rightarrow> do {
             (b, s) \<leftarrow> put8 b index ERL_INTEGER_EXT;
             (b, s) \<leftarrow> put32be b s p;
             Some (0, Some b, s) })
      else
        let up = (if sint p < 0 then - p else p) in
        (case buf of
           Some b \<Rightarrow> put_small_big b index (of_bool (sint p < 0)) up
         | None \<Rightarrow> Some (0, None, count_digits (index + 3) up)))"

definition ei_encode_ulonglong :: "bytes option \<Rightarrow> int \<Rightarrow> u64 \<Rightarrow> enc_res" where
  "ei_encode_ulonglong buf index p =
     (if uint p < 256 then
        (case buf of
           None \<Rightarrow> Some (0, None, index + 2)
         | Some b \<Rightarrow> do {
             (b, s) \<leftarrow> put8 b index ERL_SMALL_INTEGER_EXT;
             (b, s) \<leftarrow> put8 b s (p AND 0xff);
             Some (0, Some b, s) })
      else if uint p \<le> ERL_MAX then
        (case buf of
           None \<Rightarrow> Some (0, None, index + 5)
         | Some b \<Rightarrow> do {
             (b, s) \<leftarrow> put8 b index ERL_INTEGER_EXT;
             (b, s) \<leftarrow> put32be b s p;
             Some (0, Some b, s) })
      else
        (case buf of
           Some b \<Rightarrow> put_small_big b index 0 p
         | None \<Rightarrow> Some (0, None, count_digits (index + 3) p)))"

definition ei_encode_long :: "bytes option \<Rightarrow> int \<Rightarrow> u64 \<Rightarrow> enc_res" where
  "ei_encode_long buf index p = ei_encode_longlong buf index p"

definition ei_encode_ulong :: "bytes option \<Rightarrow> int \<Rightarrow> u64 \<Rightarrow> enc_res" where
  "ei_encode_ulong buf index p = ei_encode_ulonglong buf index p"

definition ei_encode_long_32 :: "bytes option \<Rightarrow> int \<Rightarrow> u32 \<Rightarrow> enc_res" where
  "ei_encode_long_32 buf index p =
     (if sint p < 256 \<and> 0 \<le> sint p then
        (case buf of
           None \<Rightarrow> Some (0, None, index + 2)
         | Some b \<Rightarrow> do {
             (b, s) \<leftarrow> put8 b index ERL_SMALL_INTEGER_EXT;
             (b, s) \<leftarrow> put8 b s (p AND 0xff);
             Some (0, Some b, s) })
      else if sint p \<le> ERL_MAX \<and> ERL_MIN \<le> sint p then
        (case buf of
           None \<Rightarrow> Some (0, None, index + 5)
         | Some b \<Rightarrow> do {
             (b, s) \<leftarrow> put8 b index ERL_INTEGER_EXT;
             (b, s) \<leftarrow> put32be b s p;
             Some (0, Some b, s) })
      else
        (case buf of
           None \<Rightarrow> Some (0, None, index + 7)
         | Some b \<Rightarrow> do {
             (b, s) \<leftarrow> put8 b index ERL_SMALL_BIG_EXT;
             (b, s) \<leftarrow> put8 b s (4 :: u8);
             (b, s) \<leftarrow> put8 b s (of_bool (sint p < 0) :: u8);
             (b, s) \<leftarrow> put32le b s (if sint p < 0 then - p else p);
             Some (0, Some b, s) }))"

definition ei_encode_ulong_32 :: "bytes option \<Rightarrow> int \<Rightarrow> u32 \<Rightarrow> enc_res" where
  "ei_encode_ulong_32 buf index p =
     (if uint p > ERL_MAX then
        (case buf of
           None \<Rightarrow> Some (0, None, index + 7)
         | Some b \<Rightarrow> do {
             (b, s) \<leftarrow> put8 b index ERL_SMALL_BIG_EXT;
             (b, s) \<leftarrow> put8 b s (4 :: u8);
             (b, s) \<leftarrow> put8 b s (0 :: u8);
             (b, s) \<leftarrow> put32le b s p;
             Some (0, Some b, s) })
      else if uint p < 256 \<and> uint p \<ge> 0 then
        (case buf of
           None \<Rightarrow> Some (0, None, index + 2)
         | Some b \<Rightarrow> do {
             (b, s) \<leftarrow> put8 b index ERL_SMALL_INTEGER_EXT;
             (b, s) \<leftarrow> put8 b s (p AND 0xff);
             Some (0, Some b, s) })
      else
        (case buf of
           None \<Rightarrow> Some (0, None, index + 5)
         | Some b \<Rightarrow> do {
             (b, s) \<leftarrow> put8 b index ERL_INTEGER_EXT;
             (b, s) \<leftarrow> put32be b s p;
             Some (0, Some b, s) }))"

definition ei_encode_char :: "bytes option \<Rightarrow> int \<Rightarrow> u8 \<Rightarrow> enc_res" where
  "ei_encode_char buf index p =
     (case buf of
        None \<Rightarrow> Some (0, None, index + 2)
      | Some b \<Rightarrow> do {
          (b, s) \<leftarrow> put8 b index ERL_SMALL_INTEGER_EXT;
          (b, s) \<leftarrow> put8 b s (p AND 0xff);
          Some (0, Some b, s) })"

section \<open>Decoders\<close>

text \<open>
  The loop over the digits of a big integer, \<open>for (i = 0; i < arity; i++)\<close>, with \<open>k\<close> iterations
  to go: the first \<open>lim\<close> bytes are joined, any further byte has to be 0.
\<close>

fun get_digits :: "nat \<Rightarrow> bytes \<Rightarrow> int \<Rightarrow> nat \<Rightarrow> nat \<Rightarrow> 'a::len word \<Rightarrow> ('a word cret \<times> int) option" where
  "get_digits lim b s 0 i u = Some (Done u, s)"
| "get_digits lim b s (Suc k) i u = do {
     (x, s) \<leftarrow> get8 b s;
     if i < lim then get_digits lim b s k (Suc i) (u OR push_bit (i * 8) (ucast x))
     else if x \<noteq> 0 then Some (Fail, s)
     else get_digits lim b s k (Suc i) u }"

definition decode_big_signed :: "nat \<Rightarrow> bytes \<Rightarrow> int \<Rightarrow> int \<Rightarrow> int \<Rightarrow> 'a::len word dec_res" where
  "decode_big_signed lim buf index s arity = do {
     (sign, s) \<leftarrow> get8 buf s;
     (r, s) \<leftarrow> get_digits lim buf s (nat arity) 0 (0 :: 'a word);
     (case r of
        Fail \<Rightarrow> Some (Fail, index)
      | Done u \<Rightarrow>
          if sign \<noteq> 0 then
            (if uint u > 2 ^ (8 * lim - 1) then Some (Fail, index) else Some (Done (- u), s))
          else
            (if uint u > 2 ^ (8 * lim - 1) - 1 then Some (Fail, index) else Some (Done u, s))) }"

definition decode_big_unsigned :: "nat \<Rightarrow> bytes \<Rightarrow> int \<Rightarrow> int \<Rightarrow> int \<Rightarrow> 'a::len word dec_res" where
  "decode_big_unsigned lim buf index s arity = do {
     (sign, s) \<leftarrow> get8 buf s;
     (if sign \<noteq> 0 then Some (Fail, index)
      else do {
        (r, s) \<leftarrow> get_digits lim buf s (nat arity) 0 (0 :: 'a word);
        (case r of Fail \<Rightarrow> Some (Fail, index) | Done u \<Rightarrow> Some (Done u, s)) }) }"

definition ei_decode_longlong :: "bytes \<Rightarrow> int \<Rightarrow> u64 dec_res" where
  "ei_decode_longlong buf index = do {
     (t, s) \<leftarrow> get8 buf index;
     (if t = ERL_SMALL_INTEGER_EXT then do { (n, s) \<leftarrow> get8 buf s; Some (Done (ucast n), s) }
      else if t = ERL_INTEGER_EXT then do { (n, s) \<leftarrow> get32be buf s; Some (Done (scast n), s) }
      else if t = ERL_SMALL_BIG_EXT then do {
        (arity, s) \<leftarrow> get8 buf s;
        decode_big_signed 8 buf index s (uint arity) }
      else if t = ERL_LARGE_BIG_EXT then do {
        (arity, s) \<leftarrow> get32be buf s;
        decode_big_signed 8 buf index s (sint arity) }
      else Some (Fail, index)) }"

definition ei_decode_long :: "bytes \<Rightarrow> int \<Rightarrow> u64 dec_res" where
  "ei_decode_long buf index = ei_decode_longlong buf index"

definition ei_decode_long_32 :: "bytes \<Rightarrow> int \<Rightarrow> u32 dec_res" where
  "ei_decode_long_32 buf index = do {
     (t, s) \<leftarrow> get8 buf index;
     (if t = ERL_SMALL_INTEGER_EXT then do { (n, s) \<leftarrow> get8 buf s; Some (Done (ucast n), s) }
      else if t = ERL_INTEGER_EXT then do { (n, s) \<leftarrow> get32be buf s; Some (Done n, s) }
      else if t = ERL_SMALL_BIG_EXT then do {
        (arity, s) \<leftarrow> get8 buf s;
        decode_big_signed 4 buf index s (uint arity) }
      else if t = ERL_LARGE_BIG_EXT then do {
        (arity, s) \<leftarrow> get32be buf s;
        decode_big_signed 4 buf index s (sint arity) }
      else Some (Fail, index)) }"

definition ei_decode_ulonglong :: "bytes \<Rightarrow> int \<Rightarrow> u64 dec_res" where
  "ei_decode_ulonglong buf index = do {
     (t, s) \<leftarrow> get8 buf index;
     (if t = ERL_SMALL_INTEGER_EXT then do { (n, s) \<leftarrow> get8 buf s; Some (Done (ucast n), s) }
      else if t = ERL_INTEGER_EXT then do {
        (sn, s) \<leftarrow> get32be buf s;
        (if sint sn < 0 then Some (Fail, index) else Some (Done (scast sn), s)) }
      else if t = ERL_SMALL_BIG_EXT then do {
        (arity, s) \<leftarrow> get8 buf s;
        decode_big_unsigned 8 buf index s (uint arity) }
      else if t = ERL_LARGE_BIG_EXT then do {
        (arity, s) \<leftarrow> get32be buf s;
        decode_big_unsigned 8 buf index s (sint arity) }
      else Some (Fail, index)) }"

definition ei_decode_ulong :: "bytes \<Rightarrow> int \<Rightarrow> u64 dec_res" where
  "ei_decode_ulong buf index = ei_decode_ulonglong buf index"

definition ei_decode_ulong_32 :: "bytes \<Rightarrow> int \<Rightarrow> u32 dec_res" where
  "ei_decode_ulong_32 buf index = do {
     (t, s) \<leftarrow> get8 buf index;
     (if t = ERL_SMALL_INTEGER_EXT then do { (n, s) \<leftarrow> get8 buf s; Some (Done (ucast n), s) }
      else if t = ERL_INTEGER_EXT then do {
        (sn, s) \<leftarrow> get32be buf s;
        (if sint sn < 0 then Some (Fail, index) else Some (Done sn, s)) }
      else if t = ERL_SMALL_BIG_EXT then do {
        (arity, s) \<leftarrow> get8 buf s;
        decode_big_unsigned 4 buf index s (uint arity) }
      else if t = ERL_LARGE_BIG_EXT then do {
        (arity, s) \<leftarrow> get32be buf s;
        decode_big_unsigned 4 buf index s (sint arity) }
      else Some (Fail, index)) }"

text \<open>In \<open>ei_decode_char\<close> every byte of the digits after the first has to be 0.\<close>

fun zero_digits :: "bytes \<Rightarrow> int \<Rightarrow> nat \<Rightarrow> (bool \<times> int) option" where
  "zero_digits b s 0 = Some (True, s)"
| "zero_digits b s (Suc k) = do {
     (x, s) \<leftarrow> get8 b s;
     if x \<noteq> 0 then Some (False, s) else zero_digits b s k }"

definition decode_big_char :: "bytes \<Rightarrow> int \<Rightarrow> int \<Rightarrow> int \<Rightarrow> u8 dec_res" where
  "decode_big_char buf index s arity = do {
     (sign, s) \<leftarrow> get8 buf s;
     (if sign \<noteq> 0 then Some (Fail, index)
      else do {
        (n, s) \<leftarrow> get8 buf s;
        (z, s) \<leftarrow> zero_digits buf s (nat (arity - 1));
        (if z then Some (Done n, s) else Some (Fail, index)) }) }"

definition ei_decode_char :: "bytes \<Rightarrow> int \<Rightarrow> u8 dec_res" where
  "ei_decode_char buf index = do {
     (t, s) \<leftarrow> get8 buf index;
     (if t = ERL_SMALL_INTEGER_EXT then do { (n, s) \<leftarrow> get8 buf s; Some (Done n, s) }
      else if t = ERL_INTEGER_EXT then do {
        (n, s) \<leftarrow> get32be buf s;
        (if sint n < 0 \<or> sint n > 255 then Some (Fail, index) else Some (Done (ucast n), s)) }
      else if t = ERL_SMALL_BIG_EXT then do {
        (arity, s) \<leftarrow> get8 buf s;
        decode_big_char buf index s (uint arity) }
      else if t = ERL_LARGE_BIG_EXT then do {
        (arity, s) \<leftarrow> get32be buf s;
        decode_big_char buf index s (sint arity) }
      else Some (Fail, index)) }"

section \<open>External representations\<close>

text \<open>The digits of a number in base 256, least significant first, without leading zeros.\<close>

function le_digits :: "u64 \<Rightarrow> bytes" where
  "le_digits up = (if up = 0 then [] else ucast up # le_digits (drop_bit 8 up))"
  by pat_completeness auto
termination
  by (relation "measure unat") (auto simp: drop_bit_8_less)

declare le_digits.simps [simp del]

fun le_val :: "bytes \<Rightarrow> nat" where
  "le_val [] = 0"
| "le_val (x # xs) = unat x + 256 * le_val xs"

definition ext_big :: "u8 \<Rightarrow> u64 \<Rightarrow> bytes" where
  "ext_big sign up = ERL_SMALL_BIG_EXT # of_nat (length (le_digits up)) # sign # le_digits up"

definition ext_longlong :: "u64 \<Rightarrow> bytes" where
  "ext_longlong p =
     (if sint p < 256 \<and> 0 \<le> sint p then [ERL_SMALL_INTEGER_EXT, ucast p]
      else if sint p \<le> ERL_MAX \<and> ERL_MIN \<le> sint p then ERL_INTEGER_EXT # be32 p
      else ext_big (of_bool (sint p < 0)) (if sint p < 0 then - p else p))"

definition ext_ulonglong :: "u64 \<Rightarrow> bytes" where
  "ext_ulonglong p =
     (if uint p < 256 then [ERL_SMALL_INTEGER_EXT, ucast p]
      else if uint p \<le> ERL_MAX then ERL_INTEGER_EXT # be32 p
      else ext_big 0 p)"

definition ext_long_32 :: "u32 \<Rightarrow> bytes" where
  "ext_long_32 p =
     (if sint p < 256 \<and> 0 \<le> sint p then [ERL_SMALL_INTEGER_EXT, ucast p]
      else if sint p \<le> ERL_MAX \<and> ERL_MIN \<le> sint p then ERL_INTEGER_EXT # be32 p
      else [ERL_SMALL_BIG_EXT, 4, of_bool (sint p < 0)] @ le32 (if sint p < 0 then - p else p))"

definition ext_ulong_32 :: "u32 \<Rightarrow> bytes" where
  "ext_ulong_32 p =
     (if uint p > ERL_MAX then [ERL_SMALL_BIG_EXT, 4, 0] @ le32 p
      else if uint p < 256 then [ERL_SMALL_INTEGER_EXT, ucast p]
      else ERL_INTEGER_EXT # be32 p)"

definition ext_char :: "u8 \<Rightarrow> bytes" where
  "ext_char p = [ERL_SMALL_INTEGER_EXT, p]"

section \<open>The encoders meet their contract\<close>

lemma digits_0 [simp]: "le_digits 0 = []" "put_digits b s 0 a = Some (b, s, a)"
  by (simp_all add: le_digits.simps put_digits.simps)

lemma put_digits_eq:
  "put_digits b s up a =
     map_option (\<lambda>(b, s). (b, s, a + length (le_digits up))) (put_bytes b s (le_digits up))"
proof (induction b s up a rule: put_digits.induct)
  case (1 b s up a)
  then show ?case
    by (cases "up = 0")
      (auto simp: put_digits.simps [of b s up a] le_digits.simps [of up] put_bytes.simps(2) put8_def)
qed

lemma count_digits_eq: "count_digits s up = s + int (length (le_digits up))"
  by (induction s up rule: count_digits.induct)
    (simp add: count_digits.simps [of _ up for up] le_digits.simps [of up for up])

lemma put_small_big:
  assumes "0 \<le> i" and "i + int (length (ext_big sign up)) \<le> int (length b)"
  shows "put_small_big b i sign up
    = Some (0, Some (splice_at b i (ext_big sign up)), i + int (length (ext_big sign up)))"
proof -
  from assms obtain pre mid post where b: "b = pre @ mid @ post" and i: "i = int (length pre)"
    and "length mid = 3 + length (le_digits up)"
    using room_at [of i "3 + length (le_digits up)" b] by (auto simp: ext_big_def)
  then obtain x y z m where m: "mid = x # y # z # m" and len: "length m = length (le_digits up)"
    by (auto simp: numeral_3_eq_3 length_Suc_conv)
  show ?thesis
    unfolding ext_big_def put_small_big_def
    by (auto simp: b i m len put8_def put_digits_eq put_bytes_in Let_def splice_at_def
        list_update_append nat_add_distrib numeral_3_eq_3)
qed

lemma length_ext_big [simp]: "length (ext_big sign up) = 3 + length (le_digits up)"
  by (simp add: ext_big_def)

lemmas encode_big_simps = count_digits_eq put_small_big

interpretation enc_longlong: ei_encoder "\<lambda>buf i. ei_encode_longlong buf i p" "Some (ext_longlong p)"
  for p
  by unfold_locales
    (auto simp: ei_encode_longlong_def ext_longlong_def encode_big_simps buf_simps)

interpretation enc_ulonglong: ei_encoder "\<lambda>buf i. ei_encode_ulonglong buf i p" "Some (ext_ulonglong p)"
  for p
  by unfold_locales
    (auto simp: ei_encode_ulonglong_def ext_ulonglong_def encode_big_simps buf_simps)

interpretation enc_long_32: ei_encoder "\<lambda>buf i. ei_encode_long_32 buf i p" "Some (ext_long_32 p)"
  for p
  by unfold_locales (auto simp: ei_encode_long_32_def ext_long_32_def buf_simps)

interpretation enc_ulong_32: ei_encoder "\<lambda>buf i. ei_encode_ulong_32 buf i p" "Some (ext_ulong_32 p)"
  for p
  by unfold_locales (auto simp: ei_encode_ulong_32_def ext_ulong_32_def buf_simps)

interpretation enc_char: ei_encoder "\<lambda>buf i. ei_encode_char buf i p" "Some (ext_char p)"
  for p
  by unfold_locales (auto simp: ei_encode_char_def ext_char_def buf_simps)

section \<open>What the decoders return\<close>

text \<open>
  The digit loop computes the value of the digits exactly when it fits into the word; otherwise
  it meets a non-zero byte past the limit.
\<close>

lemma get_digits_sees:
  fixes u :: "'a::len word"
  assumes "8 * lim = LENGTH('a)" and "sees b s ds" and "unat u < 2 ^ (8 * min i lim)"
  shows "(if unat u + 2 ^ (8 * i) * le_val ds < 2 ^ (8 * lim)
          then get_digits lim b s (length ds) i u
            = Some (Done (of_nat (unat u + 2 ^ (8 * i) * le_val ds)), s + int (length ds))
          else \<exists>s'. get_digits lim b s (length ds) i u = Some (Fail, s'))"
  using assms(2,3)
proof (induction ds arbitrary: s i u)
  case Nil
  have "unat u < 2 ^ (8 * lim)" using assms(1) by (metis unsigned_less)
  then show ?case by simp
next
  case (Cons x ds)
  from Cons.prems have x: "get8 b s = Some (x, s + 1)" and ds: "sees b (s + 1) ds"
    by (simp_all add: sees_simps)
  have pow: "2 ^ (8 * Suc i) * le_val ds = 2 ^ (8 * i) * (256 * le_val ds)"
    by (simp add: power_add)
  show ?case
  proof (cases "i < lim")
    case True
    let ?u = "u OR push_bit (i * 8) (ucast x)"
    have "unat u < 2 ^ (i * 8)" and "i * 8 + 8 \<le> LENGTH('a)"
      using True Cons.prems assms(1) by (simp_all add: min_def mult.commute)
    then have u: "unat ?u = unat u + 2 ^ (8 * i) * unat x"
      by (simp add: unat_or_digit mult.commute [of i])
    have "unat x < 256" using unsigned_less [of x] by simp
    then have "2 ^ (8 * i) * (unat x + 1) \<le> 2 ^ (8 * i) * (256 :: nat)"
      by (intro mult_le_mono2) simp
    moreover have "unat u < 2 ^ (8 * i)" using True Cons.prems by (simp add: min_def)
    ultimately have "unat u + 2 ^ (8 * i) * unat x < 2 ^ (8 * i) * 256"
      by (simp only: distrib_left mult_1_right)
    then have "unat ?u < 2 ^ (8 * min (Suc i) lim)"
      using u True by (simp add: min_def power_add)
    note IH = Cons.IH [OF ds this]
    have "unat ?u + 2 ^ (8 * Suc i) * le_val ds = unat u + 2 ^ (8 * i) * le_val (x # ds)"
      unfolding u pow by (simp add: distrib_left)
    moreover have "get_digits lim b (s + 1) (length ds) (Suc i) ?u
        = get_digits lim b s (length (x # ds)) i u"
      using True x by simp
    moreover have "s + 1 + int (length ds) = s + int (length (x # ds))" by simp
    ultimately show ?thesis using IH by (simp only:)
  next
    case False
    then have lim: "(2 :: nat) ^ (8 * lim) \<le> 2 ^ (8 * i)" by (simp add: power_increasing)
    show ?thesis
    proof (cases "x = 0")
      case True
      have "min (Suc i) lim = lim" and "min i lim = lim" using False by auto
      with Cons.prems have "unat u < 2 ^ (8 * min (Suc i) lim)" by simp
      from Cons.IH [OF ds this] True False x show ?thesis
        unfolding pow by (simp split: if_splits)
    next
      case nz: False
      then have "1 \<le> unat x + 256 * le_val ds" by (simp add: unat_gt_0 Suc_le_eq)
      then have "(2 :: nat) ^ (8 * i) * 1 \<le> 2 ^ (8 * i) * (unat x + 256 * le_val ds)"
        by (rule mult_le_mono2)
      with lim have "\<not> unat u + 2 ^ (8 * i) * le_val (x # ds) < 2 ^ (8 * lim)"
        unfolding le_val.simps by linarith
      with False nz x show ?thesis by simp
    qed
  qed
qed

text \<open>The signed value a sign byte and a digit string stand for.\<close>

definition big_val :: "u8 \<Rightarrow> bytes \<Rightarrow> int" where
  "big_val sign ds = (if sign \<noteq> 0 then - int (le_val ds) else int (le_val ds))"

lemma get_digits_all:
  fixes ds :: bytes
  assumes "8 * lim = LENGTH('a::len)" and "sees b s ds"
  shows "if le_val ds < 2 ^ (8 * lim)
     then get_digits lim b s (length ds) 0 (0 :: 'a word)
       = Some (Done (of_nat (le_val ds)), s + int (length ds))
     else \<exists>s'. get_digits lim b s (length ds) 0 (0 :: 'a word) = Some (Fail, s')"
  using get_digits_sees [OF assms, of 0 0] by simp

lemma decode_big_signed_sees:
  assumes lim: "8 * lim = LENGTH('a::len)" and "sees b s (sign # ds)"
  shows "(decode_big_signed lim b i s (int (length ds)) :: 'a word dec_res)
    = (let v = big_val sign ds in
       if - (2 ^ (8 * lim - 1)) \<le> v \<and> v < 2 ^ (8 * lim - 1)
       then Some (Done (word_of_int v), s + 1 + int (length ds)) else Some (Fail, i))"
proof -
  from assms(2) have sg: "get8 b s = Some (sign, s + 1)" and ds: "sees b (s + 1) ds"
    by (simp_all add: sees_simps)
  define H :: int where "H = 2 ^ (8 * lim - 1)"
  have H: "0 < H" by (simp add: H_def)
  have pow: "(2 :: int) ^ (8 * lim) = 2 * H"
    unfolding H_def using lim by (metis One_nat_def Suc_pred len_gt_0 power_Suc)
  note d = get_digits_all [OF lim ds]
  show ?thesis
  proof (cases "le_val ds < 2 ^ (8 * lim)")
    case True
    with d have g: "get_digits lim b (s + 1) (length ds) 0 (0 :: 'a word)
        = Some (Done (of_nat (le_val ds)), s + 1 + int (length ds))" by simp
    have "uint (of_nat (le_val ds) :: 'a word) = int (le_val ds)"
      using True lim by (simp add: uint_nat unat_of_nat)
    with g sg H show ?thesis
      unfolding decode_big_signed_def big_val_def H_def [symmetric] by (auto simp: Let_def)
  next
    case False
    with d obtain s' where g: "get_digits lim b (s + 1) (length ds) 0 (0 :: 'a word) = Some (Fail, s')"
      by auto
    from False have "(2 :: int) ^ (8 * lim) \<le> int (le_val ds)"
      by (metis of_nat_le_iff not_less of_nat_power of_nat_numeral)
    with H have "\<not> (- H \<le> big_val sign ds \<and> big_val sign ds < H)"
      unfolding pow big_val_def by (auto split: if_splits)
    with g sg show ?thesis
      unfolding decode_big_signed_def H_def [symmetric] by (simp add: Let_def)
  qed
qed

lemma decode_big_unsigned_sees:
  assumes lim: "8 * lim = LENGTH('a::len)" and "sees b s (sign # ds)"
  shows "(decode_big_unsigned lim b i s (int (length ds)) :: 'a word dec_res)
    = (if sign = 0 \<and> le_val ds < 2 ^ (8 * lim)
       then Some (Done (of_nat (le_val ds)), s + 1 + int (length ds)) else Some (Fail, i))"
  using get_digits_all [OF lim, of b "s + 1" ds] assms(2)
  by (auto simp: decode_big_unsigned_def sees_simps split: if_splits)

section \<open>Round trips\<close>

lemma unat_split_8: "unat up = unat (ucast up :: u8) + 256 * unat (drop_bit 8 up)" for up :: u64
proof -
  have "unat (ucast up :: u8) = unat up mod 256"
    by (simp add: unsigned_ucast_eq take_bit_eq_mod)
  moreover have "unat (drop_bit 8 up) = unat up div 256"
    by (simp add: drop_bit_eq_div unat_div)
  ultimately show ?thesis by simp
qed

lemma le_val_le_digits [simp]: "le_val (le_digits up) = unat up"
proof (induction up rule: le_digits.induct)
  case (1 up)
  then show ?case
    using unat_split_8 [of up] by (cases "up = 0") (simp_all add: le_digits.simps [of up])
qed

lemma length_le_digits: "unat up < 256 ^ k \<Longrightarrow> length (le_digits up) \<le> k"
proof (induction up arbitrary: k rule: le_digits.induct)
  case (1 up)
  show ?case
  proof (cases "up = 0")
    case False
    then obtain m where k: "k = Suc m" using "1.prems" by (cases k) (auto simp: unat_eq_0)
    have "unat (drop_bit 8 up) < 256 ^ m" using "1.prems" unat_split_8 [of up] by (simp add: k)
    with 1 False show ?thesis by (simp add: le_digits.simps [of up] k)
  qed simp
qed

lemma length_le_digits_ge: "256 ^ k \<le> unat up \<Longrightarrow> k < length (le_digits up)"
proof (induction up arbitrary: k rule: le_digits.induct)
  case (1 up)
  from "1.prems" have "up \<noteq> 0" by (metis not_le unsigned_0 zero_less_numeral zero_less_power)
  then show ?case
  proof (cases k)
    case (Suc m)
    have "unat (ucast up :: u8) < 256" using unsigned_less [of "ucast up :: u8"] by simp
    then have "256 ^ m \<le> unat (drop_bit 8 up)"
      using "1.prems" unat_split_8 [of up] by (simp add: Suc)
    with 1 \<open>up \<noteq> 0\<close> show ?thesis by (simp add: le_digits.simps [of up] Suc)
  qed (simp add: le_digits.simps [of up])
qed

lemma length_le_digits_8: "length (le_digits up) \<le> 8"
  using unsigned_less [of up] by (intro length_le_digits) simp

lemma le_digits_bounds:
  assumes "le_digits up \<noteq> []"
  shows "256 ^ (length (le_digits up) - 1) \<le> int (unat up) \<and> int (unat up) < 256 ^ length (le_digits up)"
proof -
  have "0 < length (le_digits up)" using assms by simp
  then have "256 ^ (length (le_digits up) - 1) \<le> unat up" "unat up < 256 ^ length (le_digits up)"
    using length_le_digits [of up "length (le_digits up) - 1"] length_le_digits_ge [of "length (le_digits up)" up]
    by linarith+
  then have "int (256 ^ (length (le_digits up) - 1)) \<le> int (unat up)" "int (unat up) < int (256 ^ length (le_digits up))"
    by (simp_all only: of_nat_le_iff of_nat_less_iff)
  then show ?thesis by simp
qed

lemma u64_u8_u64: "0 \<le> sint p \<Longrightarrow> sint p < 256 \<Longrightarrow> ucast (ucast p :: u8) = p" for p :: u64
  by (intro ucast_u8_id) (simp add: uint_of_sint)

lemma u64_u32_u64: "- (2 ^ 31) \<le> sint p \<Longrightarrow> sint p < 2 ^ 31 \<Longrightarrow> scast (ucast p :: u32) = p" for p :: u64
proof -
  assume a: "- (2 ^ 31) \<le> sint p" "sint p < 2 ^ 31"
  define v where "v = sint p"
  have p: "p = word_of_int v" by (simp add: v_def)
  have "ucast (word_of_int v :: u64) = (word_of_int v :: u32)"
    by (auto intro!: bit_word_eqI simp: bit_simps)
  then show ?thesis
    using a unfolding v_def [symmetric] by (simp add: p signed_of_int signed_take_bit_int_eq_self)
qed

text \<open>A big integer written by \<open>put_small_big\<close> is read back as the number it stands for.\<close>

lemma sees_ext_big:
  assumes "sees b i (ext_big sign up)"
  shows "get8 b i = Some (ERL_SMALL_BIG_EXT, i + 1)"
    and "get8 b (i + 1) = Some (of_nat (length (le_digits up)), i + 2)"
    and "sees b (i + 2) (sign # le_digits up)"
    and "uint (of_nat (length (le_digits up)) :: u8) = int (length (le_digits up))"
proof -
  have "length (le_digits up) < 256" using length_le_digits_8 [of up] by simp
  then show "uint (of_nat (length (le_digits up)) :: u8) = int (length (le_digits up))"
    by (simp add: unsigned_of_nat take_bit_nat_eq_self)
qed (use assms in \<open>simp_all add: ext_big_def sees_simps ac_simps\<close>)

interpretation codec_longlong:
  ei_codec "\<lambda>buf i. ei_encode_longlong buf i p" ei_decode_longlong "ext_longlong p" p for p
proof unfold_locales
  fix b i assume s: "sees b i (ext_longlong p)"
  consider (small) "sint p < 256" "0 \<le> sint p"
    | (int) "\<not> (sint p < 256 \<and> 0 \<le> sint p)" "sint p \<le> ERL_MAX" "ERL_MIN \<le> sint p"
    | (big) "\<not> (sint p < 256 \<and> 0 \<le> sint p)" "\<not> (sint p \<le> ERL_MAX \<and> ERL_MIN \<le> sint p)"
    by blast
  then show "ei_decode_longlong b i = Some (Done p, i + int (length (ext_longlong p)))"
  proof cases
    case small
    with s show ?thesis
      by (simp add: ei_decode_longlong_def ext_longlong_def sees_simps u64_u8_u64)
  next
    case int
    with s show ?thesis
      by (auto simp: ei_decode_longlong_def ext_longlong_def sees_simps u64_u32_u64
          dest!: sees_getters)
  next
    case big
    let ?up = "if sint p < 0 then - p else p"
    from s big have s': "sees b i (ext_big (of_bool (sint p < 0)) ?up)"
      by (simp add: ext_longlong_def)
    have v: "big_val (of_bool (sint p < 0)) (le_digits ?up) = sint p"
      by (simp add: big_val_def uint_of_sint)
    have "- (2 ^ 63) \<le> sint p" and "sint p < 2 ^ 63"
      using sint_ge [of p] sint_lt [of p] by simp_all
    then show ?thesis
      using sees_ext_big [OF s'] big
      by (auto simp: ei_decode_longlong_def decode_big_signed_sees v Let_def ext_longlong_def)
  qed
qed

interpretation codec_ulonglong:
  ei_codec "\<lambda>buf i. ei_encode_ulonglong buf i p" ei_decode_ulonglong "ext_ulonglong p" p for p
proof unfold_locales
  fix b i assume s: "sees b i (ext_ulonglong p)"
  consider (small) "uint p < 256"
    | (int) "\<not> uint p < 256" "uint p \<le> ERL_MAX" | (big) "\<not> uint p \<le> ERL_MAX" "\<not> uint p < 256"
    by linarith
  then show "ei_decode_ulonglong b i = Some (Done p, i + int (length (ext_ulonglong p)))"
  proof cases
    case small
    then have "ucast (ucast p :: u8) = p" by (rule ucast_u8_id)
    with s small show ?thesis
      by (simp add: ei_decode_ulonglong_def ext_ulonglong_def sees_simps)
  next
    case int
    have "sint (ucast p :: u32) = uint p" using int
      by (simp add: sint_uint unsigned_ucast_eq take_bit_int_eq_self signed_take_bit_int_eq_self)
    then have "\<not> sint (ucast p :: u32) < 0" by simp
    moreover have "sint p = uint p"
      using int by (simp add: sint_uint signed_take_bit_int_eq_self)
    then have "scast (ucast p :: u32) = p" using int by (intro u64_u32_u64) simp_all
    ultimately show ?thesis using s int
      by (auto simp: ei_decode_ulonglong_def ext_ulonglong_def sees_simps dest!: sees_getters)
  next
    case big
    with s have s': "sees b i (ext_big 0 p)" by (simp add: ext_ulonglong_def)
    have "unat p < 2 ^ 64" using unsigned_less [of p] by simp
    then show ?thesis
      using sees_ext_big [OF s'] big
      by (auto simp: ei_decode_ulonglong_def decode_big_unsigned_sees ext_ulonglong_def)
  qed
qed

lemma nat_digits_4:
  fixes n :: nat
  assumes "n < 4294967296"
  shows "n mod 256 + 256 * (n div 256 mod 256 + 256 * (n div 65536 mod 256
      + 256 * (n div 16777216 mod 256))) = n"
proof -
  have "n div 65536 = n div 256 div 256" and "n div 16777216 = n div 256 div 256 div 256"
    by (simp_all add: div_mult2_eq [symmetric])
  moreover have "n div 256 div 256 div 256 < 256" using assms by simp
  ultimately show ?thesis
    using mult_div_mod_eq [of 256 n] mult_div_mod_eq [of 256 "n div 256"]
      mult_div_mod_eq [of 256 "n div 256 div 256"]
    by simp
qed

lemma le_val_le32: "le_val (le32 q) = unat q" for q :: u32
proof -
  have byte: "unat (ucast (drop_bit k q) :: u8) = unat q div 2 ^ k mod 256" for k
    unfolding unsigned_ucast_eq unat_drop_bit_eq take_bit_eq_mod drop_bit_eq_div [where 'a = nat]
    by simp
  have "unat q < 4294967296" using unsigned_less [of q] by simp
  from nat_digits_4 [OF this] show ?thesis
    using byte [of 0] byte [of 8] byte [of 16] byte [of 24]
    by (simp add: le32_def be32_def)
qed

interpretation codec_long_32:
  ei_codec "\<lambda>buf i. ei_encode_long_32 buf i p" ei_decode_long_32 "ext_long_32 p" p for p
proof unfold_locales
  fix b i assume s: "sees b i (ext_long_32 p)"
  consider (small) "sint p < 256" "0 \<le> sint p"
    | (int) "\<not> (sint p < 256 \<and> 0 \<le> sint p)" "sint p \<le> ERL_MAX" "ERL_MIN \<le> sint p"
    | (big) "\<not> (sint p < 256 \<and> 0 \<le> sint p)" "\<not> (sint p \<le> ERL_MAX \<and> ERL_MIN \<le> sint p)"
    by blast
  then show "ei_decode_long_32 b i = Some (Done p, i + int (length (ext_long_32 p)))"
  proof cases
    case small
    then have "ucast (ucast p :: u8) = p" by (intro ucast_u8_id) (simp add: uint_of_sint)
    with s small show ?thesis
      by (simp add: ei_decode_long_32_def ext_long_32_def sees_simps)
  next
    case int
    with s show ?thesis
      by (auto simp: ei_decode_long_32_def ext_long_32_def sees_simps dest!: sees_getters)
  next
    case big
    let ?up = "if sint p < 0 then - p else p"
    from s big have "sees b i ([ERL_SMALL_BIG_EXT, 4, of_bool (sint p < 0)] @ le32 ?up)"
      by (simp add: ext_long_32_def)
    then have "sees b (i + 2) (of_bool (sint p < 0) # le32 ?up)"
      and "get8 b i = Some (ERL_SMALL_BIG_EXT, i + 1)" and "get8 b (i + 1) = Some (4, i + 2)"
      by (simp_all add: sees_simps ac_simps)
    moreover have "big_val (of_bool (sint p < 0)) (le32 ?up) = sint p"
      by (simp add: big_val_def le_val_le32 uint_of_sint)
    moreover have "- (2 ^ 31) \<le> sint p" and "sint p < 2 ^ 31"
      using sint_ge [of p] sint_lt [of p] by simp_all
    ultimately show ?thesis
      using decode_big_signed_sees [of 4 b "i + 2" "of_bool (sint p < 0)" "le32 ?up" i, where 'a = 32] big
      by (auto simp: ei_decode_long_32_def Let_def ext_long_32_def)
  qed
qed

interpretation codec_ulong_32:
  ei_codec "\<lambda>buf i. ei_encode_ulong_32 buf i p" ei_decode_ulong_32 "ext_ulong_32 p" p for p
proof unfold_locales
  fix b i assume s: "sees b i (ext_ulong_32 p)"
  consider (small) "uint p < 256"
    | (int) "\<not> uint p < 256" "uint p \<le> ERL_MAX" | (big) "uint p > ERL_MAX" "\<not> uint p < 256"
    by linarith
  then show "ei_decode_ulong_32 b i = Some (Done p, i + int (length (ext_ulong_32 p)))"
  proof cases
    case small
    then have "ucast (ucast p :: u8) = p" by (rule ucast_u8_id)
    with s small show ?thesis
      by (simp add: ei_decode_ulong_32_def ext_ulong_32_def sees_simps)
  next
    case int
    then have "\<not> sint p < 0"
      by (simp add: sint_uint signed_take_bit_int_eq_self)
    with s int show ?thesis
      by (auto simp: ei_decode_ulong_32_def ext_ulong_32_def sees_simps dest!: sees_getters)
  next
    case big
    with s have "sees b (i + 2) (0 # le32 p)"
      and "get8 b i = Some (ERL_SMALL_BIG_EXT, i + 1)" and "get8 b (i + 1) = Some (4, i + 2)"
      by (simp_all add: ext_ulong_32_def sees_simps ac_simps)
    moreover have "unat p < 2 ^ 32" using unsigned_less [of p] by simp
    ultimately show ?thesis
      using decode_big_unsigned_sees [of 4 b "i + 2" 0 "le32 p" i, where 'a = 32] big
      by (auto simp: ei_decode_ulong_32_def ext_ulong_32_def le_val_le32)
  qed
qed

interpretation codec_char:
  ei_codec "\<lambda>buf i. ei_encode_char buf i p" ei_decode_char "ext_char p" p for p
  by unfold_locales (simp add: ei_decode_char_def ext_char_def sees_simps)

section \<open>Properties\<close>

text \<open>
  C12. Every 64-bit \<open>long\<close> survives the trip: in a buffer with the room the sizing pass asked for,
  \<open>ei_encode_long\<close> writes inside that room only, and \<open>ei_decode_long\<close> at the same index returns
  the number and the index after it.
\<close>

theorem ei_long_round_trip:
  assumes "ei_encode_long None i p = Some (0, None, j)" and "0 \<le> i" and "j \<le> int (length b)"
  shows "\<exists>b'. ei_encode_long (Some b) i p = Some (0, Some b', j)
    \<and> ei_decode_long b' i = Some (Done p, j) \<and> length b' = length b
    \<and> take (nat i) b' = take (nat i) b \<and> drop (nat j) b' = drop (nat j) b"
  using assms unfolding ei_encode_long_def ei_decode_long_def by (rule codec_longlong.round_trip)

theorem ei_long_round_trip_witness:
  "\<exists>b'. ei_encode_long (Some (replicate 16 0)) 0 (- 300000000) = Some (0, Some b', 7)
    \<and> ei_decode_long b' 0 = Some (Done (- 300000000), 7) \<and> length b' = 16
    \<and> drop 7 b' = replicate 9 0"
proof -
  have "ei_encode_long None 0 (- 300000000) = Some (0, None, 7)"
    by (simp add: ei_encode_long_def ei_encode_longlong_def count_digits.simps drop_bit_eq_div)
  from ei_long_round_trip [OF this, of "replicate 16 0"] show ?thesis by auto
qed

text \<open>
  C13. \<open>ei_decode_longlong\<close> accepts a big integer, small or large form, with any number of digit
  bytes, exactly when its value fits a signed 64-bit number, and then returns that value; otherwise
  it returns \<open>-1\<close> and leaves the index.
\<close>

theorem ei_decode_longlong_exact:
  assumes "hdr = [ERL_SMALL_BIG_EXT, of_nat (length ds)] \<and> length ds < 2 ^ 8
      \<or> hdr = ERL_LARGE_BIG_EXT # be32 (of_nat (length ds) :: u32) \<and> length ds < 2 ^ 31"
    and "sees b i (hdr @ sign # ds)"
  shows "ei_decode_longlong b i =
     (if - (2 ^ 63) \<le> big_val sign ds \<and> big_val sign ds < 2 ^ 63
      then Some (Done (word_of_int (big_val sign ds)), i + int (length (hdr @ sign # ds)))
      else Some (Fail, i))"
  using assms(1)
proof (elim disjE conjE)
  assume hdr: "hdr = [ERL_SMALL_BIG_EXT, of_nat (length ds)]" and "length ds < 2 ^ 8"
  then have "uint (of_nat (length ds) :: u8) = int (length ds)"
    by (simp add: unsigned_of_nat take_bit_nat_eq_self)
  moreover from assms(2) hdr have "sees b (i + 2) (sign # ds)"
    and "get8 b i = Some (ERL_SMALL_BIG_EXT, i + 1)"
    and "get8 b (i + 1) = Some (of_nat (length ds), i + 2)"
    by (simp_all add: sees_simps ac_simps)
  ultimately show ?thesis
    using decode_big_signed_sees [of 8 b "i + 2" sign ds i, where 'a = 64]
    by (auto simp: ei_decode_longlong_def Let_def hdr)
next
  assume hdr: "hdr = ERL_LARGE_BIG_EXT # be32 (of_nat (length ds) :: u32)" and "length ds < 2 ^ 31"
  then have "sint (of_nat (length ds) :: u32) = int (length ds)"
    by (simp add: signed_of_nat signed_take_bit_int_eq_self)
  moreover from assms(2) hdr have "sees b (i + 5) (sign # ds)"
    and "get8 b i = Some (ERL_LARGE_BIG_EXT, i + 1)"
    and "sees b (i + 1) (be32 (of_nat (length ds) :: u32))"
    by (simp_all add: sees_simps ac_simps)
  moreover from get32be_sees [OF this(3)] have "get32be b (i + 1) = Some (of_nat (length ds), i + 5)"
    by (simp add: add.commute)
  ultimately show ?thesis
    using decode_big_signed_sees [of 8 b "i + 5" sign ds i, where 'a = 64]
    by (auto simp: ei_decode_longlong_def Let_def hdr)
qed

theorem ei_decode_longlong_exact_witness:
  "ei_decode_longlong [ERL_SMALL_BIG_EXT, 9, 1, 5, 0, 0, 0, 0, 0, 0, 0, 0] 0 = Some (Done (- 5), 12)
   \<and> ei_decode_longlong [ERL_SMALL_BIG_EXT, 9, 1, 5, 0, 0, 0, 0, 0, 0, 0, 1] 0 = Some (Fail, 0)"
  using ei_decode_longlong_exact
      [of "[ERL_SMALL_BIG_EXT, 9]" "[5, 0, 0, 0, 0, 0, 0, 0, 0]"
          "[ERL_SMALL_BIG_EXT, 9, 1, 5, 0, 0, 0, 0, 0, 0, 0, 0]" 0 1]
    ei_decode_longlong_exact
      [of "[ERL_SMALL_BIG_EXT, 9]" "[5, 0, 0, 0, 0, 0, 0, 0, 1]"
          "[ERL_SMALL_BIG_EXT, 9, 1, 5, 0, 0, 0, 0, 0, 0, 0, 1]" 0 1]
  by (simp add: sees_def big_val_def)

text \<open>
  The bytes the sizing pass asks for: two for a byte, five for a number of 28 bits, and for any other
  number three and as many as its magnitude has digits to the base 256, which are four to eight.
\<close>

theorem ei_encode_longlong_size:
  "\<exists>n. ei_encode_longlong None i p = Some (0, None, i + n)
     \<and> (if 0 \<le> sint p \<and> sint p < 256 then n = 2
        else if ERL_MIN \<le> sint p \<and> sint p \<le> ERL_MAX then n = 5
        else \<exists>d. n = 3 + int d \<and> 4 \<le> d \<and> d \<le> 8 \<and> 256 ^ (d - 1) \<le> \<bar>sint p\<bar> \<and> \<bar>sint p\<bar> < 256 ^ d)"
proof -
  let ?up = "if sint p < 0 then - p else p" and ?big = "\<not> (0 \<le> sint p \<and> sint p < 256) \<and> \<not> (ERL_MIN \<le> sint p \<and> sint p \<le> ERL_MAX)"
  define d where "d = length (le_digits ?up)"
  have v: "int (unat ?up) = \<bar>sint p\<bar>" using uint_of_sint [of p] by (auto simp flip: uint_nat)
  have ext: "int (length (ext_longlong p)) = 3 + int d" if ?big using that by (auto simp: ext_longlong_def d_def)
  have "4 \<le> d" if ?big
  proof -
    have "256 ^ 3 \<le> \<bar>sint p\<bar>" using that by (cases "sint p < 0") simp_all
    then have "int (256 ^ 3) \<le> int (unat ?up)" unfolding v by simp
    then have "256 ^ 3 \<le> unat ?up" by (simp only: of_nat_le_iff)
    from length_le_digits_ge [OF this] show ?thesis by (simp add: d_def)
  qed
  moreover have "d \<le> 8" using length_le_digits_8 [of ?up] by (simp add: d_def)
  moreover have "256 ^ (d - 1) \<le> \<bar>sint p\<bar>" "\<bar>sint p\<bar> < 256 ^ d" if "4 \<le> d"
  proof -
    have "le_digits ?up \<noteq> []" using that by (auto simp: d_def)
    from le_digits_bounds [OF this] show "256 ^ (d - 1) \<le> \<bar>sint p\<bar>" "\<bar>sint p\<bar> < 256 ^ d" unfolding v d_def by simp_all
  qed
  ultimately have "4 \<le> d \<and> d \<le> 8 \<and> 256 ^ (d - 1) \<le> \<bar>sint p\<bar> \<and> \<bar>sint p\<bar> < 256 ^ d" if ?big using that by blast
  with ext have "\<exists>d. int (length (ext_longlong p)) = 3 + int d \<and> 4 \<le> d \<and> d \<le> 8 \<and> 256 ^ (d - 1) \<le> \<bar>sint p\<bar> \<and> \<bar>sint p\<bar> < 256 ^ d"
    if ?big using that by blast
  then show ?thesis
    using enc_longlong.size_pass [OF refl, of i p] by (auto simp: ext_longlong_def)
qed

end
