(* ===== verification/Ei_Atom.thy ===== *)
theory Ei_Atom
  imports Ei_Buffer
begin

text \<open>
  Atoms and booleans of \<open>ei\<close>: \<open>encode_atom.c\<close>, \<open>decode_atom.c\<close>, \<open>encode_boolean.c\<close>,
  \<open>decode_boolean.c\<close>.  An atom is sent as UTF-8; the caller gives and wants its name in Latin-1,
  UTF-8 or ASCII.  The converters read from a memory at a position; what they return beside the
  C return value is the sequence of bytes they stored at their destination and the encoding they
  reported.
\<close>

section \<open>Encodings and limits\<close>

abbreviation ERLANG_ASCII :: u32 where "ERLANG_ASCII \<equiv> 1"
abbreviation ERLANG_LATIN1 :: u32 where "ERLANG_LATIN1 \<equiv> 2"
abbreviation ERLANG_UTF8 :: u32 where "ERLANG_UTF8 \<equiv> 4"
abbreviation MAXATOMLEN :: int where "MAXATOMLEN \<equiv> 256"
abbreviation MAXATOMLEN_UTF8 :: int where "MAXATOMLEN_UTF8 \<equiv> 1021"

section \<open>Converters\<close>

text \<open>
  \<open>ascii_fast_track\<close> copies whole words as long as none of their bytes has the top bit.  The
  load of a word is \<^const>\<open>get64be\<close>: the byte order does not matter, since the mask is the same
  in each byte.  The result is the list of copied bytes.
\<close>

abbreviation ASCII_CHECK_MASK :: u64 where "ASCII_CHECK_MASK \<equiv> 0x8080808080808080"

function ascii_words :: "bytes \<Rightarrow> int \<Rightarrow> int \<Rightarrow> bytes \<Rightarrow> bytes option" where
  "ascii_words mem src src_end out =
     (if src < src_end then do {
        (w, _) \<leftarrow> get64be mem src;
        (if w AND ASCII_CHECK_MASK \<noteq> 0 then Some out
         else ascii_words mem (src + 8) src_end (out @ be64 w)) }
      else Some out)"
  by pat_completeness auto
termination
  by (relation "measure (\<lambda>(mem, src, src_end, out). nat (src_end - src))") auto

declare ascii_words.simps [simp del]

definition ascii_fast_track :: "bytes \<Rightarrow> int \<Rightarrow> int \<Rightarrow> int \<Rightarrow> bytes option" where
  "ascii_fast_track mem src slen destlen =
     (if destlen < slen then Some [] else ascii_words mem src (src + slen div 8 * 8) [])"

function utf8_to_latin1_loop ::
  "bytes \<Rightarrow> int \<Rightarrow> int \<Rightarrow> int \<Rightarrow> bytes \<Rightarrow> bool \<Rightarrow> (int \<times> bytes \<times> u32) option" where
  "utf8_to_latin1_loop mem src slen destlen out found_non_ascii =
     (if 0 < slen then
        if destlen \<le> int (length out) then Some (-1, out, 0)
        else do {
          (c0, _) \<leftarrow> get8 mem src;
          (if c0 AND 0x80 = 0 then
             utf8_to_latin1_loop mem (src + 1) (slen - 1) destlen (out @ [c0]) found_non_ascii
           else if 1 < slen \<and> c0 AND 0xFE = 0xC2 then do {
             (c1, _) \<leftarrow> get8 mem (src + 1);
             (if c1 AND 0xC0 = 0x80 then
                utf8_to_latin1_loop mem (src + 2) (slen - 2) destlen
                  (out @ [push_bit 6 c0 OR (c1 AND 0x3F)]) True
              else Some (-1, out, 0)) }
           else Some (-1, out, 0)) }
      else Some (int (length out), out, if found_non_ascii then ERLANG_LATIN1 else ERLANG_ASCII))"
  by pat_completeness auto
termination
  by (relation "measure (\<lambda>(mem, src, slen, destlen, out, f). nat slen)") auto

function latin1_to_utf8_loop ::
  "bytes \<Rightarrow> int \<Rightarrow> int \<Rightarrow> int \<Rightarrow> bytes \<Rightarrow> bool \<Rightarrow> (int \<times> bytes \<times> u32) option" where
  "latin1_to_utf8_loop mem src src_end destlen out found_non_ascii =
     (if src < src_end then
        if destlen \<le> int (length out) then Some (-1, out, 0)
        else do {
          (ch, _) \<leftarrow> get8 mem src;
          (if ch AND 0x80 = 0 then
             latin1_to_utf8_loop mem (src + 1) src_end destlen (out @ [ch]) found_non_ascii
           else
             latin1_to_utf8_loop mem (src + 1) src_end destlen
               (out @ [0xC0 OR drop_bit 6 ch, 0x80 OR (ch AND 0x3F)]) True) }
      else Some (int (length out), out, if found_non_ascii then ERLANG_UTF8 else ERLANG_ASCII))"
  by pat_completeness auto
termination
  by (relation "measure (\<lambda>(mem, src, src_end, destlen, out, f). nat (src_end - src))") auto

declare utf8_to_latin1_loop.simps [simp del] latin1_to_utf8_loop.simps [simp del]

text \<open>
  The two converters as they are compiled with \<open>HAVE_UNALIGNED_WORD_ACCESS\<close>; without it they
  are the loops alone, from the start of the string.
\<close>

definition utf8_to_latin1 :: "bytes \<Rightarrow> int \<Rightarrow> int \<Rightarrow> int \<Rightarrow> (int \<times> bytes \<times> u32) option" where
  "utf8_to_latin1 mem src slen destlen = do {
     aft \<leftarrow> ascii_fast_track mem src slen destlen;
     utf8_to_latin1_loop mem (src + int (length aft)) (slen - int (length aft)) destlen aft False }"

definition latin1_to_utf8 :: "bytes \<Rightarrow> int \<Rightarrow> int \<Rightarrow> int \<Rightarrow> (int \<times> bytes \<times> u32) option" where
  "latin1_to_utf8 mem src slen destlen = do {
     aft \<leftarrow> ascii_fast_track mem src slen destlen;
     latin1_to_utf8_loop mem (src + int (length aft)) (src + slen) destlen aft False }"

definition utf8_to_latin1_aligned :: "bytes \<Rightarrow> int \<Rightarrow> int \<Rightarrow> int \<Rightarrow> (int \<times> bytes \<times> u32) option" where
  "utf8_to_latin1_aligned mem src slen destlen = utf8_to_latin1_loop mem src slen destlen [] False"

definition latin1_to_utf8_aligned :: "bytes \<Rightarrow> int \<Rightarrow> int \<Rightarrow> int \<Rightarrow> (int \<times> bytes \<times> u32) option" where
  "latin1_to_utf8_aligned mem src slen destlen =
     latin1_to_utf8_loop mem src (src + slen) destlen [] False"

section \<open>Encoders\<close>

function verify_ascii_atom :: "bytes \<Rightarrow> int \<Rightarrow> int \<Rightarrow> int option" where
  "verify_ascii_atom mem src slen =
     (if 0 < slen then do {
        (c, _) \<leftarrow> get8 mem src;
        (if c AND 0x80 \<noteq> 0 then Some (-1) else verify_ascii_atom mem (src + 1) (slen - 1)) }
      else Some 0)"
  by pat_completeness auto
termination
  by (relation "measure (\<lambda>(mem, src, slen). nat slen)") auto

text \<open>The conditions \<open>(src[1] & 0xC0) == 0x80\<close> and so on, evaluated from left to right.\<close>

fun continuation_bytes :: "bytes \<Rightarrow> int \<Rightarrow> nat \<Rightarrow> bool option" where
  "continuation_bytes mem src 0 = Some True"
| "continuation_bytes mem src (Suc n) = do {
     (c, _) \<leftarrow> get8 mem src;
     (if c AND 0xC0 \<noteq> 0x80 then Some False else continuation_bytes mem (src + 1) n) }"

function verify_utf8_atom :: "bytes \<Rightarrow> int \<Rightarrow> int \<Rightarrow> int \<Rightarrow> int option" where
  "verify_utf8_atom mem src slen num_chars =
     (if 0 < slen then
        if MAXATOMLEN \<le> num_chars + 1 then Some (-1)
        else do {
          (c0, _) \<leftarrow> get8 mem src;
          (if c0 AND 0x80 \<noteq> 0 then
             if c0 AND 0xE0 = 0xC0 then
               if slen < 2 then Some (-1)
               else do {
                 ok \<leftarrow> continuation_bytes mem (src + 1) 1;
                 (if ok then verify_utf8_atom mem (src + 2) (slen - 2) (num_chars + 1)
                  else Some (-1)) }
             else if c0 AND 0xF0 = 0xE0 then
               if slen < 3 then Some (-1)
               else do {
                 ok \<leftarrow> continuation_bytes mem (src + 1) 2;
                 (if ok then verify_utf8_atom mem (src + 3) (slen - 3) (num_chars + 1)
                  else Some (-1)) }
             else if c0 AND 0xF8 = 0xF0 then
               if slen < 4 then Some (-1)
               else do {
                 ok \<leftarrow> continuation_bytes mem (src + 1) 3;
                 (if ok then verify_utf8_atom mem (src + 4) (slen - 4) (num_chars + 1)
                  else Some (-1)) }
             else Some (-1)
           else verify_utf8_atom mem (src + 1) (slen - 1) (num_chars + 1)) }
      else Some 0)"
  by pat_completeness auto
termination
  by (relation "measure (\<lambda>(mem, src, slen, num_chars). nat slen)") auto

declare verify_ascii_atom.simps [simp del] verify_utf8_atom.simps [simp del]
declare continuation_bytes.simps [simp del]

text \<open>
  The end of \<open>ei_encode_atom_len_as\<close>: the bytes of the name are already at \<open>s + offs\<close>, the tag
  and the length go in front of them.
\<close>

definition put_atom_header :: "bytes option \<Rightarrow> int \<Rightarrow> int \<Rightarrow> int \<Rightarrow> enc_res" where
  "put_atom_header buf index offs len =
     (case buf of
        Some b \<Rightarrow> do {
          (b, s) \<leftarrow> (if offs = 2 then do {
                       (b, s) \<leftarrow> put8 b index ERL_SMALL_ATOM_UTF8_EXT;
                       put8 b s (word_of_int len :: u32) }
                     else do {
                       (b, s) \<leftarrow> put8 b index ERL_ATOM_UTF8_EXT;
                       put16be b s (word_of_int len :: u32) });
          Some (0, Some b, s + len) }
      | None \<Rightarrow> Some (0, None, index + offs + len))"

text \<open>The copy of the name, when there is a buffer.\<close>

definition put_at :: "bytes option \<Rightarrow> int \<Rightarrow> bytes \<Rightarrow> bytes option option" where
  "put_at buf s xs =
     (case buf of
        None \<Rightarrow> Some None
      | Some b \<Rightarrow> do { (b, _) \<leftarrow> put_bytes b s xs; Some (Some b) })"

definition ei_encode_atom_len_as ::
  "bytes option \<Rightarrow> int \<Rightarrow> bytes \<Rightarrow> int \<Rightarrow> u32 \<Rightarrow> u32 \<Rightarrow> enc_res" where
  "ei_encode_atom_len_as buf index p len from_enc to_enc =
     (if MAXATOMLEN \<le> len \<and> from_enc AND (ERLANG_LATIN1 OR ERLANG_ASCII) \<noteq> 0
      then Some (-1, buf, index)
      else if from_enc = ERLANG_LATIN1 then do {
        let offs = (if 256 div 2 \<le> len then 3 else 2);
        (len, out, _) \<leftarrow> latin1_to_utf8 p 0 len (MAXATOMLEN_UTF8 - 1);
        buf \<leftarrow> put_at buf (index + offs) out;
        put_atom_header buf index offs len }
      else if from_enc = ERLANG_ASCII then do {
        r \<leftarrow> verify_ascii_atom p 0 len;
        (if r < 0 then Some (-1, buf, index)
         else do {
           xs \<leftarrow> (if buf = None then Some [] else read_bytes p 0 len);
           buf \<leftarrow> put_at buf (index + 2) xs;
           put_atom_header buf index 2 len }) }
      else if from_enc = ERLANG_UTF8 then do {
        let offs = (if 256 \<le> len then 3 else 2);
        r \<leftarrow> verify_utf8_atom p 0 len 0;
        (if r < 0 then Some (-1, buf, index)
         else do {
           xs \<leftarrow> (if buf = None then Some [] else read_bytes p 0 len);
           buf \<leftarrow> put_at buf (index + offs) xs;
           put_atom_header buf index offs len }) }
      else Some (-1, buf, index))"

definition ei_encode_atom_as :: "bytes option \<Rightarrow> int \<Rightarrow> bytes \<Rightarrow> u32 \<Rightarrow> u32 \<Rightarrow> enc_res" where
  "ei_encode_atom_as buf index p from_enc to_enc = do {
     len \<leftarrow> c_strlen p;
     ei_encode_atom_len_as buf index p len from_enc to_enc }"

definition ei_encode_atom_len :: "bytes option \<Rightarrow> int \<Rightarrow> bytes \<Rightarrow> int \<Rightarrow> enc_res" where
  "ei_encode_atom_len buf index p len =
     ei_encode_atom_len_as buf index p (if MAXATOMLEN \<le> len then MAXATOMLEN - 1 else len)
       ERLANG_LATIN1 0"

definition ei_encode_atom :: "bytes option \<Rightarrow> int \<Rightarrow> bytes \<Rightarrow> enc_res" where
  "ei_encode_atom buf index p = do {
     len \<leftarrow> c_strlen p;
     ei_encode_atom_len_as buf index p (if MAXATOMLEN \<le> len then MAXATOMLEN - 1 else len)
       ERLANG_LATIN1 0 }"

text \<open>
  \<open>ei_internal_put_atom\<close> (\<open>put_atom\<close> in the encoders) works on a pointer into the buffer, which
  it moves past the atom.
\<close>

definition put_atom :: "bytes \<Rightarrow> int \<Rightarrow> bytes \<Rightarrow> int \<Rightarrow> u32 \<Rightarrow> enc_res" where
  "put_atom b s p slen to_enc = ei_encode_atom_len_as (Some b) s p slen ERLANG_UTF8 to_enc"

definition true_name :: bytes where "true_name = [0x74, 0x72, 0x75, 0x65]"
definition false_name :: bytes where "false_name = [0x66, 0x61, 0x6C, 0x73, 0x65]"

definition ei_encode_boolean :: "bytes option \<Rightarrow> int \<Rightarrow> bool \<Rightarrow> enc_res" where
  "ei_encode_boolean buf index p =
     (let val = (if p then true_name else false_name); len = length val in
      case buf of
        None \<Rightarrow> Some (0, None, index + 2 + int len)
      | Some b \<Rightarrow> do {
          (b, s) \<leftarrow> put8 b index ERL_SMALL_ATOM_UTF8_EXT;
          (b, s) \<leftarrow> put8 b s (of_nat len :: u32);
          (b, s) \<leftarrow> put_bytes b s val;
          Some (0, Some b, s) })"

section \<open>Decoders\<close>

text \<open>The tag and the length of an atom: \<open>switch (get8(s))\<close> of \<open>ei_decode_atom_as\<close>.\<close>

definition get_atom_header :: "bytes \<Rightarrow> int \<Rightarrow> ((int \<times> u32) cret \<times> int) option" where
  "get_atom_header buf s = do {
     (t, s) \<leftarrow> get8 buf s;
     (if t = ERL_ATOM_EXT then do {
        (len, s) \<leftarrow> get16be buf s; Some (Done (uint len, ERLANG_LATIN1), s) }
      else if t = ERL_SMALL_ATOM_EXT then do {
        (len, s) \<leftarrow> get8 buf s; Some (Done (uint len, ERLANG_LATIN1), s) }
      else if t = ERL_ATOM_UTF8_EXT then do {
        (len, s) \<leftarrow> get16be buf s; Some (Done (uint len, ERLANG_UTF8), s) }
      else if t = ERL_SMALL_ATOM_UTF8_EXT then do {
        (len, s) \<leftarrow> get8 buf s; Some (Done (uint len, ERLANG_UTF8), s) }
      else Some (Fail, s)) }"

text \<open>
  The stored value is what \<open>p\<close> holds afterwards, with the terminating zero, and what goes to
  \<open>was_encp\<close> and \<open>res_encp\<close>.
\<close>

definition ei_decode_atom_as ::
  "bytes \<Rightarrow> int \<Rightarrow> int \<Rightarrow> u32 \<Rightarrow> (bytes \<times> u32 \<times> u32) dec_res" where
  "ei_decode_atom_as buf index destlen want_enc = do {
     (h, s) \<leftarrow> get_atom_header buf index;
     (case h of
        Fail \<Rightarrow> Some (Fail, index)
      | Done (len, got_enc) \<Rightarrow>
          if want_enc AND got_enc \<noteq> 0 \<or> want_enc = ERLANG_ASCII then
            if destlen \<le> len then Some (Fail, index)
            else do {
              xs \<leftarrow> read_bytes buf s len;
              let found_non_ascii = list_ex (\<lambda>c. c AND 0x80 \<noteq> 0) xs;
              (if want_enc = ERLANG_ASCII \<and> found_non_ascii then Some (Fail, index)
               else Some (Done (xs @ [0], got_enc,
                      if found_non_ascii then got_enc else ERLANG_ASCII), s + len)) }
          else do {
            (plen, out, res_enc) \<leftarrow>
              (if got_enc = ERLANG_LATIN1 then latin1_to_utf8 buf s len (destlen - 1)
               else utf8_to_latin1 buf s len (destlen - 1));
            (if plen < 0 then Some (Fail, index)
             else Some (Done (out @ [0], got_enc, res_enc), s + len)) }) }"

definition ei_decode_atom :: "bytes \<Rightarrow> int \<Rightarrow> bytes dec_res" where
  "ei_decode_atom buf index = do {
     (r, i) \<leftarrow> ei_decode_atom_as buf index MAXATOMLEN ERLANG_LATIN1;
     (case r of Fail \<Rightarrow> Some (Fail, i) | Done (p, _, _) \<Rightarrow> Some (Done p, i)) }"

text \<open>\<open>ei_internal_get_atom\<close> (\<open>get_atom\<close> in the decoders), with the moved pointer.\<close>

definition get_atom :: "bytes \<Rightarrow> int \<Rightarrow> (bytes \<times> u32) dec_res" where
  "get_atom buf s = do {
     (r, s) \<leftarrow> ei_decode_atom_as buf s MAXATOMLEN_UTF8 ERLANG_UTF8;
     (case r of Fail \<Rightarrow> Some (Fail, s) | Done (p, was_enc, _) \<Rightarrow> Some (Done (p, was_enc), s)) }"

text \<open>
  The two \<open>memcmp\<close> calls see only bytes the atom decoder stored, or differ before the first
  other one.  When the name is another one, the index has moved all the same.
\<close>

definition ei_decode_boolean :: "bytes \<Rightarrow> int \<Rightarrow> bool dec_res" where
  "ei_decode_boolean buf index = do {
     (r, i) \<leftarrow> ei_decode_atom_as buf index 6 ERLANG_ASCII;
     (case r of
        Fail \<Rightarrow> Some (Fail, i)
      | Done (tbuf, _, _) \<Rightarrow>
          if take 5 tbuf = true_name @ [0] then Some (Done True, i)
          else if take 6 tbuf = false_name @ [0] then Some (Done False, i)
          else Some (Fail, i)) }"

section \<open>Bit patterns\<close>

lemma latin1_two_bytes:
  fixes c :: u8
  assumes "c AND 0x80 \<noteq> 0"
  shows "(0xC0 OR drop_bit 6 c) AND 0x80 \<noteq> 0" "(0xC0 OR drop_bit 6 c) AND 0xFE = 0xC2"
    "(0x80 OR (c AND 0x3F)) AND 0xC0 = 0x80"
    "push_bit 6 (0xC0 OR drop_bit 6 c) OR ((0x80 OR (c AND 0x3F)) AND 0x3F) = c"
  using assms by (simp_all add: u8_eq_iff bit_simps)

lemma two_bytes_latin1:
  fixes c0 c1 :: u8
  assumes "c0 AND 0xFE = 0xC2" "c1 AND 0xC0 = 0x80"
  defines "c \<equiv> push_bit 6 c0 OR (c1 AND 0x3F)"
  shows "c AND 0x80 \<noteq> 0" "0xC0 OR drop_bit 6 c = c0" "0x80 OR (c AND 0x3F) = c1"
  using assms by (simp_all add: u8_eq_iff bit_simps)

lemma top_bit: "c AND 0x80 \<noteq> 0 \<longleftrightarrow> bit c 7" for c :: u8
  by (simp add: u8_eq_iff bit_simps)

lemma ASCII_CHECK_MASK_bits:
  "ASCII_CHECK_MASK = push_bit 7 1 OR push_bit 15 1 OR push_bit 23 1 OR push_bit 31 1 
    OR push_bit 39 1 OR push_bit 47 1 OR push_bit 55 1 OR push_bit 63 1"
  by simp

lemma bit_push_bit_1: "m < 64 \<Longrightarrow> bit (push_bit m 1 :: u64) n \<longleftrightarrow> n = m"
  by (auto simp: bit_simps)

lemma and_check_mask: 
  "w AND ASCII_CHECK_MASK = 0 \<longleftrightarrow> \<not> bit w 7 \<and> \<not> bit w 15 \<and> \<not> bit w 23 \<and> \<not> bit w 31
     \<and> \<not> bit w 39 \<and> \<not> bit w 47 \<and> \<not> bit w 55 \<and> \<not> bit w 63" for w :: u64
proof -
  have "w AND ASCII_CHECK_MASK = 0 \<longleftrightarrow> (\<forall>n. \<not> bit (w AND ASCII_CHECK_MASK) n)"
    by (auto intro: bit_eqI)
  moreover have "bit (w AND ASCII_CHECK_MASK) n \<longleftrightarrow> bit w n \<and> (n = 7 \<or> n = 15 \<or> n = 23 \<or> n = 31
      \<or> n = 39 \<or> n = 47 \<or> n = 55 \<or> n = 63)" for n
    unfolding ASCII_CHECK_MASK_bits by (simp only: bit_and_iff bit_or_iff bit_push_bit_1)
  ultimately show ?thesis by metis
qed

lemma be64_ascii: "w AND ASCII_CHECK_MASK = 0 \<longleftrightarrow> (\<forall>c\<in>set (be64 w). c AND 0x80 = 0)" for w :: u64
proof -
  have "c AND 0x80 = 0 \<longleftrightarrow> \<not> bit c 7" for c :: u8
    using top_bit [of c] by blast
  then show ?thesis
    unfolding and_check_mask be64_def by (auto simp: bit_simps)
qed

section \<open>What the converters compute\<close>

definition latin1_char :: "u8 \<Rightarrow> bytes" where
  "latin1_char c = (if c AND 0x80 = 0 then [c] else [0xC0 OR drop_bit 6 c, 0x80 OR (c AND 0x3F)])"

definition utf8_of_latin1 :: "bytes \<Rightarrow> bytes" where
  "utf8_of_latin1 xs = concat (map latin1_char xs)"

definition all_ascii :: "bytes \<Rightarrow> bool" where
  "all_ascii xs \<longleftrightarrow> list_all (\<lambda>c. c AND 0x80 = 0) xs"

lemma utf8_of_latin1_simps [simp]:
  "utf8_of_latin1 [] = []"
  "utf8_of_latin1 (c # xs) = latin1_char c @ utf8_of_latin1 xs"
  "utf8_of_latin1 (xs @ ys) = utf8_of_latin1 xs @ utf8_of_latin1 ys"
  by (simp_all add: utf8_of_latin1_def)

lemma all_ascii_simps [simp]:
  "all_ascii []" "all_ascii (c # xs) \<longleftrightarrow> c AND 0x80 = 0 \<and> all_ascii xs"
  "all_ascii (xs @ ys) \<longleftrightarrow> all_ascii xs \<and> all_ascii ys"
  by (simp_all add: all_ascii_def)

lemma utf8_of_ascii: "all_ascii xs \<Longrightarrow> utf8_of_latin1 xs = xs"
  by (induction xs) (simp_all add: latin1_char_def)

lemma length_utf8_of_latin1:
  "length xs \<le> length (utf8_of_latin1 xs)" "length (utf8_of_latin1 xs) \<le> 2 * length xs"
  by (induction xs) (auto simp: latin1_char_def)

lemma latin1_to_utf8_loop_ok:
  assumes "sees mem src xs" and "xs = [] \<or> int (length (out @ utf8_of_latin1 (butlast xs))) < destlen"
  shows "latin1_to_utf8_loop mem src (src + int (length xs)) destlen out f =
    Some (int (length (out @ utf8_of_latin1 xs)), out @ utf8_of_latin1 xs,
      if f \<or> \<not> all_ascii xs then ERLANG_UTF8 else ERLANG_ASCII)"
  using assms
proof (induction xs arbitrary: src out f)
  case Nil
  then show ?case by (simp add: latin1_to_utf8_loop.simps)
next
  case (Cons c xs)
  have room: "int (length out) < destlen"
    "xs = [] \<or> int (length ((out @ latin1_char c) @ utf8_of_latin1 (butlast xs))) < destlen"
    using Cons.prems(2) by (auto split: if_splits)
  have e: "src + int (length (c # xs)) = src + 1 + int (length xs)" by simp
  have s: "sees mem (src + 1) xs" and g: "get8 mem src = Some (c, src + 1)"
    using Cons.prems(1) by (simp_all add: sees_Cons get8_def)
  show ?case
    unfolding e
    using room(1) g Cons.IH [OF s room(2)]
    by (subst latin1_to_utf8_loop.simps) (auto simp: latin1_char_def)
qed

lemma latin1_to_utf8_loop_full:
  assumes "sees mem src xs" and "xs \<noteq> []" 
    and "destlen \<le> int (length (out @ utf8_of_latin1 (butlast xs)))"
  shows "\<exists>out'. latin1_to_utf8_loop mem src (src + int (length xs)) destlen out f = Some (-1, out', 0)"
  using assms
proof (induction xs arbitrary: src out f)
  case Nil
  then show ?case by simp
next
  case (Cons c xs)
  have e: "src + int (length (c # xs)) = src + 1 + int (length xs)" by simp
  have s: "sees mem (src + 1) xs" and g: "get8 mem src = Some (c, src + 1)"
    using Cons.prems(1) by (simp_all add: sees_Cons get8_def)
  show ?case
  proof (cases "destlen \<le> int (length out)")
    case True
    then show ?thesis by (auto simp: latin1_to_utf8_loop.simps)
  next
    case False
    then have "xs \<noteq> []" and "destlen \<le> int (length ((out @ latin1_char c) @ utf8_of_latin1 (butlast xs)))"
      using Cons.prems(3) by (auto split: if_splits)
    from Cons.IH [OF s this, of True] Cons.IH [OF s this, of f] False g
    show ?thesis unfolding e
      by (subst latin1_to_utf8_loop.simps) (auto simp: latin1_char_def)
  qed
qed

lemma utf8_to_latin1_loop_ok:
  assumes "sees mem src (utf8_of_latin1 ys)" and "int (length (out @ ys)) \<le> destlen"
  shows "utf8_to_latin1_loop mem src (int (length (utf8_of_latin1 ys))) destlen out f =
    Some (int (length (out @ ys)), out @ ys,
      if f \<or> \<not> all_ascii ys then ERLANG_LATIN1 else ERLANG_ASCII)"
  using assms
proof (induction ys arbitrary: src out f)
  case Nil
  then show ?case by (simp add: utf8_to_latin1_loop.simps)
next
  case (Cons c ys)
  have room: "int (length ((out @ [c]) @ ys)) \<le> destlen" "int (length out) < destlen"
    using Cons.prems(2) by auto
  have s: "sees mem (src + int (length (latin1_char c))) (utf8_of_latin1 ys)"
    "sees mem src (latin1_char c)"
    using Cons.prems(1) by (simp_all add: sees_append)
  note IH = Cons.IH [OF s(1) room(1)]
  show ?case
  proof (cases "c AND 0x80 = 0")
    case True
    then show ?thesis using s room(2) IH
      by (subst utf8_to_latin1_loop.simps) (simp add: latin1_char_def sees_Cons get8_def)
  next
    case False
    then show ?thesis using s room(2) IH latin1_two_bytes [OF False]
      by (subst utf8_to_latin1_loop.simps) (simp add: latin1_char_def sees_Cons get8_def)
  qed
qed

text \<open>The first character of a UTF-8 string, if it is one of Latin-1, and the rest.\<close>

fun latin1_head :: "bytes \<Rightarrow> (u8 \<times> bytes) option" where
  "latin1_head (c0 # r) =
     (if c0 AND 0x80 = 0 then Some (c0, r)
      else case r of
        [] \<Rightarrow> None
      | c1 # r' \<Rightarrow>
          if c0 AND 0xFE = 0xC2 \<and> c1 AND 0xC0 = 0x80
          then Some (push_bit 6 c0 OR (c1 AND 0x3F), r') else None)"
| "latin1_head [] = None"

lemma latin1_head_Some: "latin1_head xs = Some (c, r) \<Longrightarrow> xs = latin1_char c @ r"
  using two_bytes_latin1
  by (cases xs) (auto simp: latin1_char_def split: if_splits list.splits)

lemma utf8_to_latin1_loop_step:
  assumes "sees mem src xs" and "xs \<noteq> []" and "int (length out) < destlen"
  shows "utf8_to_latin1_loop mem src (int (length xs)) destlen out f =
    (case latin1_head xs of
       None \<Rightarrow> Some (-1, out, 0)
     | Some (c, r) \<Rightarrow> utf8_to_latin1_loop mem (src + int (length (latin1_char c))) (int (length r))
         destlen (out @ [c]) (f \<or> c AND 0x80 \<noteq> 0))"
proof -
  from assms(2) obtain c0 r where xs: "xs = c0 # r" by (cases xs) auto
  have g0: "get8 mem src = Some (c0, src + 1)" "sees mem (src + 1) r"
    using assms(1) by (simp_all add: xs sees_Cons get8_def)
  show ?thesis
  proof (cases r)
    case Nil
    then show ?thesis using assms(3) g0(1)
      by (subst utf8_to_latin1_loop.simps) (simp add: xs latin1_char_def)
  next
    case (Cons c1 r')
    have "get8 mem (src + 1) = Some (c1, src + 2)"
      using g0(2) by (simp add: Cons sees_Cons get8_def)
    then show ?thesis using assms(3) g0(1) two_bytes_latin1 [of c0 c1]
      by (subst utf8_to_latin1_loop.simps) (simp add: xs Cons latin1_char_def)
  qed
qed

lemma utf8_to_latin1_loop_cases:
  assumes "sees mem src xs" and "int (length out) \<le> destlen"
  shows "(\<exists>ys. xs = utf8_of_latin1 ys \<and> int (length (out @ ys)) \<le> destlen)
    \<or> (\<exists>out'. utf8_to_latin1_loop mem src (int (length xs)) destlen out f = Some (-1, out', 0))"
  using assms
proof (induction "length xs" arbitrary: xs src out f rule: less_induct)
  case less
  show ?case
  proof (cases "xs = [] \<or> destlen \<le> int (length out) \<or> latin1_head xs = None")
    case True
    then show ?thesis
      using less.prems utf8_to_latin1_loop_step [of mem src xs out destlen f]
        exI [of "\<lambda>ys. xs = utf8_of_latin1 ys \<and> int (length (out @ ys)) \<le> destlen" "[]"]
      by (cases "xs = []"; cases "destlen \<le> int (length out)")
        (auto simp: utf8_to_latin1_loop.simps [of mem src "int (length xs)"])
  next
    case False
    then obtain c r where h: "latin1_head xs = Some (c, r)" by auto
    then have xs: "xs = latin1_char c @ r" by (rule latin1_head_Some)
    then have "length r < length xs" by (simp add: latin1_char_def)
    moreover have "sees mem (src + int (length (latin1_char c))) r"
      using less.prems(1) by (simp add: xs sees_append)
    moreover have "int (length (out @ [c])) \<le> destlen" using False by simp
    ultimately consider ys where "r = utf8_of_latin1 ys" "int (length ((out @ [c]) @ ys)) \<le> destlen"
      | out' where "utf8_to_latin1_loop mem (src + int (length (latin1_char c))) (int (length r))
          destlen (out @ [c]) (f \<or> c AND 0x80 \<noteq> 0) = Some (-1, out', 0)"
      using less.hyps by blast
    then show ?thesis
    proof cases
      case 1
      then have "xs = utf8_of_latin1 (c # ys) \<and> int (length (out @ c # ys)) \<le> destlen"
        by (simp add: xs)
      then show ?thesis by blast
    next
      case 2
      then show ?thesis
        using False h utf8_to_latin1_loop_step [OF less.prems(1), of out destlen f] by simp
    qed
  qed
qed

text \<open>The fast track: a run of ASCII bytes is copied by either loop.\<close>

lemma latin1_to_utf8_loop_ascii:
  assumes "sees mem src xs" and "all_ascii xs" and "int (length (out @ xs)) \<le> destlen"
    and "src + int (length xs) \<le> src_end"
  shows "latin1_to_utf8_loop mem (src + int (length xs)) src_end destlen (out @ xs) f =
    latin1_to_utf8_loop mem src src_end destlen out f"
  using assms
proof (induction xs arbitrary: src out)
  case (Cons c xs)
  from Cons.prems have "get8 mem src = Some (c, src + 1)" "sees mem (src + 1) xs"
    "src < src_end" "int (length out) < destlen" "c AND 0x80 = 0"
    by (auto simp: sees_Cons get8_def)
  with Cons.IH [of "src + 1" "out @ [c]"] Cons.prems show ?case
    by (subst (2) latin1_to_utf8_loop.simps) (simp add: ac_simps)
qed simp

lemma utf8_to_latin1_loop_ascii:
  assumes "sees mem src xs" and "all_ascii xs" and "int (length (out @ xs)) \<le> destlen"
    and "int (length xs) \<le> slen"
  shows "utf8_to_latin1_loop mem (src + int (length xs)) (slen - int (length xs)) destlen (out @ xs) f =
    utf8_to_latin1_loop mem src slen destlen out f"
  using assms
proof (induction xs arbitrary: src slen out)
  case (Cons c xs)
  from Cons.prems have "get8 mem src = Some (c, src + 1)" "sees mem (src + 1) xs"
    "0 < slen" "int (length out) < destlen" "c AND 0x80 = 0"
    by (auto simp: sees_Cons get8_def)
  with Cons.IH [of "src + 1" "out @ [c]" "slen - 1"] Cons.prems show ?case
    by (subst (2) utf8_to_latin1_loop.simps) (simp add: algebra_simps)
qed simp

lemma be64_of_bytes:
  "be64 (push_bit 56 (ucast x7) OR push_bit 48 (ucast x6)
           OR push_bit 40 (ucast x5) OR push_bit 32 (ucast x4)
           OR push_bit 24 (ucast x3) OR push_bit 16 (ucast x2)
           OR push_bit 8 (ucast x1) OR ucast x0 :: u64) = [x7, x6, x5, x4, x3, x2, x1, x0]"
  for x7 x6 x5 x4 x3 x2 x1 x0 :: u8
  by (simp add: be64_def u8_eq_iff bit_simps)

lemma ascii_words_sees:
  assumes "sees mem src xs" and "8 * k \<le> length xs"
  shows "\<exists>as bs. xs = as @ bs \<and> all_ascii as \<and>
    ascii_words mem src (src + int (8 * k)) out = Some (out @ as)"
  using assms
proof (induction k arbitrary: src xs out)
  case 0
  have "ascii_words mem src (src + int (8 * 0)) out = Some (out @ [])"
    by (simp add: ascii_words.simps)
  then show ?case by (intro exI [of _ "[]"] exI [of _ xs]) simp
next
  case (Suc k)
  then have "\<exists>x7 x6 x5 x4 x3 x2 x1 x0 ys. xs = x7 # x6 # x5 # x4 # x3 # x2 # x1 # x0 # ys"
    by (auto simp: Suc_le_length_iff eval_nat_numeral)
  then obtain x7 x6 x5 x4 x3 x2 x1 x0 ys where
    xs: "xs = [x7, x6, x5, x4, x3, x2, x1, x0] @ ys" by auto
  let ?w = "push_bit 56 (ucast x7) OR push_bit 48 (ucast x6)
           OR push_bit 40 (ucast x5) OR push_bit 32 (ucast x4)
           OR push_bit 24 (ucast x3) OR push_bit 16 (ucast x2)
           OR push_bit 8 (ucast x1) OR ucast x0 :: u64"
  have w: "be64 ?w = [x7, x6, x5, x4, x3, x2, x1, x0]" by (rule be64_of_bytes)
  have g: "get64be mem src = Some (?w, src + 8)" and s: "sees mem (src + 8) ys"
    using Suc.prems(1) unfolding xs get64be_def by (simp_all add: sees_Cons get8_def ac_simps)
  have e: "src + int (8 * Suc k) = src + 8 + int (8 * k)" by simp
  show ?case
  proof (cases "?w AND ASCII_CHECK_MASK = 0")
    case True
    then have a: "all_ascii (be64 ?w)" unfolding be64_ascii all_ascii_def by (simp add: list_all_iff)
    from Suc.IH [OF s, of "out @ be64 ?w"] Suc.prems(2) obtain as bs where
      r: "ys = as @ bs" "all_ascii as"
      "ascii_words mem (src + 8) (src + 8 + int (8 * k)) (out @ be64 ?w) = Some ((out @ be64 ?w) @ as)"
      unfolding xs by auto
    have "ascii_words mem src (src + int (8 * Suc k)) out = Some (out @ be64 ?w @ as)"
      unfolding e by (subst ascii_words.simps) (use g True r(3) in simp)
    then show ?thesis using r a xs w by (intro exI [of _ "be64 ?w @ as"] exI [of _ bs]) simp
  next
    case False
    then have "ascii_words mem src (src + int (8 * Suc k)) out = Some (out @ [])"
      by (subst ascii_words.simps) (use g in simp)
    then show ?thesis by (intro exI [of _ "[]"] exI [of _ xs]) simp
  qed
qed

lemma ascii_fast_track_sees:
  assumes "sees mem src xs" and "0 \<le> destlen"
  shows "\<exists>as bs. xs = as @ bs \<and> all_ascii as \<and> int (length as) \<le> destlen
    \<and> ascii_fast_track mem src (int (length xs)) destlen = Some as"
proof (cases "destlen < int (length xs)")
  case True
  then show ?thesis using assms(2)
    by (intro exI [of _ "[]"] exI [of _ xs]) (simp add: ascii_fast_track_def)
next
  case False
  have "int (8 * (length xs div 8)) = int (length xs) div 8 * 8"
    by (simp add: zdiv_int)
  with ascii_words_sees [OF assms(1), of "length xs div 8" "[]"] obtain as bs where
    "xs = as @ bs" "all_ascii as" "ascii_words mem src (src + int (length xs) div 8 * 8) [] = Some as"
    by (auto simp: ac_simps)
  with False show ?thesis
    by (intro exI [of _ as] exI [of _ bs]) (simp add: ascii_fast_track_def)
qed

lemma latin1_to_utf8_slow:
  assumes "sees mem src xs" and "0 \<le> destlen"
  shows "latin1_to_utf8 mem src (int (length xs)) destlen =
    latin1_to_utf8_aligned mem src (int (length xs)) destlen"
proof -
  from ascii_fast_track_sees [OF assms] obtain as bs where
    a: "xs = as @ bs" "all_ascii as" "int (length as) \<le> destlen"
    "ascii_fast_track mem src (int (length xs)) destlen = Some as" by blast
  from assms(1) a(1) have "sees mem src as" by (simp add: sees_append)
  from latin1_to_utf8_loop_ascii [OF this a(2), of "[]" destlen "src + int (length xs)" False] a
  show ?thesis by (simp add: latin1_to_utf8_def latin1_to_utf8_aligned_def)
qed

lemma utf8_to_latin1_slow:
  assumes "sees mem src xs" and "0 \<le> destlen"
  shows "utf8_to_latin1 mem src (int (length xs)) destlen =
    utf8_to_latin1_aligned mem src (int (length xs)) destlen"
proof -
  from ascii_fast_track_sees [OF assms] obtain as bs where
    a: "xs = as @ bs" "all_ascii as" "int (length as) \<le> destlen"
    "ascii_fast_track mem src (int (length xs)) destlen = Some as" by blast
  from assms(1) a(1) have "sees mem src as" by (simp add: sees_append)
  from utf8_to_latin1_loop_ascii [OF this a(2), of "[]" destlen "int (length xs)" False] a
  show ?thesis by (simp add: utf8_to_latin1_def utf8_to_latin1_aligned_def)
qed

lemma latin1_to_utf8_ok:
  assumes "sees mem src xs" and "0 \<le> destlen"
    and "xs = [] \<or> int (length (utf8_of_latin1 (butlast xs))) < destlen"
  shows "latin1_to_utf8 mem src (int (length xs)) destlen =
    Some (int (length (utf8_of_latin1 xs)), utf8_of_latin1 xs,
      if all_ascii xs then ERLANG_ASCII else ERLANG_UTF8)"
  using latin1_to_utf8_loop_ok [OF assms(1), of "[]" destlen False] assms(3)
  by (simp add: latin1_to_utf8_slow [OF assms(1,2)] latin1_to_utf8_aligned_def)

lemma latin1_to_utf8_full:
  assumes "sees mem src xs" and "0 \<le> destlen"
    and "\<not> (xs = [] \<or> int (length (utf8_of_latin1 (butlast xs))) < destlen)"
  shows "\<exists>out. latin1_to_utf8 mem src (int (length xs)) destlen = Some (-1, out, 0)"
  using latin1_to_utf8_loop_full [OF assms(1), of destlen "[]" False] assms(3)
  by (simp add: latin1_to_utf8_slow [OF assms(1,2)] latin1_to_utf8_aligned_def)

lemma utf8_to_latin1_ok:
  assumes "sees mem src (utf8_of_latin1 ys)" and "int (length ys) \<le> destlen"
  shows "utf8_to_latin1 mem src (int (length (utf8_of_latin1 ys))) destlen =
    Some (int (length ys), ys, if all_ascii ys then ERLANG_ASCII else ERLANG_LATIN1)"
  using utf8_to_latin1_loop_ok [OF assms(1), of "[]" destlen False] assms(2)
    utf8_to_latin1_slow [OF assms(1), of destlen]
  by (simp add: utf8_to_latin1_aligned_def)

lemma utf8_to_latin1_fail:
  assumes "sees mem src xs" and "0 \<le> destlen"
    and "\<nexists>ys. xs = utf8_of_latin1 ys \<and> int (length ys) \<le> destlen"
  shows "\<exists>out. utf8_to_latin1 mem src (int (length xs)) destlen = Some (-1, out, 0)"
  using utf8_to_latin1_loop_cases [OF assms(1), of "[]" destlen False] assms(2,3)
  by (auto simp: utf8_to_latin1_slow [OF assms(1,2)] utf8_to_latin1_aligned_def)

section \<open>Well-formed names\<close>

definition continuation :: "u8 \<Rightarrow> bool" where
  "continuation c \<longleftrightarrow> c AND 0xC0 = 0x80"

definition utf8_len :: "u8 \<Rightarrow> nat option" where
  "utf8_len c0 =
     (if c0 AND 0x80 = 0 then Some 1 else if c0 AND 0xE0 = 0xC0 then Some 2
      else if c0 AND 0xF0 = 0xE0 then Some 3 else if c0 AND 0xF8 = 0xF0 then Some 4 else None)"

fun utf8_seq :: "bytes \<Rightarrow> bool" where
  "utf8_seq [] = False"
| "utf8_seq (c # cs) \<longleftrightarrow> utf8_len c = Some (length (c # cs)) \<and> list_all continuation cs"

definition utf8_name :: "bytes \<Rightarrow> nat \<Rightarrow> bool" where
  "utf8_name xs n \<longleftrightarrow> (\<exists>cs. xs = concat cs \<and> list_all utf8_seq cs \<and> length cs \<le> n)"

lemma continuation_bytes_sees:
  "sees mem src xs \<Longrightarrow> k \<le> length xs \<Longrightarrow>
   continuation_bytes mem src k = Some (list_all continuation (take k xs))"
proof (induction k arbitrary: src xs)
  case (Suc k)
  then obtain x ys where "xs = x # ys" by (cases xs) auto
  with Suc show ?case
    by (simp add: continuation_bytes.simps sees_Cons get8_def continuation_def)
qed (simp add: continuation_bytes.simps)

lemma verify_utf8_atom_step:
  assumes "sees mem src (c0 # r)"
  shows "verify_utf8_atom mem src (int (length (c0 # r))) n =
    (if MAXATOMLEN \<le> n + 1 then Some (-1)
     else case utf8_len c0 of
       None \<Rightarrow> Some (-1)
     | Some k \<Rightarrow>
         if k - 1 \<le> length r \<and> list_all continuation (take (k - 1) r)
         then verify_utf8_atom mem (src + int k) (int (length (drop (k - 1) r))) (n + 1)
         else Some (-1))"
proof -
  from assms have g: "get8 mem src = Some (c0, src + 1)" and s: "sees mem (src + 1) r"
    by (simp_all add: sees_Cons get8_def)
  have c: "continuation_bytes mem (src + 1) k = Some (list_all continuation (take k r))" if "k \<le> length r" for k
    using continuation_bytes_sees [OF s that] .
  show ?thesis
    apply (subst verify_utf8_atom.simps)
    using c [of 1] c [of 2] c [of 3]
    by (auto simp: g utf8_len_def of_nat_diff Suc_le_eq)
qed

lemma verify_utf8_atom_ok:
  assumes "sees mem src (concat cs)" and "list_all utf8_seq cs" and "n + int (length cs) < MAXATOMLEN"
  shows "verify_utf8_atom mem src (int (length (concat cs))) n = Some 0"
  using assms
proof (induction cs arbitrary: src n)
  case Nil
  then show ?case by (simp add: verify_utf8_atom.simps)
next
  case (Cons c cs)
  then obtain c0 r where c: "c = c0 # r" by (cases c) auto
  from Cons.prems have u: "utf8_len c0 = Some (Suc (length r))" "list_all continuation r"
    and s: "sees mem src (c0 # r @ concat cs)" "sees mem (src + int (Suc (length r))) (concat cs)"
    by (simp_all add: c sees_append sees_Cons algebra_simps)
  from verify_utf8_atom_step [OF s(1), of n] Cons.IH [OF s(2), of "n + 1"] Cons.prems u
  show ?case by (simp add: c)
qed

lemma verify_utf8_atom_cases:
  assumes "sees mem src xs" and "n < MAXATOMLEN"
  shows "(\<exists>cs. xs = concat cs \<and> list_all utf8_seq cs \<and> n + int (length cs) < MAXATOMLEN)
    \<or> verify_utf8_atom mem src (int (length xs)) n = Some (-1)"
  using assms
proof (induction "length xs" arbitrary: xs src n rule: less_induct)
  case less
  show ?case
  proof (cases xs)
    case Nil
    then have "xs = concat [] \<and> list_all utf8_seq [] \<and> n + int (length []) < MAXATOMLEN"
      using less.prems by simp
    then show ?thesis by blast
  next
    case (Cons c0 r)
    show ?thesis
    proof (cases "n + 1 < MAXATOMLEN \<and> (\<exists>k. utf8_len c0 = Some k \<and> k - 1 \<le> length r \<and> list_all continuation (take (k - 1) r))")
      case False
      with verify_utf8_atom_step [of mem src c0 r n] less.prems(1) Cons show ?thesis
        by (auto split: option.split)
    next
      case True
      then obtain k where k: "utf8_len c0 = Some k" "k - 1 \<le> length r" "list_all continuation (take (k - 1) r)"
        by blast
      then have "0 < k" by (auto simp: utf8_len_def split: if_splits)
      let ?t = "take (k - 1) r" and ?d = "drop (k - 1) r"
      have xs: "xs = (c0 # ?t) @ ?d" by (simp add: Cons)
      have len: "int (length (c0 # ?t)) = int k" using k(2) \<open>0 < k\<close> by simp
      have s: "sees mem (src + int k) ?d"
        using less.prems(1) unfolding xs sees_append len by simp
      have "length ?d < length xs" by (simp add: Cons)
      from less.hyps [OF this s, of "n + 1"] True
      consider cs where "?d = concat cs" "list_all utf8_seq cs" "n + 1 + int (length cs) < MAXATOMLEN"
        | "verify_utf8_atom mem (src + int k) (int (length ?d)) (n + 1) = Some (-1)" by auto
      then show ?thesis
      proof cases
        case 1
        have "utf8_seq (c0 # ?t)" using k \<open>0 < k\<close> by simp
        with 1 have "xs = concat ((c0 # ?t) # cs) \<and> list_all utf8_seq ((c0 # ?t) # cs)
          \<and> n + int (length ((c0 # ?t) # cs)) < MAXATOMLEN" using xs by simp
        then show ?thesis by blast
      next
        case 2
        with verify_utf8_atom_step [of mem src c0 r n] less.prems(1) True k Cons show ?thesis
          by simp
      qed
    qed
  qed
qed

lemma verify_utf8_atom_eq:
  assumes "sees mem src xs"
  shows "verify_utf8_atom mem src (int (length xs)) 0 = Some (if utf8_name xs 255 then 0 else -1)"
proof (cases "utf8_name xs 255")
  case True
  then obtain cs where "xs = concat cs" "list_all utf8_seq cs" "length cs \<le> 255"
    by (auto simp: utf8_name_def)
  with verify_utf8_atom_ok [of mem src cs 0] assms True show ?thesis by simp
next
  case False
  then show ?thesis
    using verify_utf8_atom_cases [OF assms, of 0] by (auto simp: utf8_name_def)
qed

lemma verify_ascii_atom_eq:
  "sees mem src xs \<Longrightarrow> verify_ascii_atom mem src (int (length xs)) = Some (if all_ascii xs then 0 else -1)"
  by (induction xs arbitrary: src)
    (simp_all add: verify_ascii_atom.simps sees_Cons get8_def)

lemma length_utf8_seq: "utf8_seq c \<Longrightarrow> length c \<le> 4"
  by (cases c) (auto simp: utf8_len_def split: if_splits)

lemma length_utf8_name: "utf8_name xs n \<Longrightarrow> length xs \<le> 4 * n"
proof -
  have "list_all utf8_seq cs \<Longrightarrow> length (concat cs) \<le> 4 * length cs" for cs
    by (induction cs) (auto dest: length_utf8_seq)
  then show "utf8_name xs n \<Longrightarrow> length xs \<le> 4 * n"
    by (force simp: utf8_name_def)
qed

section \<open>The external representation\<close>

definition atom_bytes :: "bool \<Rightarrow> bytes \<Rightarrow> bytes" where
  "atom_bytes small body =
     (if small then [ERL_SMALL_ATOM_UTF8_EXT, of_nat (length body)]
      else ERL_ATOM_UTF8_EXT # be16 (of_nat (length body) :: u32)) @ body"

definition ext_atom :: "bytes \<Rightarrow> u32 \<Rightarrow> bytes option" where
  "ext_atom name enc =
     (if enc = ERLANG_LATIN1 \<and> length name < 256 then
        Some (atom_bytes (length name < 128) (utf8_of_latin1 name))
      else if enc = ERLANG_ASCII \<and> length name < 256 \<and> all_ascii name then
        Some (atom_bytes True name)
      else if enc = ERLANG_UTF8 \<and> utf8_name name 255 then
        Some (atom_bytes (length name < 256) name)
      else None)"

definition ext_boolean :: "bool \<Rightarrow> bytes" where
  "ext_boolean p = atom_bytes True (if p then true_name else false_name)"

lemma length_atom_bytes [simp]:
  "length (atom_bytes small body) = (if small then 2 else 3) + length body"
  by (simp add: atom_bytes_def)

lemma put_atom_header_write:
  assumes "0 \<le> i" and "i + int (length (atom_bytes (offs = 2) body)) \<le> int (length b)"
    and "offs = 2 \<or> offs = 3"
  shows "do { buf \<leftarrow> put_at (Some b) (i + offs) body; put_atom_header buf i offs (int (length body)) }
    = Some (0, Some (splice_at b i (atom_bytes (offs = 2) body)), i + int (length (atom_bytes (offs = 2) body)))"
proof -
  let ?h = "if offs = 2 then [ERL_SMALL_ATOM_UTF8_EXT, of_nat (length body)]
      else ERL_ATOM_UTF8_EXT # be16 (of_nat (length body) :: u32)"
  have h: "int (length ?h) = offs" using assms(3) by auto
  have le: "i + int (length ?h) + int (length body) \<le> int (length b)"
    using assms(2) by (simp add: atom_bytes_def)
  from splice_at_prepend [OF assms(1) le] h
  have "splice_at (splice_at b (i + offs) body) i ?h = splice_at b i (atom_bytes (offs = 2) body)"
    by (simp only: atom_bytes_def)
  with assms le show ?thesis
    by (auto simp: put_at_def put_atom_header_def buf_simps put_bytes_append [symmetric] split: if_splits)
qed

lemma put_atom_header_size:
  "do { buf \<leftarrow> put_at None (i + offs) body; put_atom_header buf i offs (int n) }
    = Some (0, None, i + offs + int n)"
  by (simp add: put_at_def put_atom_header_def)

lemma sees_name: "sees (name @ rest) 0 name"
  by (simp add: sees_def)

lemma latin1_name:
  assumes "length name < 256"
  shows "latin1_to_utf8 (name @ rest) 0 (int (length name)) 1020 =
    Some (int (length (utf8_of_latin1 name)), utf8_of_latin1 name,
      if all_ascii name then ERLANG_ASCII else ERLANG_UTF8)"
  using length_utf8_of_latin1(2) [of "butlast name"] assms
  by (intro latin1_to_utf8_ok) (auto simp: sees_name)

interpretation enc_atom:
  ei_encoder "\<lambda>buf i. ei_encode_atom_len_as buf i (name @ rest) (int (length name)) enc to_enc"
    "ext_atom name enc" for name rest enc to_enc
proof
  let ?E = "\<lambda>buf i. ei_encode_atom_len_as buf i (name @ rest) (int (length name)) enc to_enc"
  note lens = length_utf8_of_latin1 [of name] length_utf8_name [of name 255]
  note facts = latin1_name verify_ascii_atom_eq [OF sees_name] verify_utf8_atom_eq [OF sees_name]
    read_bytes_sees [OF sees_name]
  fix bs i and b :: bytes
  assume bs: "ext_atom name enc = Some bs"
  then consider "enc = ERLANG_LATIN1" "length name < 256"
      "bs = atom_bytes (length name < 128) (utf8_of_latin1 name)"
    | "enc = ERLANG_ASCII" "length name < 256" "all_ascii name" "bs = atom_bytes True name"
    | "enc = ERLANG_UTF8" "utf8_name name 255" "bs = atom_bytes (length name < 256) name"
    by (auto simp: ext_atom_def split: if_splits)
  note c = this
  from c show "?E None i = Some (0, None, i + int (length bs))"
    by cases (simp_all add: ei_encode_atom_len_as_def facts put_atom_header_size)
  assume room: "0 \<le> i" "i + int (length bs) \<le> int (length b)"
  from c show "?E (Some b) i = Some (0, Some (splice_at b i bs), i + int (length bs))"
  proof cases
    case 1
    with put_atom_header_write [of i "if length name < 128 then 2 else 3" "utf8_of_latin1 name" b] room
    show ?thesis by (auto simp: ei_encode_atom_len_as_def facts)
  next
    case 2
    with put_atom_header_write [of i 2 name b] room
    show ?thesis by (auto simp: ei_encode_atom_len_as_def facts)
  next
    case 3
    with put_atom_header_write [of i "if length name < 256 then 2 else 3" name b] room
    show ?thesis by (auto simp: ei_encode_atom_len_as_def facts)
  qed
next
  fix i
  assume "ext_atom name enc = None"
  then show "\<exists>i'. ei_encode_atom_len_as None i (name @ rest) (int (length name)) enc to_enc = Some (-1, None, i')"
    by (auto simp: ei_encode_atom_len_as_def ext_atom_def latin1_name verify_ascii_atom_eq [OF sees_name]
       verify_utf8_atom_eq [OF sees_name] not_less split: if_splits)
qed

section \<open>Decoding\<close>

lemma get_atom_header_sees:
  assumes "sees b i (atom_bytes small body)" and "length body < (if small then 256 else 65536)"
  shows "get_atom_header b i = Some (Done (int (length body), ERLANG_UTF8), i + (if small then 2 else 3))"
    and "sees b (i + (if small then 2 else 3)) body"
proof -
  have l: "uint (of_nat (length body) :: u8) = int (length body)" if small
    using assms(2) that by (simp add: unsigned_of_nat take_bit_nat_eq_self flip: of_nat_take_bit)
  have l16: "uint (ucast (of_nat (length body) :: u32) :: u16) = int (length body)" if "\<not> small"
    using assms(2) that
    by (simp add: unsigned_ucast_eq unsigned_of_nat take_bit_nat_eq_self flip: of_nat_take_bit)
  show "get_atom_header b i = Some (Done (int (length body), ERLANG_UTF8), i + (if small then 2 else 3))"
  proof (cases small)
    case True
    with assms(1) l show ?thesis
      by (simp add: get_atom_header_def atom_bytes_def sees_simps)
  next
    case False
    with assms(1) have "get8 b i = Some (ERL_ATOM_UTF8_EXT, i + 1)"
      "sees b (i + 1) (be16 (of_nat (length body) :: u32))"
      by (simp_all add: atom_bytes_def sees_simps)
    with False l16 show ?thesis
      by (auto simp: get_atom_header_def dest!: sees_getters)
  qed
  show "sees b (i + (if small then 2 else 3)) body"
    using assms(1) by (auto simp: atom_bytes_def sees_Cons sees_append ac_simps split: if_splits)
qed

lemma ei_decode_atom_as_utf8:
  assumes "sees b i (atom_bytes small body)" and "length body < (if small then 256 else 65536)"
    and "want = ERLANG_UTF8 \<or> want = ERLANG_ASCII \<and> all_ascii body"
    and "int (length body) < destlen"
  shows "ei_decode_atom_as b i destlen want = Some (Done (body @ [0], ERLANG_UTF8,
    if all_ascii body then ERLANG_ASCII else ERLANG_UTF8), i + int (length (atom_bytes small body)))"
proof -
  have "list_ex (\<lambda>c. c AND 0x80 \<noteq> 0) body \<longleftrightarrow> \<not> all_ascii body"
    by (auto simp: all_ascii_def list_ex_iff list_all_iff)
  then show ?thesis
    using get_atom_header_sees [OF assms(1,2)] assms(3,4)
    by (auto simp: ei_decode_atom_as_def read_bytes_sees)
qed

lemma ei_decode_atom_as_latin1:
  assumes "sees b i (atom_bytes small (utf8_of_latin1 name))"
    and "length (utf8_of_latin1 name) < (if small then 256 else 65536)"
    and "int (length name) < destlen"
  shows "ei_decode_atom_as b i destlen ERLANG_LATIN1 = Some (Done (name @ [0], ERLANG_UTF8,
    if all_ascii name then ERLANG_ASCII else ERLANG_LATIN1),
    i + int (length (atom_bytes small (utf8_of_latin1 name))))"
  using get_atom_header_sees [OF assms(1,2)] assms(3)
    utf8_to_latin1_ok [of b "i + (if small then 2 else 3)" name "destlen - 1"]
  by (auto simp: ei_decode_atom_as_def split: if_splits)

lemma latin1_tag:
  "length name < 256 \<Longrightarrow>
   length (utf8_of_latin1 name) < (if length name < 128 then 256 else 65536)"
  using length_utf8_of_latin1(2) [of name] by auto

interpretation codec_atom:
  ei_codec "\<lambda>buf i. ei_encode_atom_len buf i (name @ rest) (int (length name))" ei_decode_atom
    "atom_bytes (length name < 128) (utf8_of_latin1 (take 255 name))" "take 255 name @ [0]"
  for name rest
proof -
  have m: "length (take 255 name) < 256" "(length (take 255 name) < 128) = (length name < 128)" by auto
  have x: "ext_atom (take 255 name) ERLANG_LATIN1 =
      Some (atom_bytes (length name < 128) (utf8_of_latin1 (take 255 name)))"
    using m by (simp add: ext_atom_def)
  have n: "name @ rest = take 255 name @ (drop 255 name @ rest)" by simp
  have "(if MAXATOMLEN \<le> int (length name) then MAXATOMLEN - 1 else int (length name))
      = int (length (take 255 name))" by auto
  then have e: "ei_encode_atom_len buf i (name @ rest) (int (length name)) =
      ei_encode_atom_len_as buf i (take 255 name @ (drop 255 name @ rest))
        (int (length (take 255 name))) ERLANG_LATIN1 0" for buf i
    unfolding ei_encode_atom_len_def by (simp only: n [symmetric])
  note len = latin1_tag [OF m(1), unfolded m(2)]
  show "ei_codec (\<lambda>buf i. ei_encode_atom_len buf i (name @ rest) (int (length name))) ei_decode_atom
    (atom_bytes (length name < 128) (utf8_of_latin1 (take 255 name))) (take 255 name @ [0])"
  proof
    fix b i
    assume s: "sees b i (atom_bytes (length name < 128) (utf8_of_latin1 (take 255 name)))"
    show "ei_decode_atom b i = Some (Done (take 255 name @ [0]),
        i + int (length (atom_bytes (length name < 128) (utf8_of_latin1 (take 255 name)))))"
      using ei_decode_atom_as_latin1 [OF s len, of MAXATOMLEN] m(1)
      by (simp add: ei_decode_atom_def)
  qed (use enc_atom.size_pass [OF x] enc_atom.write_pass [OF x] in \<open>auto simp: e\<close>)
qed

lemma true_name_ascii [simp]: "all_ascii true_name" "all_ascii false_name"
  by (simp_all add: true_name_def false_name_def)

interpretation codec_boolean:
  ei_codec "\<lambda>buf i. ei_encode_boolean buf i p" ei_decode_boolean "ext_boolean p" p for p
proof
  fix b :: bytes and i :: int
  assume s: "sees b i (ext_boolean p)"
  then show "ei_decode_boolean b i = Some (Done p, i + int (length (ext_boolean p)))"
    using ei_decode_atom_as_utf8 [of b i True "if p then true_name else false_name" ERLANG_ASCII 6]
    by (auto simp: ei_decode_boolean_def ext_boolean_def true_name_def false_name_def)
qed (auto simp: ei_encode_boolean_def ext_boolean_def atom_bytes_def true_name_def false_name_def
     buf_simps Let_def)

text \<open>What the converters store, on any input.\<close>

lemma ascii_words_length:
  "ascii_words mem src (src + 8 * int k) out = Some out' \<Longrightarrow> length out' \<le> length out + 8 * k"
proof (induction k arbitrary: src out)
  case 0
  then show ?case by (subst (asm) ascii_words.simps) simp
next
  case (Suc k)
  have e: "src + 8 * int (Suc k) = src + 8 + 8 * int k" by simp
  from Suc.prems obtain w s where g: "get64be mem src = Some (w, s)"
    by (subst (asm) ascii_words.simps) (cases "get64be mem src", auto)
  show ?case
  proof (cases "w AND ASCII_CHECK_MASK = 0")
    case True
    with Suc.prems have "ascii_words mem (src + 8) (src + 8 + 8 * int k) (out @ be64 w) = Some out'"
      unfolding e by (subst (asm) ascii_words.simps) (simp add: g)
    from Suc.IH [OF this] show ?thesis by simp
  next
    case False
    with Suc.prems show ?thesis by (subst (asm) ascii_words.simps) (simp add: g)
  qed
qed

lemma ascii_fast_track_length:
  assumes "ascii_fast_track mem src slen destlen = Some out" and "0 \<le> destlen"
  shows "int (length out) \<le> destlen"
proof (cases "0 \<le> slen \<and> slen \<le> destlen")
  case True
  have "slen div 8 * 8 = 8 * int (nat (slen div 8))" using True by simp
  with assms True have "length out \<le> 8 * nat (slen div 8)"
    using ascii_words_length [of mem src "nat (slen div 8)" "[]" out]
    by (simp add: ascii_fast_track_def)
  moreover have "8 * int (nat (slen div 8)) \<le> slen" using True by linarith
  ultimately show ?thesis using True by linarith
next
  case False
  then have "out = []" using assms
    by (auto simp: ascii_fast_track_def ascii_words.simps [of mem src] split: if_splits)
  then show ?thesis using assms(2) by simp
qed

lemma latin1_to_utf8_loop_length:
  "latin1_to_utf8_loop mem src src_end destlen out f = Some (n, out', enc) \<Longrightarrow>
   int (length out) \<le> destlen + 1 \<Longrightarrow> int (length out') \<le> destlen + 1 \<and> (0 \<le> n \<longrightarrow> n = int (length out'))"
proof (induction mem src src_end destlen out f rule: latin1_to_utf8_loop.induct)
  case (1 mem src src_end destlen out f)
  show ?case
  proof (cases "src < src_end \<and> int (length out) < destlen")
    case False
    with "1.prems" show ?thesis
      by (auto simp: latin1_to_utf8_loop.simps [of mem src src_end] split: if_splits)
  next
    case True
    with "1.prems"(1) obtain ch s where g: "get8 mem src = Some (ch, s)"
      by (cases "get8 mem src") (auto simp: latin1_to_utf8_loop.simps [of mem src src_end])
    show ?thesis
    proof (cases "ch AND 0x80 = 0")
      case c: True
      with "1.prems"(1) True g "1.IH"(1) [OF _ _ g refl c] show ?thesis
        by (auto simp: latin1_to_utf8_loop.simps [of mem src src_end])
    next
      case c: False
      with "1.prems"(1) True g "1.IH"(2) [OF _ _ g refl c] show ?thesis
        by (auto simp: latin1_to_utf8_loop.simps [of mem src src_end])
    qed
  qed
qed

lemma utf8_to_latin1_loop_length:
  "utf8_to_latin1_loop mem src slen destlen out f = Some (n, out', enc) \<Longrightarrow>
   int (length out) \<le> destlen \<Longrightarrow> int (length out') \<le> destlen \<and> (0 \<le> n \<longrightarrow> n = int (length out'))"
proof (induction mem src slen destlen out f rule: utf8_to_latin1_loop.induct)
  case (1 mem src slen destlen out f)
  show ?case
  proof (cases "0 < slen \<and> int (length out) < destlen")
    case False
    with "1.prems" show ?thesis
      by (auto simp: utf8_to_latin1_loop.simps [of mem src slen] split: if_splits)
  next
    case True
    then have t: "0 < slen" "\<not> destlen \<le> int (length out)" by auto
    from True "1.prems"(1) obtain c0 s where g: "get8 mem src = Some (c0, s)"
      by (cases "get8 mem src") (auto simp: utf8_to_latin1_loop.simps [of mem src slen])
    show ?thesis
    proof (cases "c0 AND 0x80 = 0")
      case c: True
      with "1.prems"(1) True g "1.IH"(1) [OF t g refl c] show ?thesis
        by (auto simp: utf8_to_latin1_loop.simps [of mem src slen])
    next
      case c: False
      with "1.prems" True g "1.IH"(2) [OF t g refl c] show ?thesis
        by (auto simp: utf8_to_latin1_loop.simps [of mem src slen]
            split: if_splits Option.bind_splits)
    qed
  qed
qed

lemma latin1_to_utf8_length:
  assumes "latin1_to_utf8 mem src slen destlen = Some (n, out, enc)" and "0 \<le> destlen" and "0 \<le> n"
  shows "int (length out) \<le> destlen + 1"
  using assms by (auto simp: latin1_to_utf8_def split: Option.bind_splits
      dest!: ascii_fast_track_length latin1_to_utf8_loop_length)

lemma utf8_to_latin1_length:
  assumes "utf8_to_latin1 mem src slen destlen = Some (n, out, enc)" and "0 \<le> destlen" and "0 \<le> n"
  shows "int (length out) \<le> destlen"
  using assms by (auto simp: utf8_to_latin1_def split: Option.bind_splits
      dest!: ascii_fast_track_length utf8_to_latin1_loop_length)



section \<open>Properties\<close>

text \<open>
  C14. An atom whose name is given in Latin-1 is encoded in the room the sizing pass asks for and
  decoded to the same name, cut at 255 characters, with its terminating zero; the bytes around it
  are unchanged.
\<close>

theorem ei_atom_round_trip:
  assumes "ei_encode_atom_len None i name (int (length name)) = Some (0, None, j)"
    and "0 \<le> i" and "j \<le> int (length b)"
  shows "\<exists>b'. ei_encode_atom_len (Some b) i name (int (length name)) = Some (0, Some b', j)
    \<and> ei_decode_atom b' i = Some (Done (take 255 name @ [0]), j) \<and> length b' = length b
    \<and> take (nat i) b' = take (nat i) b \<and> drop (nat j) b' = drop (nat j) b"
  using codec_atom.round_trip [of i name "[]" j b] assms by simp

theorem ei_atom_round_trip_witness:
  "\<exists>b'. ei_encode_atom_len (Some (replicate 8 0)) 1 [0x61, 0xE9] 2 = Some (0, Some b', 6)
    \<and> ei_decode_atom b' 1 = Some (Done [0x61, 0xE9, 0], 6)"
proof -
  have "ei_encode_atom_len None 1 [0x61, 0xE9] (int (length [0x61, 0xE9 :: u8])) = Some (0, None, 6)"
    by (simp add: ei_encode_atom_len_def ei_encode_atom_len_as_def latin1_to_utf8_def
        ascii_fast_track_def ascii_words.simps latin1_to_utf8_loop.simps get8_def put_at_def
        put_atom_header_def)
  from ei_atom_round_trip [OF this, of "replicate 8 0"] show ?thesis by auto
qed

text \<open>
  C15. The word-at-a-time copy of ASCII prefixes changes nothing: both converters return the same
  code, the same bytes and the same encoding as their byte loops alone.
\<close>

theorem converters_fast_track:
  assumes "sees mem src xs" and "0 \<le> destlen"
  shows "latin1_to_utf8 mem src (int (length xs)) destlen =
      latin1_to_utf8_aligned mem src (int (length xs)) destlen
    \<and> utf8_to_latin1 mem src (int (length xs)) destlen =
      utf8_to_latin1_aligned mem src (int (length xs)) destlen"
  using assms by (simp add: latin1_to_utf8_slow utf8_to_latin1_slow)

theorem converters_fast_track_witness:
  "latin1_to_utf8 [0x61, 0x62, 0x63, 0x64, 0x65, 0x66, 0x67, 0x68, 0x69, 0xE9] 0 10 20 =
     latin1_to_utf8_aligned [0x61, 0x62, 0x63, 0x64, 0x65, 0x66, 0x67, 0x68, 0x69, 0xE9] 0 10 20
   \<and> ascii_fast_track [0x61, 0x62, 0x63, 0x64, 0x65, 0x66, 0x67, 0x68, 0x69, 0xE9] 0 10 20 = Some [0x61, 0x62, 0x63, 0x64, 0x65, 0x66, 0x67, 0x68]"
proof -
  have "ascii_fast_track [0x61, 0x62, 0x63, 0x64, 0x65, 0x66, 0x67, 0x68, 0x69, 0xE9] 0 10 20 = Some [0x61, 0x62, 0x63, 0x64, 0x65, 0x66, 0x67, 0x68]"
    by (simp add: ascii_fast_track_def ascii_words.simps get64be_def get8_def be64_def)
  moreover have "sees ([0x61, 0x62, 0x63, 0x64, 0x65, 0x66, 0x67, 0x68, 0x69, 0xE9] :: bytes) 0 [0x61, 0x62, 0x63, 0x64, 0x65, 0x66, 0x67, 0x68, 0x69, 0xE9]"
    by (simp add: sees_def)
  ultimately show ?thesis
    using converters_fast_track [of "[0x61, 0x62, 0x63, 0x64, 0x65, 0x66, 0x67, 0x68, 0x69, 0xE9]" 0 "[0x61, 0x62, 0x63, 0x64, 0x65, 0x66, 0x67, 0x68, 0x69, 0xE9]" 20]
    by simp
qed

text \<open>
  C16. \<open>utf8_to_latin1\<close> accepts exactly the UTF-8 form of the Latin-1 strings of at most
  \<open>destlen\<close> characters, and then stores this string and returns its length; on every other
  source it returns \<open>-1\<close>.
\<close>

theorem utf8_to_latin1_exact:
  assumes "sees mem src xs" and "0 \<le> destlen"
  shows "\<exists>n out enc. utf8_to_latin1 mem src (int (length xs)) destlen = Some (n, out, enc)
    \<and> (if xs \<in> utf8_of_latin1 ` {ys. int (length ys) \<le> destlen}
       then xs = utf8_of_latin1 out \<and> n = int (length out) \<and> int (length out) \<le> destlen
         \<and> enc = (if all_ascii out then ERLANG_ASCII else ERLANG_LATIN1)
       else n = -1)"
proof (cases "xs \<in> utf8_of_latin1 ` {ys. int (length ys) \<le> destlen}")
  case True
  with utf8_to_latin1_ok [of mem src _ destlen] assms show ?thesis by auto
next
  case False
  with utf8_to_latin1_fail [OF assms] show ?thesis by auto
qed

theorem utf8_to_latin1_exact_witness:
  "\<exists>n out enc. utf8_to_latin1 [0x61, 0xC3, 0xA9] 0 3 2 = Some (n, out, enc)
    \<and> [0x61, 0xC3, 0xA9] = utf8_of_latin1 out \<and> n = int (length out)"
proof -
  have "[0x61, 0xC3, 0xA9] = utf8_of_latin1 [0x61, 0xE9]" by (simp add: latin1_char_def)
  then have "[0x61, 0xC3, 0xA9] \<in> utf8_of_latin1 ` {ys. int (length ys) \<le> 2}"
    by (intro image_eqI [of _ _ "[0x61, 0xE9]"]) simp_all
  with utf8_to_latin1_exact [of "[0x61, 0xC3, 0xA9]" 0 "[0x61, 0xC3, 0xA9]" 2]
  show ?thesis by (auto simp: sees_def)
qed


text \<open>
  C18. A successful \<open>ei_decode_atom_as\<close> leaves a string that ends in a zero and has at most
  \<open>destlen\<close> bytes with it, whatever the input bytes are, unless a Latin-1 atom is converted to
  UTF-8: then it may store one byte more than \<open>destlen\<close>, and no more than that.
\<close>

theorem ei_decode_atom_as_stores:
  assumes "ei_decode_atom_as b i destlen want = Some (Done (p, was, res), j)" and "0 < destlen"
  shows "last p = 0 \<and> int (length p) \<le>
    (if want AND was \<noteq> 0 \<or> want = ERLANG_ASCII \<or> was = ERLANG_UTF8 then destlen else destlen + 1)"
proof -
  from assms(1) obtain len s where h: "get_atom_header b i = Some (Done (len, was), s)"
    by (auto simp: ei_decode_atom_as_def Let_def
        split: Option.bind_splits cret.splits prod.splits if_splits)
  have len: "0 \<le> len" and was: "was = ERLANG_LATIN1 \<or> was = ERLANG_UTF8"
    using h by (auto simp: get_atom_header_def split: Option.bind_splits if_splits)
  show ?thesis
  proof (cases "want AND was \<noteq> 0 \<or> want = ERLANG_ASCII")
    case True
    with assms(1) h len show ?thesis
      by (auto simp: ei_decode_atom_as_def read_bytes_def Let_def split: Option.bind_splits if_splits)
  next
    case False
    from was show ?thesis
    proof
      assume "was = ERLANG_LATIN1"
      with False assms h show ?thesis
        by (auto simp: ei_decode_atom_as_def split: Option.bind_splits if_splits
            dest!: latin1_to_utf8_length)
    next
      assume "was = ERLANG_UTF8"
      with False assms h show ?thesis
        by (auto simp: ei_decode_atom_as_def split: Option.bind_splits if_splits
            dest!: utf8_to_latin1_length)
    qed
  qed
qed

theorem ei_decode_atom_as_stores_witness:
  "\<exists>p was res j. ei_decode_atom_as [ERL_SMALL_ATOM_EXT, 1, 0x61] 0 2 ERLANG_UTF8 = Some (Done (p, was, res), j)
    \<and> last p = 0 \<and> int (length p) \<le> 2 + 1"
proof -
  have "ei_decode_atom_as [ERL_SMALL_ATOM_EXT, 1, 0x61] 0 2 ERLANG_UTF8
      = Some (Done ([0x61, 0], ERLANG_LATIN1, ERLANG_ASCII), 3)"
    by (simp add: ei_decode_atom_as_def get_atom_header_def get8_def latin1_to_utf8_def
        ascii_fast_track_def ascii_words.simps latin1_to_utf8_loop.simps)
  from ei_decode_atom_as_stores [OF this] this show ?thesis by auto
qed

text \<open>
  C39. The extra byte is reached: for every Latin-1 atom that has 1021 bytes as UTF-8 and ends with a character
  outside ASCII, \<open>get_atom\<close> succeeds and stores 1022 bytes, while the \<open>node\<close> arrays it is called with
  have \<open>MAXATOMLEN_UTF8\<close> = 1021.
\<close>

theorem get_atom_stores_1022:
  assumes "sees b i (ERL_ATOM_EXT # be16 (of_nat (length nm) :: u16) @ nm)" and "length (utf8_of_latin1 nm) = 1021"
    and "nm \<noteq> []" and "last nm AND 0x80 \<noteq> 0"
  shows "get_atom b i = Some (Done (utf8_of_latin1 nm @ [0], ERLANG_LATIN1), i + 3 + int (length nm))
    \<and> int (length (utf8_of_latin1 nm @ [0])) = MAXATOMLEN_UTF8 + 1"
proof -
  have "utf8_of_latin1 nm = utf8_of_latin1 (butlast nm) @ latin1_char (last nm)"
    using assms(3) utf8_of_latin1_simps(3) [of "butlast nm" "[last nm]"] by simp
  then have len: "length (utf8_of_latin1 (butlast nm)) = 1019" using assms(2,4) by (simp add: latin1_char_def)
  have ln: "length nm \<le> 1021" using length_utf8_of_latin1(1) [of nm] assms(2) by simp
  have s: "sees b (i + 3) nm" and t: "get8 b i = Some (ERL_ATOM_EXT, i + 1)"
    and l: "sees b (i + 1) (be16 (of_nat (length nm) :: u16))"
    using assms(1) unfolding sees_Cons sees_append by (simp_all add: get8_def sees_Cons add.commute)
  have "uint (of_nat (length nm) :: u16) = int (length nm)" using ln by (simp add: unsigned_of_nat take_bit_nat_eq_self)
  with l t have h: "get_atom_header b i = Some (Done (int (length nm), ERLANG_LATIN1), i + 3)"
    by (auto simp: get_atom_header_def dest!: sees_getters)
  have "\<not> all_ascii nm" using assms(3,4) by (auto simp: all_ascii_def list_all_iff)
  then have "latin1_to_utf8 b (i + 3) (int (length nm)) 1020 = Some (1021, utf8_of_latin1 nm, ERLANG_UTF8)"
    by (subst latin1_to_utf8_ok [OF s]) (simp_all add: len assms(2))
  with h assms(2) show ?thesis
    by (simp add: get_atom_def ei_decode_atom_as_def)
qed

theorem get_atom_stores_1022_witness:
  "\<exists>p. get_atom (ERL_ATOM_EXT # be16 (511 :: u16) @ 0x61 # replicate 510 0xE9) 0 =
      Some (Done (p, ERLANG_LATIN1), 514) \<and> int (length p) = MAXATOMLEN_UTF8 + 1"
proof -
  let ?nm = "0x61 # replicate 510 (0xE9 :: u8)"
  have "length (utf8_of_latin1 (replicate n 0xE9)) = 2 * n" for n
    by (induction n) (simp_all add: latin1_char_def)
  then have "length (utf8_of_latin1 ?nm) = 1021" by (simp only: utf8_of_latin1_simps) (simp add: latin1_char_def)
  moreover have "sees xs 0 xs" for xs :: bytes by (simp add: sees_def)
  ultimately show ?thesis using get_atom_stores_1022 [of _ 0 ?nm] by auto
qed

text \<open>
  Two observations on \<open>ei_decode_boolean\<close>: an atom whose name is \<open>true\<close> followed by a zero byte
  is taken for the atom \<open>true\<close>, and after another atom the index has moved although the result
  is \<open>-1\<close>.
\<close>

lemma ei_decode_boolean_true_zero:
  "ei_decode_boolean [ERL_SMALL_ATOM_UTF8_EXT, 5, 0x74, 0x72, 0x75, 0x65, 0] 0 = Some (Done True, 7)"
  by (simp add: ei_decode_boolean_def ei_decode_atom_as_def get_atom_header_def get8_def
      read_bytes_def true_name_def)

lemma ei_decode_boolean_moves_on_failure:
  "ei_decode_boolean [ERL_SMALL_ATOM_UTF8_EXT, 2, 0x6F, 0x6B] 0 = Some (Fail, 4)"
  by (simp add: ei_decode_boolean_def ei_decode_atom_as_def get_atom_header_def get8_def
      read_bytes_def true_name_def false_name_def)

end
