(* ===== verification/Ei_Compound.thy ===== *)
theory Ei_Compound
  imports Ei_Buffer
begin

text \<open>
  The headers of tuples, maps and lists, strings, the version byte and floats:
  \<open>encode_tuple_header.c\<close>, \<open>encode_list_header.c\<close>, \<open>encode_string.c\<close>, \<open>encode_version.c\<close>,
  \<open>encode_double.c\<close> and their decoders.  An arity is a C \<open>int\<close>, kept as a 32-bit word and read
  with \<^const>\<open>sint\<close>; a double is its 64-bit pattern.  The pointers the decoders store through
  are taken to be given, except where a \<open>NULL\<close> changes what is read.
\<close>

section \<open>Headers\<close>

definition ei_encode_tuple_header :: "bytes option \<Rightarrow> int \<Rightarrow> u32 \<Rightarrow> enc_res" where
  "ei_encode_tuple_header buf index arity =
     (if sint arity < 0 then Some (-1, buf, index)
      else if sint arity \<le> 0xff then
        (case buf of
           None \<Rightarrow> Some (0, None, index + 2)
         | Some b \<Rightarrow> do {
             (b, s) \<leftarrow> put8 b index ERL_SMALL_TUPLE_EXT;
             (b, s) \<leftarrow> put8 b s arity;
             Some (0, Some b, s) })
      else
        (case buf of
           None \<Rightarrow> Some (0, None, index + 5)
         | Some b \<Rightarrow> do {
             (b, s) \<leftarrow> put8 b index ERL_LARGE_TUPLE_EXT;
             (b, s) \<leftarrow> put32be b s arity;
             Some (0, Some b, s) }))"

definition ei_encode_map_header :: "bytes option \<Rightarrow> int \<Rightarrow> u32 \<Rightarrow> enc_res" where
  "ei_encode_map_header buf index arity =
     (if sint arity < 0 then Some (-1, buf, index)
      else
        (case buf of
           None \<Rightarrow> Some (0, None, index + 5)
         | Some b \<Rightarrow> do {
             (b, s) \<leftarrow> put8 b index ERL_MAP_EXT;
             (b, s) \<leftarrow> put32be b s arity;
             Some (0, Some b, s) }))"

definition ei_encode_list_header :: "bytes option \<Rightarrow> int \<Rightarrow> u32 \<Rightarrow> enc_res" where
  "ei_encode_list_header buf index arity =
     (if sint arity < 0 then Some (-1, buf, index)
      else if sint arity > 0 then
        (case buf of
           None \<Rightarrow> Some (0, None, index + 5)
         | Some b \<Rightarrow> do {
             (b, s) \<leftarrow> put8 b index ERL_LIST_EXT;
             (b, s) \<leftarrow> put32be b s arity;
             Some (0, Some b, s) })
      else
        (case buf of
           None \<Rightarrow> Some (0, None, index + 1)
         | Some b \<Rightarrow> do {
             (b, s) \<leftarrow> put8 b index ERL_NIL_EXT;
             Some (0, Some b, s) }))"

definition ei_decode_tuple_header :: "bytes \<Rightarrow> int \<Rightarrow> u32 dec_res" where
  "ei_decode_tuple_header buf index = do {
     (i, s) \<leftarrow> get8 buf index;
     (if i = ERL_SMALL_TUPLE_EXT then do {
        (arity, s) \<leftarrow> get8 buf s; Some (Done (ucast arity), s) }
      else if i = ERL_LARGE_TUPLE_EXT then do {
        (arity, s) \<leftarrow> get32be buf s; Some (Done arity, s) }
      else Some (Fail, index)) }"

definition ei_decode_map_header :: "bytes \<Rightarrow> int \<Rightarrow> u32 dec_res" where
  "ei_decode_map_header buf index = do {
     (i, s) \<leftarrow> get8 buf index;
     (if i = ERL_MAP_EXT then do {
        (arity, s) \<leftarrow> get32be buf s; Some (Done arity, s) }
      else Some (Fail, index)) }"

definition ei_decode_list_header :: "bytes \<Rightarrow> int \<Rightarrow> u32 dec_res" where
  "ei_decode_list_header buf index = do {
     (i, s) \<leftarrow> get8 buf index;
     (if i = ERL_NIL_EXT then Some (Done 0, s)
      else if i = ERL_LIST_EXT then do {
        (arity, s) \<leftarrow> get32be buf s; Some (Done arity, s) }
      else Some (Fail, index)) }"

section \<open>Strings\<close>

text \<open>The loop of \<open>ei_encode_string_len\<close> that writes a long string as a list.\<close>

function put_char_elems :: "bytes \<Rightarrow> int \<Rightarrow> bytes \<Rightarrow> int \<Rightarrow> int \<Rightarrow> (bytes \<times> int) option" where
  "put_char_elems b s p i len =
     (if i < len then do {
        (c, _) \<leftarrow> get8 p i;
        (b, s) \<leftarrow> put8 b s ERL_SMALL_INTEGER_EXT;
        (b, s) \<leftarrow> put8 b s c;
        put_char_elems b s p (i + 1) len }
      else Some (b, s))"
  by pat_completeness auto
termination
  by (relation "measure (\<lambda>(b, s, p, i, len). nat (len - i))") auto

declare put_char_elems.simps [simp del]

definition ei_encode_string_len :: "bytes option \<Rightarrow> int \<Rightarrow> bytes \<Rightarrow> int \<Rightarrow> enc_res" where
  "ei_encode_string_len buf index p len =
     (if len = 0 then
        (case buf of
           None \<Rightarrow> Some (0, None, index + 1)
         | Some b \<Rightarrow> do {
             (b, s) \<leftarrow> put8 b index ERL_NIL_EXT;
             Some (0, Some b, s) })
      else if len \<le> 0xffff then
        (case buf of
           None \<Rightarrow> Some (0, None, index + 3 + len)
         | Some b \<Rightarrow> do {
             (b, s) \<leftarrow> put8 b index ERL_STRING_EXT;
             (b, s) \<leftarrow> put16be b s (word_of_int len :: u32);
             xs \<leftarrow> read_bytes p 0 len;
             (b, s) \<leftarrow> put_bytes b s xs;
             Some (0, Some b, s) })
      else
        (case buf of
           None \<Rightarrow> Some (0, None, index + (5 + 2 * len + 1))
         | Some b \<Rightarrow> do {
             (b, s) \<leftarrow> put8 b index ERL_LIST_EXT;
             (b, s) \<leftarrow> put32be b s (word_of_int len :: u32);
             (b, s) \<leftarrow> put_char_elems b s p 0 len;
             (b, s) \<leftarrow> put8 b s ERL_NIL_EXT;
             Some (0, Some b, s) }))"

definition ei_encode_string :: "bytes option \<Rightarrow> int \<Rightarrow> bytes \<Rightarrow> enc_res" where
  "ei_encode_string buf index p = do {
     len \<leftarrow> c_strlen p;
     (if INT_MAX \<le> len then Some (-1, buf, index)
      else ei_encode_string_len buf index p len) }"

text \<open>The loops of \<open>ei_decode_string\<close> over a list of small integers, with the stored characters.\<close>

function get_char_elems :: "bytes \<Rightarrow> int \<Rightarrow> int \<Rightarrow> bytes \<Rightarrow> (bytes cret \<times> int) option" where
  "get_char_elems buf s n out =
     (if 0 < n then do {
        (etype, s) \<leftarrow> get8 buf s;
        (if etype \<noteq> ERL_SMALL_INTEGER_EXT then Some (Fail, s)
         else do {
           (c, s) \<leftarrow> get8 buf s;
           get_char_elems buf s (n - 1) (out @ [c]) }) }
      else Some (Done out, s))"
  by pat_completeness auto
termination
  by (relation "measure (\<lambda>(buf, s, n, out). nat n)") auto

declare get_char_elems.simps [simp del]

text \<open>
  The stored string comes with its terminating zero.  With \<open>p\<close> \<open>NULL\<close> (\<open>store\<close> is false) the
  characters of a string are skipped without being read; those of a list lie before a byte that is
  read in either case.
\<close>

definition ei_decode_string :: "bool \<Rightarrow> bytes \<Rightarrow> int \<Rightarrow> bytes dec_res" where
  "ei_decode_string store buf index = do {
     (t, s) \<leftarrow> get8 buf index;
     (if t = ERL_STRING_EXT then do {
        (len, s) \<leftarrow> get16be buf s;
        xs \<leftarrow> (if store then read_bytes buf s (uint len) else Some []);
        Some (Done (xs @ [0]), s + uint len) }
      else if t = ERL_LIST_EXT then do {
        (len, s) \<leftarrow> get32be buf s;
        (r, s) \<leftarrow> get_char_elems buf s (sint len) [];
        (case r of
           Fail \<Rightarrow> Some (Fail, index)
         | Done xs \<Rightarrow> do {
             (etype, s) \<leftarrow> get8 buf s;
             (if etype \<noteq> ERL_NIL_EXT then Some (Fail, index) else Some (Done (xs @ [0]), s)) }) }
      else if t = ERL_NIL_EXT then Some (Done [0], s)
      else Some (Fail, index)) }"

section \<open>Version and floats\<close>

definition ei_encode_version :: "bytes option \<Rightarrow> int \<Rightarrow> enc_res" where
  "ei_encode_version buf index =
     (case buf of
        None \<Rightarrow> Some (0, None, index + 1)
      | Some b \<Rightarrow> do { (b, s) \<leftarrow> put8 b index ERL_VERSION_MAGIC; Some (0, Some b, s) })"

definition ei_decode_version :: "bytes \<Rightarrow> int \<Rightarrow> u8 dec_res" where
  "ei_decode_version buf index = do {
     (v, s) \<leftarrow> get8 buf index;
     (if v \<noteq> ERL_VERSION_MAGIC then Some (Fail, index) else Some (Done v, s)) }"

text \<open>\<open>isfinite\<close> on the bit pattern of a double: the exponent is not all ones.\<close>

definition isfinite :: "u64 \<Rightarrow> bool" where
  "isfinite d \<longleftrightarrow> drop_bit 52 d AND 0x7FF \<noteq> 0x7FF"

definition ei_encode_double :: "bytes option \<Rightarrow> int \<Rightarrow> u64 \<Rightarrow> enc_res" where
  "ei_encode_double buf index p =
     (if \<not> isfinite p then Some (-1, buf, index)
      else
        (case buf of
           None \<Rightarrow> Some (0, None, index + 9)
         | Some b \<Rightarrow> do {
             (b, s) \<leftarrow> put8 b index NEW_FLOAT_EXT;
             (b, s) \<leftarrow> put64be b s p;
             Some (0, Some b, s) }))"

text \<open>
  The textual format is read with \<open>sscanf(s, "%lf", ...)\<close>, the parameter \<open>sscanf_lf\<close>: given the
  bytes from \<open>s\<close> on, it is \<open>None\<close> when nothing is converted.
\<close>

definition ei_decode_double :: "(bytes \<Rightarrow> u64 option) \<Rightarrow> bytes \<Rightarrow> int \<Rightarrow> u64 dec_res" where
  "ei_decode_double sscanf_lf buf index = do {
     (t, s) \<leftarrow> get8 buf index;
     (if t = ERL_FLOAT_EXT then
        (case sscanf_lf (drop (nat s) buf) of
           None \<Rightarrow> Some (Fail, index)
         | Some d \<Rightarrow> Some (Done d, s + 31))
      else if t = NEW_FLOAT_EXT then do {
        (d, s) \<leftarrow> get64be buf s; Some (Done d, s) }
      else Some (Fail, index)) }"

section \<open>External representations\<close>

definition ext_tuple_header :: "u32 \<Rightarrow> bytes option" where
  [ext_defs]: "ext_tuple_header arity =
     (if sint arity < 0 then None
      else if sint arity \<le> 0xff then Some [ERL_SMALL_TUPLE_EXT, ucast arity]
      else Some (ERL_LARGE_TUPLE_EXT # be32 arity))"

definition ext_map_header :: "u32 \<Rightarrow> bytes option" where
  [ext_defs]: "ext_map_header arity = (if sint arity < 0 then None else Some (ERL_MAP_EXT # be32 arity))"

definition ext_list_header :: "u32 \<Rightarrow> bytes option" where
  [ext_defs]: "ext_list_header arity =
     (if sint arity < 0 then None
      else if arity = 0 then Some [ERL_NIL_EXT]
      else Some (ERL_LIST_EXT # be32 arity))"

definition ext_string :: "bytes \<Rightarrow> bytes" where
  "ext_string xs =
     (if xs = [] then [ERL_NIL_EXT]
      else if length xs \<le> 0xffff then ERL_STRING_EXT # be16 (of_nat (length xs) :: u32) @ xs
      else ERL_LIST_EXT # be32 (of_nat (length xs) :: u32)
        @ concat (map (\<lambda>c. [ERL_SMALL_INTEGER_EXT, c]) xs) @ [ERL_NIL_EXT])"

definition ext_double :: "u64 \<Rightarrow> bytes option" where
  [ext_defs]: "ext_double d = (if isfinite d then Some (NEW_FLOAT_EXT # be64 d) else None)"

lemma sint_nonneg_small:
  fixes arity :: u32
  assumes "0 \<le> sint arity" and "sint arity \<le> 0xff"
  shows "ucast (ucast arity :: u8) = arity"
  using assms uint_of_sint(2) [of arity] by (intro ucast_u8_id) simp

interpretation codec_tuple_header:
  ei_partial_codec "\<lambda>buf i. ei_encode_tuple_header buf i arity" "ext_tuple_header arity"
    ei_decode_tuple_header arity for arity
proof
  fix bs b i assume "ext_tuple_header arity = Some bs" "sees b i bs"
  then show "ei_decode_tuple_header b i = Some (Done arity, i + int (length bs))"
    using sint_nonneg_small [of arity]
    by (auto simp: ext_tuple_header_def ei_decode_tuple_header_def sees_simps
        split: if_splits dest!: sees_getters)
qed (auto simp: ei_encode_tuple_header_def ext_tuple_header_def buf_simps split: if_splits)

interpretation codec_map_header:
  ei_partial_codec "\<lambda>buf i. ei_encode_map_header buf i arity" "ext_map_header arity"
    ei_decode_map_header arity for arity
proof
  fix bs b i assume "ext_map_header arity = Some bs" "sees b i bs"
  then show "ei_decode_map_header b i = Some (Done arity, i + int (length bs))"
    by (auto simp: ext_map_header_def ei_decode_map_header_def sees_simps
        split: if_splits dest!: sees_getters)
qed (auto simp: ei_encode_map_header_def ext_map_header_def buf_simps split: if_splits)

lemma sint_eq_0: "(sint (n :: u32) = 0) = (n = 0)"
  by (rule signed_eq_0_iff)

interpretation codec_list_header:
  ei_partial_codec "\<lambda>buf i. ei_encode_list_header buf i arity" "ext_list_header arity"
    ei_decode_list_header arity for arity
proof
  fix bs b i assume "ext_list_header arity = Some bs" "sees b i bs"
  then show "ei_decode_list_header b i = Some (Done arity, i + int (length bs))"
    by (auto simp: ext_list_header_def ei_decode_list_header_def sees_simps
        split: if_splits dest!: sees_getters)
qed (use sint_eq_0 [of arity] in
     \<open>auto simp: ei_encode_list_header_def ext_list_header_def buf_simps split: if_splits\<close>)

interpretation codec_version:
  ei_codec ei_encode_version ei_decode_version "[ERL_VERSION_MAGIC]" ERL_VERSION_MAGIC
  by unfold_locales
    (auto simp: ei_encode_version_def ei_decode_version_def buf_simps sees_simps)

interpretation codec_double:
  ei_partial_codec "\<lambda>buf i. ei_encode_double buf i d" "ext_double d"
    "ei_decode_double sscanf_lf" d for sscanf_lf d
proof
  fix bs b i assume "ext_double d = Some bs" "sees b i bs"
  then show "ei_decode_double sscanf_lf b i = Some (Done d, i + int (length bs))"
    by (auto simp: ext_double_def ei_decode_double_def sees_simps
        split: if_splits dest!: sees_getters)
qed (auto simp: ei_encode_double_def ext_double_def buf_simps split: if_splits)

section \<open>Strings round trip\<close>

lemma put_char_elems_eq:
  "sees p i xs \<Longrightarrow> put_char_elems b s p i (i + int (length xs)) =
   put_bytes b s (concat (map (\<lambda>c. [ERL_SMALL_INTEGER_EXT, c]) xs))"
proof (induction xs arbitrary: i b s)
  case (Cons c xs)
  then have c: "get8 p i = Some (c, i + 1)" and s: "sees p (i + 1) xs"
    by (simp_all add: sees_Cons get8_def)
  have e: "i + int (length (c # xs)) = i + 1 + int (length xs)" by simp
  show ?case unfolding e
    by (subst put_char_elems.simps)
      (simp add: c Cons.IH [OF s] put8_bytes put_seq flip: put_bytes_append)
qed (simp add: put_char_elems.simps)

lemma get_char_elems_sees:
  "sees b s (concat (map (\<lambda>c. [ERL_SMALL_INTEGER_EXT, c]) xs)) \<Longrightarrow>
   get_char_elems b s (int (length xs)) out = Some (Done (out @ xs), s + 2 * int (length xs))"
proof (induction xs arbitrary: s out)
  case (Cons c xs)
  then show ?case
    by (subst get_char_elems.simps) (simp add: sees_simps)
qed (simp add: get_char_elems.simps)

lemma length_char_elems: "length (concat (map (\<lambda>c. [t, c]) xs)) = 2 * length xs"
  by (induction xs) simp_all

lemma length_ext_string:
  "length (ext_string xs) =
     (if xs = [] then 1 else if length xs \<le> 0xffff then 3 + length xs else 6 + 2 * length xs)"
  by (simp add: ext_string_def length_char_elems)

interpretation enc_string_len:
  ei_encoder "\<lambda>buf i. ei_encode_string_len buf i (xs @ rest) (int (length xs))" "Some (ext_string xs)"
  for xs rest
proof
  have s: "sees (xs @ rest) 0 xs" by (simp add: sees_def)
  fix bs i and b :: bytes
  assume bs: "Some (ext_string xs) = Some bs"
  then show "ei_encode_string_len None i (xs @ rest) (int (length xs)) = Some (0, None, i + int (length bs))"
    by (auto simp: ei_encode_string_len_def length_ext_string)
  assume "0 \<le> i" "i + int (length bs) \<le> int (length b)"
  then show "ei_encode_string_len (Some b) i (xs @ rest) (int (length xs)) =
      Some (0, Some (splice_at b i bs), i + int (length bs))"
    using bs read_bytes_sees [OF s] put_char_elems_eq [OF s] length_char_elems
    by (auto simp: ei_encode_string_len_def ext_string_def buf_simps)
qed simp

lemma ei_decode_string_sees:
  assumes "sees b i (ext_string xs)" and "int (length xs) < INT_MAX"
  shows "ei_decode_string True b i = Some (Done (xs @ [0]), i + int (length (ext_string xs)))"
proof -
  consider "xs = []" | "xs \<noteq> []" "length xs \<le> 0xffff" | "xs \<noteq> []" "\<not> length xs \<le> 0xffff" by blast
  then show ?thesis
  proof cases
    case 1
    with assms(1) show ?thesis by (simp add: ei_decode_string_def ext_string_def sees_simps)
  next
    case 2
    then have "uint (ucast (of_nat (length xs) :: u32) :: u16) = int (length xs)"
      by (simp add: unsigned_ucast_eq unsigned_of_nat take_bit_nat_eq_self flip: of_nat_take_bit)
    with 2 assms(1) show ?thesis
      by (auto simp: ei_decode_string_def ext_string_def sees_simps read_bytes_sees
          dest!: sees_getters)
  next
    case 3
    have l: "sint (of_nat (length xs) :: u32) = int (length xs)"
      using assms(2) by (simp add: INT_MAX_def signed_of_nat signed_take_bit_int_eq_self)
    let ?es = "concat (map (\<lambda>c. [ERL_SMALL_INTEGER_EXT, c]) xs)"
    from 3 assms(1) have t: "get8 b i = Some (ERL_LIST_EXT, i + 1)"
      and "sees b (i + 1) (be32 (of_nat (length xs) :: u32))"
      and "sees b (i + 1 + 4) (?es @ [ERL_NIL_EXT])"
      by (simp_all add: ext_string_def sees_Cons sees_append get8_def)
    then have g: "get32be b (i + 1) = Some (of_nat (length xs), i + 1 + 4)"
      and e: "sees b (i + 1 + 4) ?es" and n: "sees b (i + 1 + 4 + 2 * int (length xs)) [ERL_NIL_EXT]"
      by (auto simp: sees_append length_char_elems dest!: sees_getters)
    from get_char_elems_sees [OF e, of "[]"] get8_sees [OF n] t g l 3 show ?thesis
      by (simp add: ei_decode_string_def length_ext_string)
  qed
qed

interpretation codec_string:
  ei_partial_codec "\<lambda>buf i. ei_encode_string buf i (p @ [0])"
    "let xs = takeWhile (\<lambda>c. c \<noteq> 0) p in if INT_MAX \<le> int (length xs) then None else Some (ext_string xs)"
    "ei_decode_string True" "takeWhile (\<lambda>c. c \<noteq> 0) p @ [0]" for p
proof -
  define xs where "xs = takeWhile (\<lambda>c. c \<noteq> 0) p"
  have p: "p @ [0] = xs @ (dropWhile (\<lambda>c. c \<noteq> 0) p @ [0])" by (simp add: xs_def)
  have e: "ei_encode_string buf i (p @ [0]) = (if INT_MAX \<le> int (length xs) then Some (-1, buf, i)
      else ei_encode_string_len buf i (xs @ (dropWhile (\<lambda>c. c \<noteq> 0) p @ [0])) (int (length xs)))" for buf i
    unfolding ei_encode_string_def c_strlen_terminated p [symmetric] by (simp add: xs_def)
  show "ei_partial_codec (\<lambda>buf i. ei_encode_string buf i (p @ [0]))
    (let xs = takeWhile (\<lambda>c. c \<noteq> 0) p in if INT_MAX \<le> int (length xs) then None else Some (ext_string xs))
    (ei_decode_string True) (takeWhile (\<lambda>c. c \<noteq> 0) p @ [0])"
    unfolding xs_def [symmetric] Let_def
    by unfold_locales
      (use enc_string_len.size_pass [OF refl] enc_string_len.write_pass [OF refl] ei_decode_string_sees
        in \<open>auto simp: e split: if_splits\<close>)
qed

end
