(* ===== verification/Ei_Binary.thy ===== *)
theory Ei_Binary
  imports Ei_Buffer
begin

text \<open>
  Binaries and bit strings: \<open>encode_binary.c\<close> and \<open>decode_binary.c\<close>.  The bit string encoder
  copies a run of bits that may start inside a byte (\<open>copy_bits\<close>); its correctness is stated on
  the sequence of bits of a list of bytes, most significant bit first.  Sizes are natural numbers:
  \<open>copy_bits\<close> keeps its byte counts in an \<open>unsigned\<close>, so it is correct only below \<open>2 ^ 35\<close> bits.
\<close>

section \<open>Definitions\<close>

definition ei_encode_binary :: "bytes option \<Rightarrow> int \<Rightarrow> bytes \<Rightarrow> int \<Rightarrow> enc_res" where
  "ei_encode_binary buf index p len =
     (case buf of
        None \<Rightarrow> Some (0, None, index + 5 + len)
      | Some b \<Rightarrow> do {
          (b, s) \<leftarrow> put8 b index ERL_BINARY_EXT;
          (b, s) \<leftarrow> put32be b s (word_of_int len :: u64);
          xs \<leftarrow> read_bytes p 0 len;
          (b, _) \<leftarrow> put_bytes b s xs;
          Some (0, Some b, s + len) })"

definition MAKE_MASK :: "nat \<Rightarrow> u32" where
  "MAKE_MASK n = push_bit n 1 - 1"

text \<open>The loop over whole bytes: \<open>while (count--) ...\<close>.\<close>

fun copy_whole_bytes ::
  "bytes \<Rightarrow> int \<Rightarrow> nat \<Rightarrow> nat \<Rightarrow> u32 \<Rightarrow> bytes \<Rightarrow> (bytes \<times> u32 \<times> int) option" where
  "copy_whole_bytes mem src soffs 0 bits out = Some (out, bits, src)"
| "copy_whole_bytes mem src soffs (Suc count) bits out = do {
     let bits1 = push_bit soffs bits;
     (c, src) \<leftarrow> get8 mem src;
     let bits = ucast c;
     copy_whole_bytes mem src soffs count bits
       (out @ [ucast (bits1 OR drop_bit (8 - soffs) bits)]) }"

text \<open>
  The bytes \<open>copy_bits\<close> stores from \<open>dst\<close> on.  The number of bits is a \<open>size_t\<close>, the numbers of bytes are
  \<open>unsigned\<close>.
\<close>

definition copy_bits :: "bytes \<Rightarrow> nat \<Rightarrow> nat \<Rightarrow> bytes option" where
  "copy_bits mem soffs n =
     (if n = 0 then Some []
      else
        let deoffs = n mod 8;
            rmask = (if deoffs \<noteq> 0 then push_bit (8 - deoffs) (MAKE_MASK deoffs) else 0)
        in
        if soffs = 0 then do {
          let nbytes = (n + 7) mod 2 ^ 64 div 8 mod 2 ^ 32;
          xs \<leftarrow> read_bytes mem 0 (int nbytes);
          (if rmask = 0 then Some xs
           else if nbytes = 0 then None
           else Some (xs[nbytes - 1 := ucast (ucast (xs ! (nbytes - 1)) AND rmask)])) }
        else
          let src = int (soffs div 8); soffs = soffs mod 8 in
          if n < 8 then do {
            (c, _) \<leftarrow> get8 mem src;
            let bits = push_bit soffs (ucast c);
            bits \<leftarrow> (if soffs + n > 8 then do {
                       (c, _) \<leftarrow> get8 mem (src + 1);
                       Some (bits OR drop_bit (8 - soffs) (ucast c)) }
                     else Some bits);
            Some [ucast (bits AND rmask)] }
          else do {
            let rshift = 8 - soffs;
            (c, _) \<leftarrow> get8 mem src;
            let src = (if soffs + n > 8 then src + 1 else src);
            (out, bits, src) \<leftarrow> copy_whole_bytes mem src soffs (n div 8 mod 2 ^ 32) (ucast c) [];
            (if rmask \<noteq> 0 then do {
               let bits1 = push_bit soffs bits;
               bits1 \<leftarrow> (if push_bit rshift rmask AND 0xff \<noteq> 0 then do {
                           (c, _) \<leftarrow> get8 mem src;
                           Some (bits1 OR drop_bit rshift (ucast c)) }
                         else Some bits1);
               Some (out @ [ucast (bits1 AND rmask)]) }
             else Some out) })"

definition ei_encode_bitstring :: "bytes option \<Rightarrow> int \<Rightarrow> bytes \<Rightarrow> nat \<Rightarrow> nat \<Rightarrow> enc_res" where
  "ei_encode_bitstring buf index p bitoffs bits =
     (let nbytes = (bits + 7) div 8; last_bits = bits mod 8 in
      case buf of
        None \<Rightarrow> Some (0, None, index + (if last_bits \<noteq> 0 then 6 else 5) + int nbytes)
      | Some b \<Rightarrow> do {
          let tagp = index;
          (b, s) \<leftarrow> put32be b (index + 1) (of_nat nbytes :: u64);
          (b, s) \<leftarrow> (if last_bits \<noteq> 0 then do {
                       (b, _) \<leftarrow> put8 b tagp ERL_BIT_BINARY_EXT;
                       put8 b s (of_nat last_bits :: u8) }
                     else do {
                       (b, _) \<leftarrow> put8 b tagp ERL_BINARY_EXT;
                       Some (b, s) });
          xs \<leftarrow> copy_bits p bitoffs bits;
          (b, _) \<leftarrow> put_bytes b s xs;
          Some (0, Some b, s + int nbytes) })"

text \<open>With \<open>p\<close> \<open>NULL\<close> (\<open>store\<close> is false) the data is not read.\<close>

definition ei_decode_binary :: "bool \<Rightarrow> bytes \<Rightarrow> int \<Rightarrow> (bytes \<times> int) dec_res" where
  "ei_decode_binary store buf index = do {
     (t, s) \<leftarrow> get8 buf index;
     (if t \<noteq> ERL_BINARY_EXT then Some (Fail, index)
      else do {
        (w, s) \<leftarrow> get32be buf s;
        let len = sint w;
        xs \<leftarrow> (if store then read_bytes buf s len else Some []);
        Some (Done (xs, len), s + len) }) }"

text \<open>The stored values are the position of the data, the bit offset and the number of bits.\<close>

definition ei_decode_bitstring :: "bytes \<Rightarrow> int \<Rightarrow> (int \<times> nat \<times> u64) dec_res" where
  "ei_decode_bitstring buf index = do {
     (tag, s) \<leftarrow> get8 buf index;
     (w, s) \<leftarrow> get32be buf s;
     let len = (scast w :: u64);
     (if tag = ERL_BINARY_EXT then Some (Done (s, 0, len * 8), s + sint len)
      else if tag = ERL_BIT_BINARY_EXT then do {
        (last_bits, s) \<leftarrow> get8 buf s;
        (if (last_bits = 0) \<noteq> (len = 0) \<or> last_bits > 8 then Some (Fail, index)
         else Some (Done (s, 0, if len = 0 then 0 else (len - 1) * 8 + ucast last_bits),
           s + sint len)) }
      else Some (Fail, index)) }"

section \<open>Binaries\<close>

definition ext_binary :: "bytes \<Rightarrow> bytes" where
  "ext_binary xs = ERL_BINARY_EXT # be32 (of_nat (length xs) :: u64) @ xs"

interpretation enc_binary:
  ei_encoder "\<lambda>buf i. ei_encode_binary buf i (xs @ rest) (int (length xs))" "Some (ext_binary xs)"
  for xs rest
proof
  have s: "sees (xs @ rest) 0 xs" by (simp add: sees_def)
  fix bs i and b :: bytes
  assume bs: "Some (ext_binary xs) = Some bs"
  then show "ei_encode_binary None i (xs @ rest) (int (length xs)) = Some (0, None, i + int (length bs))"
    by (auto simp: ei_encode_binary_def ext_binary_def)
  assume "0 \<le> i" "i + int (length bs) \<le> int (length b)"
  then show "ei_encode_binary (Some b) i (xs @ rest) (int (length xs)) =
      Some (0, Some (splice_at b i bs), i + int (length bs))"
    using bs read_bytes_sees [OF s] splice_at_append [of i "ERL_BINARY_EXT # be32 (of_nat (length xs) :: u64)" xs b]
    by (auto simp: ei_encode_binary_def ext_binary_def buf_simps)
qed simp

lemma ei_decode_binary_sees:
  assumes "sees b i (ext_binary xs)" and "length xs < 2 ^ 31"
  shows "ei_decode_binary store b i =
    Some (Done (if store then xs else [], int (length xs)), i + int (length (ext_binary xs)))"
proof -
  have l: "sint (ucast (of_nat (length xs) :: u64) :: u32) = int (length xs)"
    using sint_u32_of_nat [OF assms(2)] assms(2)
    by (simp add: unsigned_of_nat take_bit_nat_eq_self)
  from assms(1) have "get8 b i = Some (ERL_BINARY_EXT, i + 1)"
    and "sees b (i + 1) (be32 (of_nat (length xs) :: u64))" and x: "sees b (i + 1 + 4) xs"
    by (simp_all add: ext_binary_def sees_Cons sees_append get8_def)
  then show ?thesis
    using read_bytes_sees [OF x] l
    by (auto simp: ei_decode_binary_def ext_binary_def Let_def dest!: sees_getters)
qed

section \<open>Bits\<close>

text \<open>The bits of a list of bytes, the most significant bit of a byte first.\<close>

definition byte_bits :: "u8 \<Rightarrow> bool list" where
  "byte_bits c = map (\<lambda>k. bit c (7 - k)) [0..<8]"

definition bits_of :: "bytes \<Rightarrow> bool list" where
  "bits_of xs = concat (map byte_bits xs)"

lemma length_byte_bits [simp]: "length (byte_bits c) = 8"
  by (simp add: byte_bits_def)

lemma length_bits_of [simp]: "length (bits_of xs) = 8 * length xs"
  by (induction xs) (simp_all add: bits_of_def)

lemma nth_bits_of: "k < 8 * length xs \<Longrightarrow> bits_of xs ! k = bit (xs ! (k div 8)) (7 - k mod 8)"
proof (induction xs arbitrary: k)
  case (Cons c xs)
  show ?case
  proof (cases "k < 8")
    case True
    then show ?thesis by (simp add: bits_of_def nth_append byte_bits_def)
  next
    case False
    then have "k div 8 = Suc ((k - 8) div 8)" "(k - 8) mod 8 = k mod 8"
      by (simp_all add: le_div_geq le_mod_geq)
    with Cons.IH [of "k - 8"] Cons.prems False show ?thesis
      by (simp add: bits_of_def nth_append)
  qed
qed simp

text \<open>The byte that starts \<open>so\<close> bits inside the first of two bytes.\<close>

definition comb :: "nat \<Rightarrow> u8 \<Rightarrow> u8 \<Rightarrow> u8" where
  "comb so a c = ucast (push_bit so (ucast a :: u32) OR drop_bit (8 - so) (ucast c))"

lemma bit_comb:
  assumes "so < 8" and "k < 8"
  shows "bit (comb so a c) (7 - k) = (if so + k < 8 then bit a (7 - so - k) else bit c (15 - so - k))"
proof (cases "so + k < 8")
  case True
  then have "8 \<le> 8 - so + (7 - k)" by simp
  with True show ?thesis by (auto simp: comb_def bit_simps add.commute [of k so])
next
  case False
  then have "8 - so + (7 - k) = 15 - so - k" using assms by simp
  with False assms show ?thesis by (auto simp: comb_def bit_simps)
qed

definition rmask :: "nat \<Rightarrow> u32" where
  "rmask d = (if d \<noteq> 0 then push_bit (8 - d) (MAKE_MASK d) else 0)"

lemma MAKE_MASK_eq: "MAKE_MASK n = mask n"
  by (simp add: MAKE_MASK_def mask_eq_exp_minus_1 push_bit_eq_mult)

lemma bit_rmask: "d < 8 \<Longrightarrow> k < 8 \<Longrightarrow> bit (rmask d) (7 - k) \<longleftrightarrow> k < d"
  by (auto simp: rmask_def MAKE_MASK_eq bit_simps)

lemma upto_7: "so < 8 \<longleftrightarrow> so = 0 \<or> so = 1 \<or> so = 2 \<or> so = 3 \<or> so = 4 \<or> so = 5 \<or> so = 6 \<or> so = (7 :: nat)"
  by auto

lemma rmask_eq_0: "d < 8 \<Longrightarrow> rmask d = 0 \<longleftrightarrow> d = 0"
  unfolding upto_7 by (elim disjE) (simp_all add: rmask_def MAKE_MASK_def)

lemma rmask_spills: "d < 8 \<Longrightarrow> so < 8 \<Longrightarrow> push_bit (8 - so) (rmask d) AND 0xff \<noteq> 0 \<longleftrightarrow> 8 < so + d"
  unfolding upto_7 by (elim disjE) (simp_all add: rmask_def MAKE_MASK_def)

section \<open>The copy\<close>

lemma copy_whole_bytes_eq:
  assumes "q + count < length mem"
  shows "copy_whole_bytes mem (int q + 1) so count (ucast (mem ! q)) out =
    Some (out @ map (\<lambda>j. comb so (mem ! (q + j)) (mem ! (q + j + 1))) [0..<count],
      ucast (mem ! (q + count)), int (q + count) + 1)"
  using assms
proof (induction count arbitrary: q out)
  case (Suc count)
  have "get8 mem (int q + 1) = Some (mem ! Suc q, int (Suc q) + 1)"
    using Suc.prems by (simp add: get8_def nat_add_distrib)
  moreover have "map (\<lambda>j. comb so (mem ! (q + j)) (mem ! (q + j + 1))) [0..<Suc count] =
      comb so (mem ! q) (mem ! Suc q) # map (\<lambda>j. comb so (mem ! (Suc q + j)) (mem ! (Suc q + j + 1))) [0..<count]"
    by (simp add: upt_rec [of 0] map_Suc_upt [symmetric] del: upt_Suc)
  ultimately show ?case
    using Suc.IH [of "Suc q" "out @ [comb so (mem ! q) (mem ! Suc q)]"] Suc.prems
    by (simp add: comb_def)
qed simp

text \<open>The bits a copy shall have produced: the source bits and zeros up to a whole byte.\<close>

definition copied :: "bytes \<Rightarrow> nat \<Rightarrow> nat \<Rightarrow> bytes \<Rightarrow> bool" where
  "copied mem soffs n out \<longleftrightarrow> length out = (n + 7) div 8 \<and>
     bits_of out = take n (drop soffs (bits_of mem)) @ replicate (8 * length out - n) False"

text \<open>The bytes of a sequence of bits, filled with zeros.\<close>

definition pack_bits :: "bool list \<Rightarrow> bytes" where
  "pack_bits bs = map (\<lambda>j. horner_sum of_bool 2 (map (\<lambda>m. 8 * j + (7 - m) < length bs \<and> bs ! (8 * j + (7 - m))) [0..<8]))
     [0..<(length bs + 7) div 8]"

lemma copied_pack:
  assumes "copied mem soffs n out" and "soffs + n \<le> 8 * length mem"
  shows "out = pack_bits (take n (drop soffs (bits_of mem)))"
proof (rule nth_equalityI)
  let ?bs = "take n (drop soffs (bits_of mem))"
  have n: "length ?bs = n" using assms(2) by simp
  have o: "length out = (n + 7) div 8" "bits_of out = ?bs @ replicate (8 * length out - n) False"
    using assms(1) by (simp_all add: copied_def)
  show "length out = length (pack_bits ?bs)" unfolding pack_bits_def n o(1) by simp
  fix j assume j: "j < length out"
  show "out ! j = pack_bits ?bs ! j"
  proof (rule bit_word_eqI)
    fix m assume "m < LENGTH(8)"
    then have m: "m < 8" by simp
    define k where "k = 7 - m"
    then have k: "k < 8" "m = 7 - k" using m by simp_all
    let ?i = "8 * j + k"
    have i: "?i < 8 * length out" using j k(1) by linarith
    have "?i div 8 = j" "?i mod 8 = k" using k(1) by simp_all
    then have "bit (out ! j) m = bits_of out ! ?i" unfolding k(2) nth_bits_of [OF i] by simp
    also have "\<dots> = (?i < n \<and> ?bs ! ?i)" unfolding o(2) using i n by (auto simp: nth_append)
    also have "\<dots> = bit (pack_bits ?bs ! j) m"
      using j m unfolding pack_bits_def n o(1) by (simp add: bit_horner_sum_bit_iff k_def)
    finally show "bit (out ! j) m \<longleftrightarrow> bit (pack_bits ?bs ! j) m" .
  qed
qed

lemma copiedI:
  assumes "soffs + n \<le> 8 * length mem" and "length out = (n + 7) div 8"
    and "\<And>j k. j < length out \<Longrightarrow> k < 8 \<Longrightarrow>
      bit (out ! j) (7 - k) \<longleftrightarrow> 8 * j + k < n \<and> bit (mem ! ((soffs + (8 * j + k)) div 8)) (7 - (soffs + (8 * j + k)) mod 8)"
  shows "copied mem soffs n out"
  unfolding copied_def
proof
  show "bits_of out = take n (drop soffs (bits_of mem)) @ replicate (8 * length out - n) False"
  proof (rule nth_equalityI)
    show "length (bits_of out) = length (take n (drop soffs (bits_of mem)) @ replicate (8 * length out - n) False)"
      using assms(1,2) by simp
  next
    fix i assume i: "i < length (bits_of out)"
    then have j: "i div 8 < length out" "i mod 8 < 8" by auto
    have e: "8 * (i div 8) + i mod 8 = i" by simp
    have "bits_of out ! i \<longleftrightarrow> i < n \<and> bit (mem ! ((soffs + i) div 8)) (7 - (soffs + i) mod 8)"
      using assms(3) [OF j] i unfolding e by (simp add: nth_bits_of)
    then show "bits_of out ! i = (take n (drop soffs (bits_of mem)) @ replicate (8 * length out - n) False) ! i"
      using assms(1) i by (auto simp: nth_append nth_bits_of)
  qed
qed (rule assms(2))

lemma bit_pos:
  assumes "so = soffs mod 8" and "q = soffs div 8" and "k < 8"
  shows "bit (mem ! ((soffs + (8 * j + k)) div 8)) (7 - (soffs + (8 * j + k)) mod 8) =
    (if so + k < 8 then bit (mem ! (q + j)) (7 - so - k) else bit (mem ! (q + j + 1)) (15 - so - k))"
proof -
  have s: "soffs + (8 * j + k) = 8 * (q + j) + (so + k)" using assms(1,2) by simp
  have so: "so < 8" using assms(1) by simp
  have dm: "(8 * m + r) div 8 = m" "(8 * m + r) mod 8 = r" if "r < 8" for m r :: nat
    using that by simp_all
  show ?thesis
  proof (cases "so + k < 8")
    case True
    then show ?thesis unfolding s dm [OF True] by simp
  next
    case False
    then have e: "8 * (q + j) + (so + k) = 8 * (q + j + 1) + (so + k - 8)" by simp
    have r: "so + k - 8 < 8" using so assms(3) by simp
    show ?thesis unfolding s e dm [OF r] using False by simp
  qed
qed

text \<open>The last byte, when \<open>d\<close> bits of it are used.\<close>

lemma bit_last_byte:
  fixes a c :: u8
  assumes "so < 8" and "d < 8" and "k < 8"
  shows "bit (ucast ((push_bit so (ucast a) OR drop_bit (8 - so) (ucast c)) AND rmask d) :: u8) (7 - k) \<longleftrightarrow>
      k < d \<and> (if so + k < 8 then bit a (7 - so - k) else bit c (15 - so - k))"
    and "so + d \<le> 8 \<Longrightarrow> bit (ucast (push_bit so (ucast a) AND rmask d) :: u8) (7 - k) \<longleftrightarrow>
      k < d \<and> (if so + k < 8 then bit a (7 - so - k) else bit c (15 - so - k))"
proof -
  have and_rmask: "bit (ucast (w AND rmask d) :: u8) (7 - k) \<longleftrightarrow> bit (ucast w :: u8) (7 - k) \<and> k < d" for w
    using bit_rmask [OF assms(2,3)] by (auto simp: bit_simps)
  show "bit (ucast ((push_bit so (ucast a) OR drop_bit (8 - so) (ucast c)) AND rmask d) :: u8) (7 - k) \<longleftrightarrow>
      k < d \<and> (if so + k < 8 then bit a (7 - so - k) else bit c (15 - so - k))"
    using bit_comb [OF assms(1,3), of a c] unfolding and_rmask comb_def by auto
  assume "so + d \<le> 8"
  then show "bit (ucast (push_bit so (ucast a) AND rmask d) :: u8) (7 - k) \<longleftrightarrow>
      k < d \<and> (if so + k < 8 then bit a (7 - so - k) else bit c (15 - so - k))"
    using bit_comb [OF assms(1,3), of a 0] unfolding and_rmask comb_def by auto
qed

text \<open>
  What the two branches for a source that does not start at a byte border return, as one list:
  \<open>n div 8\<close> combined bytes and, if bits remain, a masked one.
\<close>

definition shifted_bytes :: "bytes \<Rightarrow> nat \<Rightarrow> nat \<Rightarrow> bytes" where
  "shifted_bytes mem soffs n =
     (let q = soffs div 8; so = soffs mod 8; count = n div 8; d = n mod 8 in
      map (\<lambda>j. comb so (mem ! (q + j)) (mem ! (q + j + 1))) [0..<count] @
      (if d = 0 then []
       else [ucast ((if 8 < so + d
             then push_bit so (ucast (mem ! (q + count))) OR drop_bit (8 - so) (ucast (mem ! (q + count + 1)))
             else push_bit so (ucast (mem ! (q + count)))) AND rmask d)]))"

lemma byte_count: "(n + 7) div 8 = n div 8 + (if n mod 8 = 0 then 0 else 1)" for n :: nat
  by presburger

lemma copied_shifted_bytes:
  assumes "soffs + n \<le> 8 * length mem"
  shows "copied mem soffs n (shifted_bytes mem soffs n)"
proof (rule copiedI [OF assms])
  let ?c = "n div 8" and ?d = "n mod 8" and ?so = "soffs mod 8" and ?q = "soffs div 8"
  have n: "n = 8 * ?c + ?d" by simp
  have len: "length (shifted_bytes mem soffs n) = ?c + (if ?d = 0 then 0 else 1)"
    by (simp add: shifted_bytes_def Let_def)
  also have "\<dots> = (n + 7) div 8" by (rule byte_count [symmetric])
  finally show "length (shifted_bytes mem soffs n) = (n + 7) div 8" .
  fix j k
  assume j: "j < length (shifted_bytes mem soffs n)" and k: "k < (8 :: nat)"
  have so: "?so < 8" "?d < 8" by auto
  show "bit (shifted_bytes mem soffs n ! j) (7 - k) \<longleftrightarrow> 8 * j + k < n \<and>
      bit (mem ! ((soffs + (8 * j + k)) div 8)) (7 - (soffs + (8 * j + k)) mod 8)"
  proof (cases "j < ?c")
    case True
    then have "8 * j + k < n" using k n by linarith
    with True bit_comb [OF so(1) k] show ?thesis
      unfolding bit_pos [OF refl refl k] by (simp add: shifted_bytes_def Let_def nth_append)
  next
    case False
    with j len have j': "j = ?c" and d: "?d \<noteq> 0" by (auto split: if_splits)
    have "8 * j + k < n \<longleftrightarrow> k < ?d" using n j' by linarith
    with d bit_last_byte [OF so k, of "mem ! (?q + ?c)" "mem ! (?q + ?c + 1)"] show ?thesis
      unfolding bit_pos [OF refl refl k] by (simp add: shifted_bytes_def Let_def nth_append j')
  qed
qed

lemma copy_bits_unaligned_short:
  assumes "soffs + n \<le> 8 * length mem" and "soffs \<noteq> 0" and "n \<noteq> 0" and "n < 8"
  shows "copy_bits mem soffs n = Some (shifted_bytes mem soffs n)"
proof -
  define q so where "q = soffs div 8" "so = soffs mod 8"
  note defs = this
  have n: "n div 8 = 0" "n mod 8 = n" using assms(4) by simp_all
  have sn: "soffs = 8 * q + so" "so < 8" by (simp_all add: defs)
  have "get8 mem (int q) = Some (mem ! q, int q + 1)"
    using assms(1,3) sn by (simp add: get8_def)
  moreover have "get8 mem (int q + 1) = Some (mem ! Suc q, int q + 2)" if "8 < so + n"
    using assms(1) sn that by (simp add: get8_def nat_add_distrib)
  ultimately show ?thesis
    using assms(2-4)
    unfolding copy_bits_def shifted_bytes_def Let_def n defs(1,2) [symmetric]
    by (cases "8 < so + n") (simp_all add: rmask_def)
qed

lemma drop_bit_byte: "drop_bit 8 (ucast (c :: u8) :: u32) = 0"
  by (rule bit_word_eqI) (simp add: bit_simps)

lemma copy_bits_unaligned_long:
  assumes "soffs + n \<le> 8 * length mem" and "soffs \<noteq> 0" and "\<not> n < 8"
    and "soffs mod 8 = 0 \<and> n mod 8 = 0 \<and> 8 < n \<Longrightarrow> soffs + n < 8 * length mem" and "n + 7 < 2 ^ 35"
  shows "copy_bits mem soffs n = Some (shifted_bytes mem soffs n)"
proof -
  define q so c d where "q = soffs div 8" "so = soffs mod 8" "c = n div 8" "d = n mod 8"
  note defs = this
  have sn: "soffs = 8 * q + so" "n = 8 * c + d" "so < 8" "d < 8" by (simp_all add: defs)
  have rm: "(if d \<noteq> 0 then push_bit (8 - d) (MAKE_MASK d) else 0) = rmask d"
    by (simp add: rmask_def)
  have q: "get8 mem (int q) = Some (mem ! q, int q + 1)"
    using assms(1,3) sn by (simp add: get8_def)
  have q': "get8 mem (int (q + c) + 1) = Some (mem ! (q + c + 1), int (q + c) + 2)" if "8 < so + d"
    using assms(1) sn that by (simp add: get8_def nat_add_distrib)
  have n: "n \<noteq> 0" using assms(3) by simp
  have cm: "c mod 2 ^ 32 = c" using assms(5) by (simp add: defs div_less_iff_less_mult)
  show ?thesis
  proof (cases "8 < so + n")
    case True
    have qc: "q + c < length mem"
    proof (cases "so = 0 \<and> d = 0")
      case True
      then have "soffs + n < 8 * length mem" using assms(4) \<open>8 < so + n\<close> by (simp add: defs)
      then show ?thesis using sn by linarith
    next
      case False
      then show ?thesis using assms(1) sn by linarith
    qed
    note w = copy_whole_bytes_eq [OF qc, of so "[]"]
    show ?thesis
      unfolding copy_bits_def shifted_bytes_def Let_def defs [symmetric] rm cm
      apply (simp only: if_not_P [OF n] if_not_P [OF assms(2)] if_not_P [OF assms(3)] q bind.bind_lunit split if_P [OF True] w)
      apply (simp only: rmask_spills [OF sn(4,3)] rmask_eq_0 [OF sn(4)])
      using q'
      by (cases "d = 0"; cases "8 < so + d") simp_all
  next
    case False
    then have n8: "n = 8" "so = 0" using assms(3) by linarith+
    then have "c = 1" "d = 0" by (simp_all add: defs)
    note n8 = n8 this
    show ?thesis using assms(2,3) q n8
      unfolding copy_bits_def shifted_bytes_def Let_def defs [symmetric] rm cm
      by (simp add: Let_def comb_def drop_bit_byte rmask_def)
  qed
qed
lemma copy_bits_aligned:
  assumes "n \<le> 8 * length mem" and "n \<noteq> 0" and "n + 7 < 2 ^ 35"
  shows "\<exists>out. copy_bits mem 0 n = Some out \<and> copied mem 0 n out"
proof -
  let ?nb = "(n + 7) div 8" and ?d = "n mod 8"
  let ?xs = "take ?nb mem"
  let ?out = "if rmask ?d \<noteq> 0 then ?xs[?nb - 1 := ucast (ucast (?xs ! (?nb - 1)) AND rmask ?d)] else ?xs"
  have n: "n = 8 * (n div 8) + ?d" "?d < 8" by simp_all
  have nb: "?nb \<le> length mem \<and> 0 < ?nb"
  proof (cases "?d = 0")
    case True
    then have "?nb = n div 8" by (simp add: byte_count)
    then show ?thesis using True assms n by linarith
  next
    case False
    then have "?nb = n div 8 + 1" by (simp add: byte_count)
    then show ?thesis using False assms n by linarith
  qed
  have "read_bytes mem 0 (int ?nb) = Some ?xs"
    using nb by (simp add: read_bytes_def)
  moreover have "(n + 7) mod 2 ^ 64 div 8 mod 2 ^ 32 = ?nb"
  proof -
    have "(n + 7) mod 2 ^ 64 = n + 7" using assms(3) by simp
    moreover have "?nb < 2 ^ 32" using assms(3) by (simp add: div_less_iff_less_mult)
    ultimately show ?thesis by simp
  qed
  ultimately have c: "copy_bits mem 0 n = Some ?out"
    using assms(2) nb unfolding copy_bits_def Let_def by (simp only: if_False if_True refl) (simp add: rmask_def)
  have "copied mem 0 n ?out"
  proof (rule copiedI)
    show "length ?out = ?nb" using nb by simp
    fix j k assume j: "j < length ?out" and k: "k < (8 :: nat)"
    then have jn: "j < ?nb" using nb by (simp split: if_splits)
    have d: "?d < 8" by simp
    have e: "(0 + (8 * j + k)) div 8 = j" "(0 + (8 * j + k)) mod 8 = k" using k by simp_all
    show "bit (?out ! j) (7 - k) \<longleftrightarrow> 8 * j + k < n \<and>
        bit (mem ! ((0 + (8 * j + k)) div 8)) (7 - (0 + (8 * j + k)) mod 8)"
    proof (cases "?d \<noteq> 0 \<and> j = ?nb - 1")
      case True
      then have "j = n div 8" by (simp add: byte_count)
      then have j': "8 * j + k < n \<longleftrightarrow> k < ?d" using n by linarith
      have "?out ! j = ucast (push_bit 0 (ucast (mem ! j)) AND rmask ?d)"
        using True nb jn rmask_eq_0 [OF d] by simp
      then show ?thesis
        unfolding e j' using bit_last_byte(2) [of 0 ?d k "mem ! j"] k d by simp
    next
      case False
      then have "j < n div 8" using jn by (auto simp: byte_count split: if_splits)
      then have "8 * j + k < n" using n k by linarith
      moreover have "?out ! j = mem ! j"
        using False jn rmask_eq_0 [OF d] by auto
      ultimately show ?thesis unfolding e by simp
    qed
  qed (use assms in simp)
  with c show ?thesis by blast
qed

text \<open>One more source byte is read when whole bytes are copied from a whole number of bytes on.\<close>

definition readable_bits :: "bytes \<Rightarrow> nat \<Rightarrow> nat \<Rightarrow> bool" where
  "readable_bits mem soffs n \<longleftrightarrow>
     (if soffs \<noteq> 0 \<and> soffs mod 8 = 0 \<and> n mod 8 = 0 \<and> 8 < n
      then soffs + n < 8 * length mem else soffs + n \<le> 8 * length mem)"

lemma copy_bits_copied:
  assumes "readable_bits mem soffs n" and "n + 7 < 2 ^ 35"
  shows "\<exists>out. copy_bits mem soffs n = Some out \<and> copied mem soffs n out"
proof -
  have le: "soffs + n \<le> 8 * length mem"
    using assms by (auto simp: readable_bits_def split: if_splits)
  consider "n = 0" | "n \<noteq> 0" "soffs = 0" | "n \<noteq> 0" "soffs \<noteq> 0" "n < 8" | "soffs \<noteq> 0" "\<not> n < 8"
    by blast
  then show ?thesis
  proof cases
    case 1
    then show ?thesis by (simp add: copy_bits_def copied_def bits_of_def)
  next
    case 2
    with copy_bits_aligned [of n mem] le assms(2) show ?thesis by simp
  next
    case 3
    with copy_bits_unaligned_short [OF le] copied_shifted_bytes [OF le] show ?thesis by simp
  next
    case 4
    have "soffs + n < 8 * length mem" if "soffs mod 8 = 0 \<and> n mod 8 = 0 \<and> 8 < n"
      using assms(1) that 4 by (simp add: readable_bits_def)
    with copy_bits_unaligned_long [OF le 4 _ assms(2)] copied_shifted_bytes [OF le] show ?thesis by simp
  qed
qed

lemma copy_whole_bytes_outside:
  "0 \<le> src \<Longrightarrow> 0 < count \<Longrightarrow> int (length mem) < src + int count \<Longrightarrow> copy_whole_bytes mem src so count bits out = None"
proof (induction count arbitrary: src bits out)
  case (Suc count)
  show ?case
  proof (cases "src < int (length mem)")
    case True
    then have "get8 mem src = Some (mem ! nat src, src + 1)" "0 < count" using Suc.prems by (simp_all add: get8_def)
    with Suc show ?thesis by (simp add: Let_def)
  next
    case False
    then show ?thesis using Suc.prems by (simp add: get8_def)
  qed
qed simp

lemma copy_bits_outside:
  assumes "soffs \<noteq> 0" and "soffs mod 8 = 0" and "n mod 8 = 0" and "8 < n" and "soffs + n = 8 * length mem" and "n + 7 < 2 ^ 35"
  shows "copy_bits mem soffs n = None"
proof -
  define q c where "q = soffs div 8" and "c = n div 8"
  have qc: "soffs = 8 * q" "n = 8 * c" using assms(2,3) by (auto simp: q_def c_def)
  have len: "q + c = length mem" "1 < c" using assms(4,5) by (simp_all add: qc)
  have "c mod 2 ^ 32 = c" using assms(6) by (simp add: qc)
  then have "copy_whole_bytes mem (int q + 1) 0 (n div 8 mod 2 ^ 32) bits [] = None" for bits
    using len by (intro copy_whole_bytes_outside) (simp_all add: c_def [symmetric])
  moreover have "get8 mem (int q) = Some (mem ! q, int q + 1)" using len by (simp add: get8_def)
  ultimately show ?thesis using assms(1,2,4) unfolding copy_bits_def Let_def q_def [symmetric] by simp
qed

section \<open>Bit strings\<close>

definition ext_bitstring :: "nat \<Rightarrow> bytes \<Rightarrow> bytes" where
  "ext_bitstring bits out =
     (if bits mod 8 \<noteq> 0
      then ERL_BIT_BINARY_EXT # be32 (of_nat ((bits + 7) div 8) :: u64) @ [of_nat (bits mod 8)]
      else ERL_BINARY_EXT # be32 (of_nat ((bits + 7) div 8) :: u64)) @ out"

lemma enc_bitstring:
  assumes "copy_bits p bitoffs bits = Some out" and "length out = (bits + 7) div 8"
  shows "ei_encoder (\<lambda>buf i. ei_encode_bitstring buf i p bitoffs bits) (Some (ext_bitstring bits out))"
proof
  define tag where "tag = (if bits mod 8 \<noteq> 0 then ERL_BIT_BINARY_EXT else ERL_BINARY_EXT)"
  define n where "n = be32 (of_nat ((bits + 7) div 8) :: u64)"
  define r where "r = (if bits mod 8 \<noteq> 0 then of_nat (bits mod 8) # out else out)"
  have n: "length n = 4" by (simp add: n_def)
  have x: "ext_bitstring bits out = (tag # n) @ r"
    by (simp add: ext_bitstring_def tag_def n_def r_def)
  fix bs i and b :: bytes
  assume bs: "Some (ext_bitstring bits out) = Some bs"
  then show "ei_encode_bitstring None i p bitoffs bits = Some (0, None, i + int (length bs))"
    using assms by (auto simp: ei_encode_bitstring_def ext_bitstring_def Let_def)
  assume i: "0 \<le> i" "i + int (length bs) \<le> int (length b)"
  then have room: "i + 5 + int (length r) \<le> int (length b)" using bs by (auto simp: x n)
  define b1 where "b1 = splice_at (splice_at b (i + 1) n) i [tag]"
  have b1: "b1 = splice_at b i (tag # n)"
    unfolding b1_def using splice_at_prepend [of i "[tag]" n b] i(1) room by (simp add: n)
  have l: "length b1 = length b" using i(1) room by (simp add: b1 n)
  have w: "put32be b (i + 1) (of_nat ((bits + 7) div 8) :: u64) = Some (splice_at b (i + 1) n, i + 5)"
    "put8 (splice_at b (i + 1) n) i tag = Some (b1, i + 1)"
    using i(1) room by (simp_all add: buf_simps b1_def n flip: n_def)
  have pr: "put_bytes b1 (i + 5) r = Some (splice_at b i ((tag # n) @ r), i + 5 + int (length r))"
    using splice_at_append [of i "tag # n" r b] i(1) room l by (simp add: put_bytes_in b1 n)
  show "ei_encode_bitstring (Some b) i p bitoffs bits =
      Some (0, Some (splice_at b i bs), i + int (length bs))"
  proof (cases "bits mod 8 = 0")
    case True
    then have "tag = ERL_BINARY_EXT" "r = out" by (simp_all add: tag_def r_def)
    with True w pr bs assms show ?thesis
      by (auto simp: ei_encode_bitstring_def Let_def x n)
  next
    case False
    then have tr: "tag = ERL_BIT_BINARY_EXT" "r = of_nat (bits mod 8) # out"
      by (simp_all add: tag_def r_def)
    from pr obtain b2 where "put8 b1 (i + 5) (of_nat (bits mod 8) :: u8) = Some (b2, 6 + i)"
      "put_bytes b2 (6 + i) out = Some (splice_at b i ((tag # n) @ r), i + 5 + int (length r))"
      by (auto simp: tr(2) put_bytes.simps(2) put8_def split: if_splits Option.bind_splits)
    with False tr w bs assms show ?thesis
      by (auto simp: ei_encode_bitstring_def Let_def x n)
  qed
qed simp

lemma ei_decode_bitstring_sees:
  assumes "sees b i (ext_bitstring bits out)" and "length out = (bits + 7) div 8" and "length out < 2 ^ 31"
  shows "ei_decode_bitstring b i = Some (Done (i + int (length (ext_bitstring bits out)) - int (length out), 0, of_nat bits),
      i + int (length (ext_bitstring bits out)))"
    and "sees b (i + int (length (ext_bitstring bits out)) - int (length out)) out"
proof -
  let ?n = "length out" and ?d = "bits mod 8"
  have l: "scast (ucast (of_nat ?n :: u64) :: u32) = (of_nat ?n :: u64)"
    "sint (of_nat ?n :: u64) = int ?n"
    using assms(3) sint_u32_of_nat [OF assms(3)]
    by (simp_all add: unsigned_of_nat take_bit_nat_eq_self scast_eq, simp add: signed_of_nat signed_take_bit_int_eq_self)
  have g: "get8 b i = Some (if ?d \<noteq> 0 then ERL_BIT_BINARY_EXT else ERL_BINARY_EXT, i + 1)"
    and "sees b (i + 1) (be32 (of_nat ?n :: u64))"
    and s: "?d = 0 \<Longrightarrow> sees b (i + 1 + 4) out"
      "?d \<noteq> 0 \<Longrightarrow> sees b (i + 1 + 4) (of_nat ?d # out)"
    using assms(1,2) by (auto simp: ext_bitstring_def sees_Cons sees_append get8_def split: if_splits)
  then have n: "get32be b (i + 1) = Some (ucast (of_nat ?n :: u64), i + 1 + 4)"
    by (auto dest!: sees_getters)
  show "sees b (i + int (length (ext_bitstring bits out)) - int (length out)) out"
  proof (cases "?d = 0")
    case True
    with s(1) show ?thesis by (simp add: ext_bitstring_def add.commute)
  next
    case False
    with s(2) show ?thesis by (simp add: ext_bitstring_def sees_Cons add.commute)
  qed
  show "ei_decode_bitstring b i = Some (Done (i + int (length (ext_bitstring bits out)) - int (length out), 0, of_nat bits),
      i + int (length (ext_bitstring bits out)))"
  proof (cases "?d = 0")
    case True
    then have "bits = ?n * 8" using assms(2) mult_div_mod_eq [of 8 bits] by (simp add: byte_count)
    then have "of_nat bits = (of_nat (?n * 8) :: u64)" by (rule arg_cong)
    then have "of_nat bits = (of_nat ?n * 8 :: u64)" by simp
    then show ?thesis using True g n l
      by (simp add: ei_decode_bitstring_def ext_bitstring_def Let_def)
  next
    case False
    then have c: "?n = bits div 8 + 1" "?d < 8"
      using assms(2) by (simp_all add: byte_count)
    have "of_nat bits = (of_nat (8 * (bits div 8) + ?d) :: u64)"
      by (simp only: mult_div_mod_eq)
    also have "\<dots> = (of_nat ?n - 1) * 8 + of_nat ?d"
      by (simp only: c(1) of_nat_add of_nat_mult of_nat_numeral of_nat_1 add_diff_cancel_right' mult.commute)
    finally have "(of_nat ?n - 1) * 8 + of_nat ?d = (of_nat bits :: u64)" ..
    moreover have u: "unat (of_nat ?d :: u8) = ?d" "unat (of_nat ?n :: u64) = ?n"
      using assms(3) c(2) by (simp_all add: unsigned_of_nat take_bit_nat_eq_self)
    from u(1) have "ucast (of_nat ?d :: u8) = (of_nat ?d :: u64)"
      by (metis of_nat_unat)
    moreover have "unat (of_nat ?d :: u8) \<noteq> unat (0 :: u8)" "unat (of_nat ?n :: u64) \<noteq> unat (0 :: u64)"
      "\<not> unat (8 :: u8) < unat (of_nat ?d :: u8)"
      using False c unfolding u by simp_all
    then have "(of_nat ?d :: u8) \<noteq> 0" "(of_nat ?n :: u64) \<noteq> 0" "\<not> (8 :: u8) < of_nat ?d"
      unfolding word_less_nat_alt by metis+
    ultimately show ?thesis using False g n l get8_sees [OF s(2)]
      by (simp add: ei_decode_bitstring_def ext_bitstring_def Let_def)
  qed
qed

lemma bits_of_append: "bits_of (xs @ ys) = bits_of xs @ bits_of ys"
  by (simp add: bits_of_def)

lemma drop_bits_of: "drop (8 * k) (bits_of xs) = bits_of (drop k xs)"
proof -
  have "bits_of xs = bits_of (take k xs) @ bits_of (drop k xs)"
    by (simp flip: bits_of_append)
  then show ?thesis
    by (cases "k \<le> length xs") simp_all
qed

lemma take_bits_sees:
  assumes "sees b (int pos) out" and "n \<le> 8 * length out"
  shows "take n (drop (8 * pos) (bits_of b)) = take n (bits_of out)"
proof -
  have "take (length out) (drop pos b) = out" using assms(1) by (simp add: sees_def)
  then have "drop pos b = out @ drop (length out) (drop pos b)"
    by (metis append_take_drop_id)
  then have "bits_of (drop pos b) = bits_of out @ bits_of (drop (length out) (drop pos b))"
    by (metis bits_of_append)
  with assms(2) show ?thesis by (simp add: drop_bits_of)
qed

section \<open>Properties\<close>

text \<open>
  C19. \<open>copy_bits\<close> copies fewer than \<open>2 ^ 35 - 7\<close> bits from any bit position of a readable source: the bits
  of the bytes it stores are the \<open>n\<close> source bits from \<open>soffs\<close> on, followed by zeros up to the end of the
  last byte.
\<close>

theorem copy_bits_correct:
  assumes "readable_bits mem soffs n" and "n + 7 < 2 ^ 35"
  shows "\<exists>out. copy_bits mem soffs n = Some out \<and> length out = (n + 7) div 8 \<and>
    bits_of out = take n (drop soffs (bits_of mem)) @ replicate (8 * length out - n) False"
  using copy_bits_copied [OF assms] by (auto simp: copied_def)

theorem copy_bits_correct_witness:
  "\<exists>out. copy_bits [0x12, 0x34, 0x56] 5 13 = Some out \<and> length out = 2 \<and>
    bits_of out = take 13 (drop 5 (bits_of [0x12, 0x34, 0x56])) @ replicate (8 * length out - 13) False"
  using copy_bits_correct [of "[0x12, 0x34, 0x56]" 5 13] by (simp add: readable_bits_def)

text \<open>
  C20. On a source that has all the bits to copy, \<open>copy_bits\<close> reads outside of the source in exactly one
  case: two or more whole bytes are copied from a byte border other than the first, up to the end of the source.
\<close>

theorem copy_bits_reads_past_end:
  assumes "soffs + n \<le> 8 * length mem" and "n + 7 < 2 ^ 35"
  shows "copy_bits mem soffs n = None \<longleftrightarrow>
    soffs \<noteq> 0 \<and> soffs mod 8 = 0 \<and> n mod 8 = 0 \<and> 8 < n \<and> soffs + n = 8 * length mem"
proof (cases "soffs \<noteq> 0 \<and> soffs mod 8 = 0 \<and> n mod 8 = 0 \<and> 8 < n \<and> soffs + n = 8 * length mem")
  case True
  with copy_bits_outside [of soffs n mem] assms(2) show ?thesis by simp
next
  case False
  with assms(1) have "readable_bits mem soffs n" by (auto simp: readable_bits_def)
  from copy_bits_copied [OF this assms(2)] False show ?thesis by (metis option.distinct(1))
qed

theorem copy_bits_reads_past_end_witness: "copy_bits [1, 2, 3] 8 16 = None"
  using copy_bits_reads_past_end [of 8 16 "[1, 2, 3]"] by simp

text \<open>
  C21. A bit string encoded from any bit position of a readable memory, in the room the sizing pass
  asks for, is decoded to a position in the buffer where exactly these bits are, and to their
  number; the rest of the buffer is unchanged.
\<close>

theorem ei_bitstring_round_trip:
  assumes "readable_bits p bitoffs bits" and "bits + 7 < 2 ^ 34"
    and "ei_encode_bitstring None i p bitoffs bits = Some (0, None, j)"
    and "0 \<le> i" and "j \<le> int (length b)"
  shows "\<exists>b' pos. ei_encode_bitstring (Some b) i p bitoffs bits = Some (0, Some b', j)
    \<and> ei_decode_bitstring b' i = Some (Done (int pos, 0, of_nat bits), j)
    \<and> take bits (drop (8 * pos) (bits_of b')) = take bits (drop bitoffs (bits_of p))
    \<and> length b' = length b \<and> take (nat i) b' = take (nat i) b \<and> drop (nat j) b' = drop (nat j) b"
proof -
  have "bits + 7 < 2 ^ 35" using assms(2) by simp
  from copy_bits_copied [OF assms(1) this] obtain out where
    c: "copy_bits p bitoffs bits = Some out" and o: "copied p bitoffs bits out" by blast
  then have len: "length out = (bits + 7) div 8" by (simp add: copied_def)
  have le: "length out < 2 ^ 31" using assms(2) unfolding len by (simp add: div_less_iff_less_mult)
  have n: "bits \<le> 8 * length out"
    using mult_div_mod_eq [of 8 "bits + 7"] mod_less_divisor [of 8 "bits + 7"] unfolding len by linarith
  let ?x = "ext_bitstring bits out"
  note enc = enc_bitstring [OF c len]
  have j: "j = i + int (length ?x)"
    using ei_encoder.size_pass [OF enc refl, of i] assms(3) by simp
  with assms(5) have room: "i + int (length ?x) \<le> int (length b)" by simp
  define b' where "b' = splice_at b i ?x"
  have s: "sees b' i ?x" unfolding b'_def using assms(4) room by (rule sees_splice_at)
  obtain pos where pos: "i + int (length ?x) - int (length out) = int pos"
    using assms(4) by (intro that [of "nat (i + int (length ?x) - int (length out))"])
      (simp add: ext_bitstring_def)
  have "take bits (drop (8 * pos) (bits_of b')) = take bits (bits_of out)"
    using ei_decode_bitstring_sees(2) [OF s len le] n unfolding pos by (rule take_bits_sees)
  also have "\<dots> = take bits (drop bitoffs (bits_of p))"
    using o assms(1) by (auto simp: copied_def readable_bits_def split: if_splits)
  finally show ?thesis
    using ei_encoder.write_pass [OF enc refl assms(4) room] ei_decode_bitstring_sees(1) [OF s len le]
      ei_encoder.sized_write_frame [OF enc assms(3-5)] j pos
    by (auto simp: b'_def)
qed

theorem ei_bitstring_round_trip_witness:
  "\<exists>b' pos. ei_encode_bitstring (Some (replicate 10 0)) 1 [0xAB, 0xCD] 3 11 = Some (0, Some b', 9)
    \<and> ei_decode_bitstring b' 1 = Some (Done (int pos, 0, 11), 9)
    \<and> take 11 (drop (8 * pos) (bits_of b')) = take 11 (drop 3 (bits_of [0xAB, 0xCD]))"
proof -
  have r: "readable_bits [0xAB, 0xCD] 3 11" by (simp add: readable_bits_def)
  have e: "ei_encode_bitstring None 1 [0xAB, 0xCD] 3 11 = Some (0, None, 9)"
    by (simp add: ei_encode_bitstring_def)
  have "(11 :: nat) + 7 < 2 ^ 34" "(0 :: int) \<le> 1" "9 \<le> int (length (replicate 10 0 :: bytes))"
    by simp_all
  from ei_bitstring_round_trip [OF r this(1) e this(2,3)] show ?thesis
    by (metis of_nat_numeral)
qed

end
