(* ===== verification/Ei_Big.thy ===== *)
theory Ei_Big
  imports Ei_Buffer
begin

text \<open>
  Big numbers of any size as \<open>ei\<close> hands them to its callers: \<open>encode_big.c\<close> and
  \<open>decode_big.c\<close>.  An \<open>erlang_big\<close> has its number of base-256 digits, its sign and an array of
  16-bit digits, the least significant first.  \<open>ei_big_to_double\<close> computes with doubles and is not
  modelled.
\<close>

section \<open>Definitions\<close>

record erlang_big =
  arity :: u32
  is_neg :: int
  digits :: "u16 list"

text \<open>\<open>(digit_bytes+1)/2\<close>, in unsigned arithmetic.\<close>

definition digit_count :: "u32 \<Rightarrow> nat" where
  "digit_count digit_bytes = unat ((digit_bytes + 1) div 2)"

text \<open>\<open>malloc\<close> may fail, for the structure and for the digits.\<close>

definition ei_alloc_big :: "bool \<Rightarrow> bool \<Rightarrow> u32 \<Rightarrow> erlang_big option" where
  "ei_alloc_big malloc_big malloc_digits digit_bytes =
     (if \<not> malloc_big then None
      else if \<not> malloc_digits then None
      else Some \<lparr>arity = digit_bytes, is_neg = 0, digits = replicate (digit_count digit_bytes) 0\<rparr>)"

function put_big_digits :: "bytes \<Rightarrow> int \<Rightarrow> u16 list \<Rightarrow> nat \<Rightarrow> nat \<Rightarrow> nat \<Rightarrow> bytes option" where
  "put_big_digits b s dt i n digit_bytes =
     (if i < n then
        if i < length dt then do {
          let hi = (ucast (drop_bit 8 (dt ! i)) :: u8);
          let lo = (ucast (dt ! i) :: u8);
          (b, _) \<leftarrow> put8 b (s + int (i * 2)) lo;
          b \<leftarrow> (if i * 2 + 1 < digit_bytes
               then do { (b, _) \<leftarrow> put8 b (s + int (i * 2 + 1)) hi; Some b } else Some b);
          put_big_digits b s dt (i + 1) n digit_bytes }
        else None
      else Some b)"
  by pat_completeness auto
termination
  by (relation "measure (\<lambda>(b, s, dt, i, n, digit_bytes). n - i)") auto

definition ei_encode_big :: "bytes option \<Rightarrow> int \<Rightarrow> erlang_big \<Rightarrow> enc_res" where
  "ei_encode_big buf index big =
     (let digit_bytes = arity big; n = digit_count digit_bytes in
      case buf of
        Some b \<Rightarrow> do {
          (b, s) \<leftarrow> (if uint digit_bytes < 256 then do {
                       (b, s) \<leftarrow> put8 b index ERL_SMALL_BIG_EXT;
                       put8 b s digit_bytes }
                     else do {
                       (b, s) \<leftarrow> put8 b index ERL_LARGE_BIG_EXT;
                       put32be b s digit_bytes });
          (b, s) \<leftarrow> put8 b s (word_of_int (is_neg big) :: u32);
          b \<leftarrow> put_big_digits b s (digits big) 0 n (unat digit_bytes);
          Some (0, Some b, s + uint digit_bytes) }
      | None \<Rightarrow>
          Some (0, None,
            index + (if uint digit_bytes < 256 then 2 else 5) + 1 + uint digit_bytes))"

function get_big_digits ::
  "bytes \<Rightarrow> int \<Rightarrow> u16 list \<Rightarrow> nat \<Rightarrow> nat \<Rightarrow> nat \<Rightarrow> u16 list option" where
  "get_big_digits b s dt i n digit_bytes =
     (if i < n then
        if i < length dt then do {
          (lo, _) \<leftarrow> get8 b (s + int (i * 2));
          let d = (ucast lo :: u16);
          d \<leftarrow> (if i * 2 + 1 < digit_bytes
               then do {
                 (hi, _) \<leftarrow> get8 b (s + int (i * 2 + 1));
                 Some (d OR push_bit 8 (ucast hi)) }
               else Some d);
          get_big_digits b s (dt[i := d]) (i + 1) n digit_bytes }
        else None
      else Some dt)"
  by pat_completeness auto
termination
  by (relation "measure (\<lambda>(b, s, dt, i, n, digit_bytes). n - i)") auto

declare put_big_digits.simps [simp del] get_big_digits.simps [simp del]

definition ei_decode_big :: "bytes \<Rightarrow> int \<Rightarrow> erlang_big option \<Rightarrow> erlang_big option dec_res" where
  "ei_decode_big buf index big = do {
     (t, s) \<leftarrow> get8 buf index;
     (if t = ERL_SMALL_BIG_EXT \<or> t = ERL_LARGE_BIG_EXT then do {
        (digit_bytes, s) \<leftarrow> (if t = ERL_SMALL_BIG_EXT
                            then do { (n, s) \<leftarrow> get8 buf s; Some (ucast n, s) }
                            else get32be buf s);
        (case big of
           Some big \<Rightarrow>
             if digit_bytes \<noteq> arity big then Some (Fail, index)
             else do {
               (sign, s) \<leftarrow> get8 buf s;
               dt \<leftarrow> get_big_digits buf s (digits big) 0 (digit_count digit_bytes) (unat digit_bytes);
               Some (Done (Some (big\<lparr>is_neg := uint sign, digits := dt\<rparr>)), s + uint digit_bytes) }
         | None \<Rightarrow> Some (Done None, s + 1 + uint digit_bytes)) }
      else Some (Fail, index)) }"

text \<open>The loop of \<open>I_comp\<close>, from the most significant digit down; \<open>None\<close> is an access outside.\<close>

fun I_comp_loop :: "u16 list \<Rightarrow> u16 list \<Rightarrow> nat \<Rightarrow> int option" where
  "I_comp_loop x y 0 = Some 0"
| "I_comp_loop x y (Suc xl) =
     (if xl < length x \<and> xl < length y then
        if x ! xl = y ! xl then I_comp_loop x y xl
        else Some (if x ! xl < y ! xl then -1 else 1)
      else None)"

definition I_comp :: "u16 list \<Rightarrow> nat \<Rightarrow> u16 list \<Rightarrow> nat \<Rightarrow> int option" where
  "I_comp x xl y yl =
     (if xl < yl then Some (-1) else if xl > yl then Some 1 else I_comp_loop x y xl)"

definition ei_big_comp :: "erlang_big \<Rightarrow> erlang_big \<Rightarrow> int option" where
  "ei_big_comp x y =
     (if is_neg x = is_neg y then do {
        c \<leftarrow> I_comp (digits x) (digit_count (arity x)) (digits y) (digit_count (arity y));
        Some (if is_neg x \<noteq> 0 then - c else c) }
      else Some (if is_neg x \<noteq> 0 then -1 else 1))"

text \<open>\<open>DLOW(s)\<close> and \<open>DHIGH(s)\<close> of the two's complement representation of an \<open>int\<close>.\<close>

definition ei_small_to_big :: "u32 \<Rightarrow> erlang_big \<Rightarrow> erlang_big cret" where
  "ei_small_to_big s b =
     (if digit_count (arity b) < 2 then Fail
      else Done (b\<lparr>is_neg := of_bool (sint s < 0),
        digits := (digits b)[0 := ucast s, 1 := ucast (drop_bit 16 s)]\<rparr>))"

section \<open>The value\<close>

fun digits_val :: "u16 list \<Rightarrow> nat" where
  "digits_val [] = 0"
| "digits_val (d # ds) = unat d + 2 ^ 16 * digits_val ds"

definition big_value :: "erlang_big \<Rightarrow> int" where
  "big_value b = (if is_neg b \<noteq> 0 then - int (digits_val (digits b)) else int (digits_val (digits b)))"

text \<open>An array of the length the arity asks for and a sign that is zero or one.\<close>

definition big_ok :: "erlang_big \<Rightarrow> bool" where
  "big_ok b \<longleftrightarrow> length (digits b) = digit_count (arity b) \<and> (is_neg b = 0 \<or> is_neg b = 1)"

text \<open>No leading zero digit.\<close>

definition normalised :: "erlang_big \<Rightarrow> bool" where
  "normalised b \<longleftrightarrow> digits b \<noteq> [] \<and> last (digits b) \<noteq> 0"

lemma digits_val_append: "digits_val (xs @ ys) = digits_val xs + 2 ^ (16 * length xs) * digits_val ys"
  by (induction xs) (simp_all add: algebra_simps power_add)

lemma digits_val_less: "digits_val xs < 2 ^ (16 * length xs)"
proof (induction xs)
  case (Cons x xs)
  have "unat x < 2 ^ 16" using unsigned_less [of x] by simp
  moreover have "2 ^ 16 * (digits_val xs + 1) \<le> 2 ^ 16 * 2 ^ (16 * length xs)"
    using Cons.IH by (intro mult_left_mono) simp_all
  ultimately show ?case by (simp add: power_add)
qed simp

lemma digits_val_ge:
  assumes "xs \<noteq> []" and "last xs \<noteq> 0"
  shows "2 ^ (16 * (length xs - 1)) \<le> digits_val xs"
proof -
  have "digits_val xs = digits_val (butlast xs) + 2 ^ (16 * (length xs - 1)) * unat (last xs)"
    using digits_val_append [of "butlast xs" "[last xs]"] assms(1) by simp
  moreover have "1 \<le> unat (last xs)" using assms(2) by (simp add: Suc_le_eq unat_gt_0)
  then have "2 ^ (16 * (length xs - 1)) * 1 \<le> 2 ^ (16 * (length xs - 1)) * unat (last xs)"
    by (rule mult_le_mono2)
  ultimately show ?thesis by linarith
qed

lemma I_comp_loop_val:
  assumes "xl \<le> length x" and "xl \<le> length y"
  shows "I_comp_loop x y xl = Some (sgn (int (digits_val (take xl x)) - int (digits_val (take xl y))))"
  using assms
proof (induction xl)
  case (Suc xl)
  have top: "digits_val (take (Suc xl) z) = digits_val (take xl z) + 2 ^ (16 * xl) * unat (z ! xl)"
    if "Suc xl \<le> length z" for z
    using that by (simp add: take_Suc_conv_app_nth digits_val_append)
  have low: "digits_val (take xl z) < 2 ^ (16 * xl)" if "Suc xl \<le> length z" for z
    using digits_val_less [of "take xl z"] that by simp
  consider "x ! xl = y ! xl" | "x ! xl < y ! xl" | "y ! xl < x ! xl" by fastforce
  then show ?case
  proof cases
    case 1
    with Suc top show ?thesis by simp
  next
    case 2
    then have "unat (x ! xl) + 1 \<le> unat (y ! xl)" by (simp add: word_less_nat_alt)
    then have "2 ^ (16 * xl) * (unat (x ! xl) + 1) \<le> 2 ^ (16 * xl) * unat (y ! xl)"
      by (rule mult_le_mono2)
    then have "digits_val (take (Suc xl) x) < digits_val (take (Suc xl) y)"
      using low [of x] Suc.prems by (simp add: top algebra_simps)
    with 2 Suc.prems show ?thesis by auto
  next
    case 3
    then have "unat (y ! xl) + 1 \<le> unat (x ! xl)" by (simp add: word_less_nat_alt)
    then have "2 ^ (16 * xl) * (unat (y ! xl) + 1) \<le> 2 ^ (16 * xl) * unat (x ! xl)"
      by (rule mult_le_mono2)
    then have "digits_val (take (Suc xl) y) < digits_val (take (Suc xl) x)"
      using low [of y] Suc.prems by (simp add: top algebra_simps)
    with 3 Suc.prems show ?thesis by auto
  qed
qed simp

lemma I_comp_val:
  assumes "length x = xl" and "length y = yl"
    and "x \<noteq> []" and "last x \<noteq> 0" and "y \<noteq> []" and "last y \<noteq> 0"
  shows "I_comp x xl y yl = Some (sgn (int (digits_val x) - int (digits_val y)))"
proof -
  have less: "digits_val u < digits_val v" if "length u < length v" "v \<noteq> []" "last v \<noteq> 0" for u v
  proof -
    have "digits_val u < 2 ^ (16 * length u)" by (rule digits_val_less)
    also have "\<dots> \<le> 2 ^ (16 * (length v - 1))" using that(1) by (intro power_increasing) auto
    also have "\<dots> \<le> digits_val v" using that(2,3) by (rule digits_val_ge)
    finally show ?thesis .
  qed
  consider "xl < yl" | "yl < xl" | "xl = yl" by linarith
  then show ?thesis
  proof cases
    case 1
    with less [of x y] assms show ?thesis by (simp add: I_comp_def)
  next
    case 2
    with less [of y x] assms show ?thesis by (simp add: I_comp_def)
  next
    case 3
    with I_comp_loop_val [of xl x y] assms show ?thesis by (simp add: I_comp_def)
  qed
qed

section \<open>External representation\<close>

definition digit_bytes_of :: "u16 list \<Rightarrow> bytes" where
  "digit_bytes_of ds = concat (map (\<lambda>d. [ucast d, ucast (drop_bit 8 d)]) ds)"

definition ext_big_struct :: "erlang_big \<Rightarrow> bytes" where
  "ext_big_struct b =
     (if uint (arity b) < 256 then [ERL_SMALL_BIG_EXT, ucast (arity b)]
      else ERL_LARGE_BIG_EXT # be32 (arity b))
     @ [word_of_int (is_neg b)] @ take (unat (arity b)) (digit_bytes_of (digits b))"

lemma length_digit_bytes_of [simp]: "length (digit_bytes_of ds) = 2 * length ds"
  by (induction ds) (simp_all add: digit_bytes_of_def)

lemma digit_bytes_of_Cons:
  "digit_bytes_of (d # ds) = [ucast d, ucast (drop_bit 8 d)] @ digit_bytes_of ds"
  by (simp add: digit_bytes_of_def)

lemma digit_count_bounds:
  assumes "arity b \<noteq> - 1"
  shows "unat (arity b) \<le> 2 * digit_count (arity b)" "2 * digit_count (arity b) \<le> unat (arity b) + 1"
proof -
  have "1 + arity b \<noteq> 0" using assms by (simp add: eq_neg_iff_add_eq_0 add.commute)
  then have "unat (arity b + 1) = unat (arity b) + 1" using unatSuc [of "arity b"] by (simp add: add.commute)
  then have "digit_count (arity b) = (unat (arity b) + 1) div 2"
    by (simp add: digit_count_def unat_div)
  then show "unat (arity b) \<le> 2 * digit_count (arity b)" "2 * digit_count (arity b) \<le> unat (arity b) + 1"
    by linarith+
qed

text \<open>The digits from \<open>i\<close> on, written one by one, are the rest of the byte string.\<close>

lemma put_big_digits_eq:
  assumes "i \<le> length dt" and "m \<le> 2 * length dt" and "2 * length dt \<le> m + 1"
    and "0 \<le> s" and "s + int m \<le> int (length b)"
  shows "put_big_digits b s dt i (length dt) m =
    Some (splice_at b (s + int (2 * i)) (take (m - 2 * i) (digit_bytes_of (drop i dt))))"
  using assms
proof (induction "length dt - i" arbitrary: i b)
  case 0
  then show ?case by (simp add: put_big_digits.simps digit_bytes_of_def)
next
  case (Suc k)
  then have i: "i < length dt" by simp
  let ?lo = "ucast (dt ! i) :: u8" and ?hi = "ucast (drop_bit 8 (dt ! i)) :: u8"
  have d: "digit_bytes_of (drop i dt) = [?lo, ?hi] @ digit_bytes_of (drop (Suc i) dt)"
    using i by (simp add: digit_bytes_of_Cons flip: Cons_nth_drop_Suc)
  show ?case
  proof (cases "2 * i + 1 < m")
    case True
    let ?b = "splice_at b (s + int (2 * i)) [?lo, ?hi]"
    have w: "put8 b (s + int (i * 2)) ?lo = Some (splice_at b (s + int (2 * i)) [?lo], s + int (2 * i) + 1)"
      "put8 (splice_at b (s + int (2 * i)) [?lo]) (s + int (i * 2 + 1)) ?hi = Some (?b, s + int (2 * i) + 2)"
      using True Suc.prems splice_at_append [of "s + int (2 * i)" "[?lo]" "[?hi]" b]
      by (simp_all add: put8_bytes put_bytes_in ac_simps)
    have l: "length ?b = length b" using Suc.prems True by simp
    have t: "take (m - 2 * i) ([?lo, ?hi] @ xs) = [?lo, ?hi] @ take (m - 2 * Suc i) xs" for xs
    proof -
      have "m - 2 * i = Suc (Suc (m - 2 * Suc i))" using True by simp
      then show ?thesis by (simp only: append_Cons append_Nil take_Suc_Cons)
    qed
    have "put_big_digits b s dt i (length dt) m = put_big_digits ?b s dt (Suc i) (length dt) m"
      using i True w by (subst put_big_digits.simps) (simp add: Let_def mult.commute)
    also have "\<dots> = Some (splice_at ?b (s + int (2 * Suc i)) (take (m - 2 * Suc i) (digit_bytes_of (drop (Suc i) dt))))"
      using Suc i l by simp
    also have "splice_at ?b (s + int (2 * Suc i)) (take (m - 2 * Suc i) (digit_bytes_of (drop (Suc i) dt)))
        = splice_at b (s + int (2 * i)) (take (m - 2 * i) (digit_bytes_of (drop i dt)))"
      unfolding d t using Suc.prems True
        splice_at_append [of "s + int (2 * i)" "[?lo, ?hi]" "take (m - 2 * Suc i) (digit_bytes_of (drop (Suc i) dt))" b]
      by (simp add: ac_simps)
    finally show ?thesis .
  next
    case False
    then have e: "m = 2 * i + 1" "Suc i = length dt" using i Suc.prems by linarith+
    then show ?thesis
      using Suc.prems i unfolding d
      by (subst put_big_digits.simps, subst put_big_digits.simps)
        (simp add: put8_bytes put_bytes_in Let_def mult.commute)
  qed
qed

lemma ucast_u16_parts: "ucast (ucast d :: u8) OR push_bit 8 (ucast (ucast (drop_bit 8 d) :: u8)) = d"
  for d :: u16
  by (subst or.commute) (use word_join_be16 [of d] in simp)

lemma nth_digit_bytes_of:
  "j < length ds \<Longrightarrow> digit_bytes_of ds ! (2 * j) = ucast (ds ! j)"
  "j < length ds \<Longrightarrow> digit_bytes_of ds ! (2 * j + 1) = ucast (drop_bit 8 (ds ! j))"
proof (induction ds arbitrary: j)
  case (Cons d ds)
  { case 1 with Cons.IH(1) [of "j - 1"] show ?case by (cases j) (simp_all add: digit_bytes_of_Cons) }
  { case 2 with Cons.IH(2) [of "j - 1"] show ?case by (cases j) (simp_all add: digit_bytes_of_Cons) }
qed simp_all

lemma get_big_digits_eq:
  assumes "sees b s (take m (digit_bytes_of dt))" and "i \<le> length dt"
    and "m \<le> 2 * length dt" and "2 * length dt \<le> m + 1" and "m = 2 * length dt \<or> unat (last dt) < 256"
    and "length dt' = length dt"
  shows "get_big_digits b s dt' i (length dt) m = Some (take i dt' @ drop i dt)"
  using assms
proof (induction "length dt - i" arbitrary: i dt')
  case 0
  then show ?case by (subst get_big_digits.simps) simp
next
  case (Suc k)
  then have i: "i < length dt" by simp
  define lo where "lo = (ucast (dt ! i) :: u8)"
  define hi where "hi = (ucast (drop_bit 8 (dt ! i)) :: u8)"
  note nth = nth_digit_bytes_of [OF i, folded lo_def hi_def]
  have g: "get8 b (s + int k) = Some (digit_bytes_of dt ! k, s + int k + 1)" if "k < m" for k
    using get8_nth [OF Suc.prems(1), of k] that Suc.prems(3) by simp
  have d: "(if 2 * i + 1 < m then ucast lo OR push_bit 8 (ucast hi) else ucast lo) = dt ! i"
  proof (cases "2 * i + 1 < m")
    case True
    then show ?thesis by (simp add: ucast_u16_parts lo_def hi_def)
  next
    case False
    then have "Suc i = length dt" "m \<noteq> 2 * length dt" using i Suc.prems by linarith+
    moreover have "last dt = dt ! (length dt - 1)" using i by (intro last_conv_nth) auto
    ultimately have "dt ! i = last dt" "unat (last dt) < 256" using Suc.prems(5)
      by (auto simp flip: \<open>Suc i = length dt\<close>)
    then have "int (unat (dt ! i)) < int 256" by (simp only: of_nat_less_iff)
    then have "uint (dt ! i) < 256" by simp
    then show ?thesis using False ucast_u8_id [of "dt ! i"] by (simp add: lo_def)
  qed
  have get_lo: "get8 b (s + int (i * 2)) = Some (lo, s + int (2 * i) + 1)"
    using g [of "2 * i"] nth(1) i Suc.prems(4) by (simp add: mult.commute)
  have get_hi: "get8 b (s + int (i * 2 + 1)) = Some (hi, s + int (2 * i + 1) + 1)" if "2 * i + 1 < m"
    using g [of "2 * i + 1"] nth(2) that by (simp add: mult.commute)
  have "get_big_digits b s dt' i (length dt) m = get_big_digits b s (dt'[i := dt ! i]) (Suc i) (length dt) m"
  proof (cases "2 * i + 1 < m")
    case True
    with i Suc.prems(6) get_lo get_hi [OF True] d show ?thesis
      by (subst get_big_digits.simps) (simp add: Let_def mult.commute)
  next
    case False
    with i Suc.prems(6) get_lo d show ?thesis
      by (subst get_big_digits.simps) (simp add: Let_def mult.commute)
  qed
  also have "\<dots> = Some (take (Suc i) (dt'[i := dt ! i]) @ drop (Suc i) dt)"
    by (rule Suc.hyps(1)) (use Suc.hyps(2) Suc.prems i in auto)
  also have "take (Suc i) (dt'[i := dt ! i]) @ drop (Suc i) dt = take i dt' @ drop i dt"
    using i Suc.prems(6) by (simp add: take_Suc_conv_app_nth flip: Cons_nth_drop_Suc)
  finally show ?case .
qed

lemma length_ext_big_struct:
  assumes "big_ok b" and "arity b \<noteq> - 1"
  shows "int (length (ext_big_struct b)) = (if uint (arity b) < 256 then 2 else 5) + 1 + uint (arity b)"
  using assms digit_count_bounds(1) [OF assms(2)]
  by (simp add: ext_big_struct_def big_ok_def)

lemma enc_big:
  assumes "big_ok b" and "arity b \<noteq> - 1"
  shows "ei_encoder (\<lambda>buf i. ei_encode_big buf i b) (Some (ext_big_struct b))"
proof
  define m where "m = unat (arity b)"
  define h where "h = (if uint (arity b) < 256 then [ERL_SMALL_BIG_EXT, ucast (arity b)]
      else ERL_LARGE_BIG_EXT # be32 (arity b)) @ [word_of_int (is_neg b)]"
  define r where "r = take m (digit_bytes_of (digits b))"
  have x: "ext_big_struct b = h @ r" by (simp add: ext_big_struct_def h_def r_def m_def)
  have n: "length (digits b) = digit_count (arity b)" using assms(1) by (simp add: big_ok_def)
  have m: "m \<le> 2 * length (digits b)" "2 * length (digits b) \<le> m + 1" "uint (arity b) = int m"
    using digit_count_bounds [OF assms(2)] by (simp_all add: n m_def)
  then have lr: "length r = m" by (simp add: r_def)
  fix bs i and buf :: bytes
  assume "Some (ext_big_struct b) = Some bs"
  then have bs: "bs = h @ r" by (simp add: x)
  then show "ei_encode_big None i b = Some (0, None, i + int (length bs))"
    using length_ext_big_struct [OF assms] by (simp add: ei_encode_big_def Let_def x)
  assume i: "0 \<le> i" "i + int (length bs) \<le> int (length buf)"
  then have room: "i + int (length h) + int m \<le> int (length buf)" by (simp add: bs lr)
  have w: "put_bytes buf i h = Some (splice_at buf i h, i + int (length h))"
    using i(1) room by (intro put_bytes_in) auto
  have p: "put_big_digits (splice_at buf i h) (i + int (length h)) (digits b) 0 (digit_count (arity b)) m
      = Some (splice_at buf i bs)"
    using put_big_digits_eq [of 0 "digits b" m "i + int (length h)" "splice_at buf i h"] m i(1) room
      splice_at_append [of i h r buf]
    by (simp add: n [symmetric] bs r_def [symmetric] lr)
  have "ei_encode_big (Some buf) i b = do {
      (buf, s) \<leftarrow> put_bytes buf i h;
      buf \<leftarrow> put_big_digits buf s (digits b) 0 (digit_count (arity b)) m;
      Some (0, Some buf, s + uint (arity b)) }"
    by (cases "uint (arity b) < 256")
      (simp_all add: ei_encode_big_def Let_def h_def m_def put8_bytes put_words put_seq
        flip: put_bytes_append)
  with w p m(3) show "ei_encode_big (Some buf) i b = Some (0, Some (splice_at buf i bs), i + int (length bs))"
    by (simp add: bs lr)
qed simp

lemma ei_decode_big_sees:
  assumes "sees buf i (ext_big_struct b)" and "big_ok b" and "arity b \<noteq> - 1"
    and "unat (arity b) = 2 * length (digits b) \<or> unat (last (digits b)) < 256"
    and "arity b' = arity b" and "length (digits b') = length (digits b)"
  shows "ei_decode_big buf i (Some b') = Some (Done (Some (b'\<lparr>is_neg := is_neg b, digits := digits b\<rparr>)),
    i + int (length (ext_big_struct b)))"
proof -
  have n: "length (digits b) = digit_count (arity b)" and sg: "uint (word_of_int (is_neg b) :: u8) = is_neg b"
    using assms(2) by (auto simp: big_ok_def)
  let ?k = "if uint (arity b) < 256 then 2 else 5 :: int"
  let ?r = "take (unat (arity b)) (digit_bytes_of (digits b))"
  have hdr: "get8 buf (i + ?k) = Some (word_of_int (is_neg b), i + ?k + 1) \<and> sees buf (i + ?k + 1) ?r
      \<and> get8 buf i = Some (if uint (arity b) < 256 then ERL_SMALL_BIG_EXT else ERL_LARGE_BIG_EXT, i + 1)
      \<and> (if uint (arity b) < 256 then get8 buf (i + 1) = Some (ucast (arity b), i + 2)
         else get32be buf (i + 1) = Some (arity b, i + 5))"
  proof (cases "uint (arity b) < 256")
    case True
    with assms(1) have "sees buf i ([ERL_SMALL_BIG_EXT, ucast (arity b), word_of_int (is_neg b)] @ ?r)"
      by (simp add: ext_big_struct_def)
    with True show ?thesis by (simp add: sees_Cons sees_append get8_def add.commute)
  next
    case False
    with assms(1) have s: "sees buf i (ERL_LARGE_BIG_EXT # be32 (arity b) @ word_of_int (is_neg b) # ?r)"
      by (simp add: ext_big_struct_def)
    then have "sees buf (i + 1) (be32 (arity b))" by (simp add: sees_Cons sees_append)
    with s False show ?thesis
      by (auto simp: sees_Cons sees_append get8_def add.commute [of i] dest!: sees_getters)
  qed
  have d: "get_big_digits buf (i + ?k + 1) (digits b') 0 (digit_count (arity b)) (unat (arity b)) = Some (digits b)"
    using get_big_digits_eq [of buf "i + ?k + 1" "unat (arity b)" "digits b" 0 "digits b'"] hdr
      digit_count_bounds [OF assms(3)] assms(4,6)
    by (simp add: n)
  have small: "uint (arity b) < 256 \<Longrightarrow> ucast (ucast (arity b) :: u8) = arity b"
    by (rule ucast_u8_id)
  show ?thesis
    unfolding length_ext_big_struct [OF assms(2,3)]
    using hdr d small sg assms(5) by (cases "uint (arity b) < 256") (simp_all add: ei_decode_big_def)
qed

section \<open>Properties\<close>

text \<open>
  C22. A big number of any size, encoded in the room the sizing pass asks for, is decoded into a
  structure of the same arity with the same sign and the same digits; the bytes around it are
  unchanged.
\<close>

theorem ei_big_round_trip:
  assumes "big_ok b" and "arity b \<noteq> - 1"
    and "unat (arity b) = 2 * length (digits b) \<or> unat (last (digits b)) < 256"
    and "ei_encode_big None i b = Some (0, None, j)" and "0 \<le> i" and "j \<le> int (length buf)"
  shows "\<exists>buf' b0. ei_alloc_big True True (arity b) = Some b0
    \<and> ei_encode_big (Some buf) i b = Some (0, Some buf', j)
    \<and> ei_decode_big buf' i (Some b0) = Some (Done (Some b), j)
    \<and> length buf' = length buf \<and> take (nat i) buf' = take (nat i) buf \<and> drop (nat j) buf' = drop (nat j) buf"
proof -
  note enc = enc_big [OF assms(1,2)]
  have j: "j = i + int (length (ext_big_struct b))"
    using ei_encoder.size_pass [OF enc refl, of i] assms(4) by simp
  with assms(6) have room: "i + int (length (ext_big_struct b)) \<le> int (length buf)" by simp
  let ?b0 = "\<lparr>arity = arity b, is_neg = 0, digits = replicate (digit_count (arity b)) 0\<rparr>"
  have "ei_decode_big (splice_at buf i (ext_big_struct b)) i (Some ?b0) = Some (Done (Some b), j)"
    using ei_decode_big_sees [OF sees_splice_at [OF assms(5) room] assms(1-3), of ?b0] assms(1) j
    by (simp add: big_ok_def)
  then show ?thesis
    using ei_encoder.write_pass [OF enc refl assms(5) room] ei_encoder.sized_write_frame [OF enc assms(4-6)] j
    by (auto simp: ei_alloc_big_def)
qed

theorem ei_big_round_trip_witness:
  "\<exists>buf' b0. ei_alloc_big True True 5 = Some b0
    \<and> ei_encode_big (Some (replicate 9 0)) 0 \<lparr>arity = 5, is_neg = 1, digits = [1, 2, 3]\<rparr> = Some (0, Some buf', 8)
    \<and> ei_decode_big buf' 0 (Some b0) = Some (Done (Some \<lparr>arity = 5, is_neg = 1, digits = [1, 2, 3]\<rparr>), 8)"
proof -
  let ?b = "\<lparr>arity = 5, is_neg = 1, digits = [1, 2, 3]\<rparr>"
  have "big_ok ?b" "arity ?b \<noteq> - 1"
    "unat (arity ?b) = 2 * length (digits ?b) \<or> unat (last (digits ?b)) < 256"
    "ei_encode_big None 0 ?b = Some (0, None, 8)" "(0 :: int) \<le> 0" "8 \<le> int (length (replicate 9 (0 :: u8)))"
    by (simp_all add: big_ok_def digit_count_def ei_encode_big_def)
  from ei_big_round_trip [OF this] show ?thesis by auto
qed

text \<open>
  C23. \<open>ei_big_comp\<close> orders two big numbers without leading zero digits as their values.
\<close>

theorem ei_big_comp_order:
  assumes "big_ok x" and "big_ok y" and "normalised x" and "normalised y"
  shows "ei_big_comp x y = Some (sgn (big_value x - big_value y))"
proof -
  have pos: "0 < digits_val (digits b)" if "normalised b" for b
    using digits_val_ge [of "digits b"] that by (auto simp: normalised_def intro: less_le_trans [of 0 "2 ^ _"])
  show ?thesis
  proof (cases "is_neg x = is_neg y")
    case True
    have "I_comp (digits x) (digit_count (arity x)) (digits y) (digit_count (arity y))
        = Some (sgn (int (digits_val (digits x)) - int (digits_val (digits y))))"
      using assms by (intro I_comp_val) (auto simp: big_ok_def normalised_def)
    with True show ?thesis
      by (auto simp: ei_big_comp_def big_value_def sgn_if)
  next
    case False
    with assms pos [of x] pos [of y] show ?thesis
      by (auto simp: ei_big_comp_def big_value_def big_ok_def sgn_if)
  qed
qed

theorem ei_big_comp_order_witness:
  "ei_big_comp \<lparr>arity = 3, is_neg = 1, digits = [7, 1]\<rparr> \<lparr>arity = 3, is_neg = 1, digits = [5, 2]\<rparr> = Some 1"
  using ei_big_comp_order [of "\<lparr>arity = 3, is_neg = 1, digits = [7, 1]\<rparr>" "\<lparr>arity = 3, is_neg = 1, digits = [5, 2]\<rparr>"]
  by (simp add: big_ok_def normalised_def digit_count_def big_value_def)

text \<open>
  \<open>ei_small_to_big\<close> fails exactly for a structure with less than two digits.  Otherwise it replaces the
  two lowest digits and the sign and keeps the higher digits: for an argument that is not negative the
  value is the argument plus what the higher digits count; for a negative one the sign is set but the
  digits are those of the two's complement, so that even with all higher digits zero the value is
  \<open>-(s + 2 ^ 32)\<close> and not \<open>s\<close>.
\<close>

theorem ei_small_to_big_value:
  assumes "length (digits b) = digit_count (arity b)"
  shows "if digit_count (arity b) < 2 then ei_small_to_big s b = Fail
    else \<exists>b'. ei_small_to_big s b = Done b' \<and> arity b' = arity b \<and> length (digits b') = length (digits b)
      \<and> (let high = 2 ^ 32 * int (digits_val (drop 2 (digits b))) in
         big_value b' = (if 0 \<le> sint s then sint s + high else - (sint s + 2 ^ 32 + high)))"
proof (cases "digit_count (arity b) < 2")
  case True
  then show ?thesis by (simp add: ei_small_to_big_def)
next
  case False
  then obtain d0 d1 ds where d: "digits b = d0 # d1 # ds"
    using assms by (cases "digits b"; cases "tl (digits b)") auto
  have v: "digits_val (ucast s # ucast (drop_bit 16 s) # ds) = unat s + 2 ^ 32 * digits_val ds"
  proof -
    have "unat s < 2 ^ 32" using unsigned_less [of s] by simp
    then have "unat s div 65536 < 65536" by (simp add: div_less_iff_less_mult)
    then show ?thesis
      by (simp add: unsigned_ucast_eq unsigned_drop_bit_eq take_bit_eq_mod drop_bit_eq_div unat_div)
  qed
  have "sint s \<ge> - (2 ^ 31)" using sint_ge [of s] by simp
  then have "uint s = sint s + 2 ^ 32" if "sint s < 0"
    using that uint_sint [of s] mod_pos_pos_trivial [of "sint s + 2 ^ 32" "2 ^ 32"]
    by (simp add: take_bit_eq_mod)
  moreover have "big_value (b\<lparr>is_neg := of_bool (sint s < 0), digits := ucast s # ucast (drop_bit 16 s) # ds\<rparr>) =
      (if sint s < 0 then - (uint s + 2 ^ 32 * int (digits_val ds)) else uint s + 2 ^ 32 * int (digits_val ds))"
    by (simp add: big_value_def v del: digits_val.simps)
  ultimately show ?thesis
    using uint_of_sint(2) [of s] False by (simp add: ei_small_to_big_def d Let_def)
qed

theorem ei_small_to_big_value_witness:
  "\<exists>b'. ei_small_to_big (- 1) \<lparr>arity = 4, is_neg = 0, digits = [0, 0]\<rparr> = Done b' \<and> big_value b' = - 4294967295"
  using ei_small_to_big_value [of "\<lparr>arity = 4, is_neg = 0, digits = [0, 0]\<rparr>" "- 1"]
  by (auto simp: digit_count_def)

end
