(* ===== verification/Ei_Ids.thy ===== *)
theory Ei_Ids
  imports Ei_Atom Ei_Integer Ei_Compound
begin

text \<open>
  Process identifiers, ports, references and trace tokens: \<open>encode_pid.c\<close>, \<open>encode_port.c\<close>,
  \<open>encode_ref.c\<close>, \<open>encode_trace.c\<close> and their decoders.  A node name is the contents of a
  character array; the encoders use it up to its first zero.
\<close>

section \<open>Definitions\<close>

record erlang_pid =
  pid_node :: bytes
  pid_num :: u32
  pid_serial :: u32
  pid_creation :: u32

record erlang_port =
  port_node :: bytes
  port_id :: u64
  port_creation :: u32

record erlang_ref =
  ref_node :: bytes
  ref_len :: int
  ref_n :: "u32 list"
  ref_creation :: u32

record erlang_trace =
  trace_serial :: u64
  trace_prev :: u64
  trace_from :: erlang_pid
  trace_label :: u64
  trace_flags :: u64

subsection \<open>Encoders\<close>

text \<open>The node goes first, behind the place of the tag; a failure leaves the index moved.\<close>

definition ei_encode_pid :: "bytes option \<Rightarrow> int \<Rightarrow> erlang_pid \<Rightarrow> enc_res" where
  "ei_encode_pid buf index p = do {
     let s = index;
     len \<leftarrow> c_strlen (pid_node p);
     (r, buf, index) \<leftarrow> ei_encode_atom_len_as buf (index + 1) (pid_node p) len ERLANG_UTF8
       (ERLANG_LATIN1 OR ERLANG_UTF8);
     (if r < 0 then Some (-1, buf, index)
      else case buf of
        Some b \<Rightarrow> do {
          (b, _) \<leftarrow> put8 b s ERL_NEW_PID_EXT;
          (b, s) \<leftarrow> put32be b index (pid_num p);
          (b, s) \<leftarrow> put32be b s (pid_serial p);
          (b, s) \<leftarrow> put32be b s (pid_creation p);
          Some (0, Some b, index + (4 + 4 + 4)) }
      | None \<Rightarrow> Some (0, None, index + (4 + 4 + 4))) }"

definition ei_encode_port :: "bytes option \<Rightarrow> int \<Rightarrow> erlang_port \<Rightarrow> enc_res" where
  "ei_encode_port buf index p = do {
     let s = index;
     len \<leftarrow> c_strlen (port_node p);
     (r, buf, index) \<leftarrow> ei_encode_atom_len_as buf (index + 1) (port_node p) len ERLANG_UTF8
       (ERLANG_LATIN1 OR ERLANG_UTF8);
     (if r < 0 then Some (-1, buf, index)
      else if port_id p > 0x0fffffff then
        (case buf of
           Some b \<Rightarrow> do {
             (b, _) \<leftarrow> put8 b s ERL_V4_PORT_EXT;
             (b, s) \<leftarrow> put64be b index (port_id p);
             (b, s) \<leftarrow> put32be b s (port_creation p);
             Some (0, Some b, index + (8 + 4)) }
         | None \<Rightarrow> Some (0, None, index + (8 + 4)))
      else
        (case buf of
           Some b \<Rightarrow> do {
             (b, _) \<leftarrow> put8 b s ERL_NEW_PORT_EXT;
             (b, s) \<leftarrow> put32be b index (port_id p);
             (b, s) \<leftarrow> put32be b s (port_creation p);
             Some (0, Some b, index + (4 + 4)) }
         | None \<Rightarrow> Some (0, None, index + (4 + 4)))) }"

text \<open>The loop over the integers of a reference; reading beyond the array has no result.\<close>

function put_ref_ints :: "bytes \<Rightarrow> int \<Rightarrow> u32 list \<Rightarrow> int \<Rightarrow> int \<Rightarrow> (bytes \<times> int) option" where
  "put_ref_ints b s n i len =
     (if i < len then
        if 0 \<le> i \<and> i < int (length n) then do {
          (b, s) \<leftarrow> put32be b s (n ! nat i);
          put_ref_ints b s n (i + 1) len }
        else None
      else Some (b, s))"
  by pat_completeness auto
termination
  by (relation "measure (\<lambda>(b, s, n, i, len). nat (len - i))") auto

declare put_ref_ints.simps [simp del]

definition ei_encode_ref :: "bytes option \<Rightarrow> int \<Rightarrow> erlang_ref \<Rightarrow> enc_res" where
  "ei_encode_ref buf index p = do {
     let s = index;
     len \<leftarrow> c_strlen (ref_node p);
     (r, buf, index) \<leftarrow> ei_encode_atom_len_as buf (index + (1 + 2)) (ref_node p) len ERLANG_UTF8
       (ERLANG_LATIN1 OR ERLANG_UTF8);
     (if r < 0 then Some (-1, buf, index)
      else case buf of
        Some b \<Rightarrow> do {
          (b, s) \<leftarrow> put8 b s ERL_NEWER_REFERENCE_EXT;
          (b, s) \<leftarrow> put16be b s (word_of_int (ref_len p) :: u32);
          (b, s) \<leftarrow> put32be b index (ref_creation p);
          (b, s) \<leftarrow> put_ref_ints b s (ref_n p) 0 (ref_len p);
          Some (0, Some b, index + (ref_len p * 4 + 4)) }
      | None \<Rightarrow> Some (0, None, index + (ref_len p * 4 + 4))) }"

definition ei_encode_trace :: "bytes option \<Rightarrow> int \<Rightarrow> erlang_trace \<Rightarrow> enc_res" where
  "ei_encode_trace buf index p =
     enc_then (\<lambda>buf i. ei_encode_tuple_header buf i 5)
    (enc_then (\<lambda>buf i. ei_encode_long buf i (trace_flags p))
    (enc_then (\<lambda>buf i. ei_encode_long buf i (trace_label p))
    (enc_then (\<lambda>buf i. ei_encode_long buf i (trace_serial p))
    (enc_then (\<lambda>buf i. ei_encode_pid buf i (trace_from p))
              (\<lambda>buf i. ei_encode_long buf i (trace_prev p)))))) buf index"

subsection \<open>Decoders\<close>

text \<open>
  With \<open>p\<close> \<open>NULL\<close> (\<open>store\<close> is false) nothing is stored and the integers are skipped without being
  read.
\<close>

definition ei_decode_pid :: "bool \<Rightarrow> bytes \<Rightarrow> int \<Rightarrow> erlang_pid option dec_res" where
  "ei_decode_pid store buf index = do {
     (tag, s) \<leftarrow> get8 buf index;
     (if tag \<noteq> ERL_PID_EXT \<and> tag \<noteq> ERL_NEW_PID_EXT then Some (Fail, index)
      else do {
        (r, s) \<leftarrow> get_atom buf s;
        (case r of
           Fail \<Rightarrow> Some (Fail, index)
         | Done (node, _) \<Rightarrow>
             if store then do {
               (num, s) \<leftarrow> get32be buf s;
               (serial, s) \<leftarrow> get32be buf s;
               (creation, s) \<leftarrow> (if tag = ERL_PID_EXT
                                 then do { (c, s) \<leftarrow> get8 buf s; Some (ucast (c AND 3), s) }
                                 else get32be buf s);
               Some (Done (Some \<lparr>pid_node = node, pid_num = num, pid_serial = serial,
                       pid_creation = creation\<rparr>), s) }
             else Some (Done None, s + (if tag = ERL_PID_EXT then 9 else 12))) }) }"

text \<open>A 32-bit port number is widened from an \<open>int\<close>, with its sign.\<close>

definition ei_decode_port :: "bool \<Rightarrow> bytes \<Rightarrow> int \<Rightarrow> erlang_port option dec_res" where
  "ei_decode_port store buf index = do {
     (tag, s) \<leftarrow> get8 buf index;
     (if tag \<noteq> ERL_V4_PORT_EXT \<and> tag \<noteq> ERL_NEW_PORT_EXT \<and> tag \<noteq> ERL_PORT_EXT
      then Some (Fail, index)
      else do {
        (r, s) \<leftarrow> get_atom buf s;
        (case r of
           Fail \<Rightarrow> Some (Fail, index)
         | Done (node, _) \<Rightarrow>
             if store then do {
               (id, s) \<leftarrow> (if tag = ERL_V4_PORT_EXT then get64be buf s
                          else do { (id, s) \<leftarrow> get32be buf s; Some (scast id, s) });
               (creation, s) \<leftarrow> (if tag = ERL_PORT_EXT
                                 then do { (c, s) \<leftarrow> get8 buf s; Some (ucast (c AND 3), s) }
                                 else get32be buf s);
               Some (Done (Some \<lparr>port_node = node, port_id = id, port_creation = creation\<rparr>), s) }
             else Some (Done None,
               s + (if tag = ERL_V4_PORT_EXT then 12 else if tag = ERL_NEW_PORT_EXT then 8 else 5))) }) }"

text \<open>The identifier integers of a reference: at most five.\<close>

fun get_ref_ints :: "bytes \<Rightarrow> int \<Rightarrow> nat \<Rightarrow> (u32 list \<times> int) option" where
  "get_ref_ints buf s 0 = Some ([], s)"
| "get_ref_ints buf s (Suc k) = do {
     (w, s) \<leftarrow> get32be buf s;
     (ws, s) \<leftarrow> get_ref_ints buf s k;
     Some (w # ws, s) }"

text \<open>
  The old format only sets the first integer: \<open>n\<close> is the contents of the array before.
\<close>

definition ei_decode_ref :: "bool \<Rightarrow> u32 list \<Rightarrow> bytes \<Rightarrow> int \<Rightarrow> erlang_ref option dec_res" where
  "ei_decode_ref store n buf index = do {
     (tag, s) \<leftarrow> get8 buf index;
     (if tag = ERL_REFERENCE_EXT then do {
        (r, s) \<leftarrow> get_atom buf s;
        (case r of
           Fail \<Rightarrow> Some (Fail, index)
         | Done (node, _) \<Rightarrow>
             if store then do {
               (n0, s) \<leftarrow> get32be buf s;
               (c, s) \<leftarrow> get8 buf s;
               Some (Done (Some \<lparr>ref_node = node, ref_len = 1, ref_n = n[0 := n0],
                       ref_creation = ucast (c AND 3)\<rparr>), s) }
             else Some (Done None, s + 5)) }
      else if tag = ERL_NEW_REFERENCE_EXT \<or> tag = ERL_NEWER_REFERENCE_EXT then do {
        (w, s) \<leftarrow> get16be buf s;
        let count = unat w;
        (if count > 5 then Some (Fail, index)
         else do {
           (r, s) \<leftarrow> get_atom buf s;
           (case r of
              Fail \<Rightarrow> Some (Fail, index)
            | Done (node, _) \<Rightarrow>
                if store then do {
                  (creation, s) \<leftarrow> (if tag = ERL_NEW_REFERENCE_EXT
                                    then do { (c, s) \<leftarrow> get8 buf s; Some (ucast (c AND 3), s) }
                                    else get32be buf s);
                  (ws, s) \<leftarrow> get_ref_ints buf s count;
                  Some (Done (Some \<lparr>ref_node = node, ref_len = int count,
                          ref_n = ws @ replicate (5 - count) 0, ref_creation = creation\<rparr>), s) }
                else Some (Done None,
                  s + (if tag = ERL_NEW_REFERENCE_EXT then 1 else 4) + 4 * int count)) }) }
      else Some (Fail, index)) }"

text \<open>The idiom \<open>if (ei_decode_x(buf, &tindex, p) || ...) return -1;\<close>: a failure leaves \<open>index\<close>.\<close>

definition dec_then :: "'a dec_res \<Rightarrow> int \<Rightarrow> ('a \<Rightarrow> int \<Rightarrow> 'b dec_res) \<Rightarrow> 'b dec_res" where
  "dec_then d index f = do {
     (r, tindex) \<leftarrow> d;
     (case r of Fail \<Rightarrow> Some (Fail, index) | Done x \<Rightarrow> f x tindex) }"

definition ei_decode_trace :: "bool \<Rightarrow> bytes \<Rightarrow> int \<Rightarrow> erlang_trace option dec_res" where
  "ei_decode_trace store buf index =
     dec_then (ei_decode_tuple_header buf index) index (\<lambda>arity tindex.
     if arity \<noteq> 5 then Some (Fail, index)
     else
     dec_then (ei_decode_long buf tindex) index (\<lambda>flags tindex.
     dec_then (ei_decode_long buf tindex) index (\<lambda>label tindex.
     dec_then (ei_decode_long buf tindex) index (\<lambda>serial tindex.
     dec_then (ei_decode_pid store buf tindex) index (\<lambda>from tindex.
     dec_then (ei_decode_long buf tindex) index (\<lambda>prev tindex.
       Some (Done (map_option (\<lambda>from. \<lparr>trace_serial = serial, trace_prev = prev, trace_from = from,
         trace_label = label, trace_flags = flags\<rparr>) from), tindex)))))))"

section \<open>External representations\<close>

definition c_string :: "bytes \<Rightarrow> bytes" where
  "c_string p = takeWhile (\<lambda>c. c \<noteq> 0) p"

definition ext_pid :: "erlang_pid \<Rightarrow> bytes option" where
  "ext_pid p = map_option (\<lambda>a. [ERL_NEW_PID_EXT] @ a @
     (be32 (pid_num p) @ be32 (pid_serial p) @ be32 (pid_creation p)))
     (ext_atom (c_string (pid_node p)) ERLANG_UTF8)"

definition ext_port :: "erlang_port \<Rightarrow> bytes option" where
  "ext_port p = map_option (\<lambda>a.
     if port_id p > 0x0fffffff
     then [ERL_V4_PORT_EXT] @ a @ (be64 (port_id p) @ be32 (port_creation p))
     else [ERL_NEW_PORT_EXT] @ a @ (be32 (port_id p) @ be32 (port_creation p)))
     (ext_atom (c_string (port_node p)) ERLANG_UTF8)"

definition ext_ref :: "erlang_ref \<Rightarrow> bytes option" where
  "ext_ref p = map_option (\<lambda>a.
     (ERL_NEWER_REFERENCE_EXT # be16 (word_of_int (ref_len p) :: u32)) @ a @
     (be32 (ref_creation p) @ concat (map be32 (take (nat (ref_len p)) (ref_n p)))))
     (ext_atom (c_string (ref_node p)) ERLANG_UTF8)"

definition ext_trace :: "erlang_trace \<Rightarrow> bytes option" where
  "ext_trace p = map_option (\<lambda>from.
     [ERL_SMALL_TUPLE_EXT, 5] @ ext_longlong (trace_flags p) @ ext_longlong (trace_label p)
     @ ext_longlong (trace_serial p) @ from @ ext_longlong (trace_prev p))
     (ext_pid (trace_from p))"

section \<open>Encoders around an atom\<close>

text \<open>The shape the three encoders share: what goes before and what goes behind the node.\<close>

definition enc_around ::
  "bytes \<Rightarrow> bytes \<Rightarrow> (bytes option \<Rightarrow> int \<Rightarrow> enc_res) \<Rightarrow> bytes option \<Rightarrow> int \<Rightarrow> enc_res" where
  "enc_around pre post enc buf i = do {
     (r, buf, j) \<leftarrow> enc buf (i + int (length pre));
     (if r < 0 then Some (-1, buf, j)
      else case buf of
        Some b \<Rightarrow> do {
          (b, _) \<leftarrow> put_bytes b i pre;
          (b, _) \<leftarrow> put_bytes b j post;
          Some (0, Some b, j + int (length post)) }
      | None \<Rightarrow> Some (0, None, j + int (length post))) }"

lemma enc_around:
  assumes "ei_encoder enc x"
  shows "ei_encoder (enc_around pre post enc) (map_option (\<lambda>a. pre @ a @ post) x)"
proof
  fix bs i and b :: bytes
  assume "map_option (\<lambda>a. pre @ a @ post) x = Some bs"
  then obtain a where x: "x = Some a" and bs: "bs = pre @ a @ post" by auto
  show "enc_around pre post enc None i = Some (0, None, i + int (length bs))"
    using ei_encoder.size_pass [OF assms x] by (simp add: enc_around_def bs)
  assume i: "0 \<le> i" "i + int (length bs) \<le> int (length b)"
  let ?j = "i + int (length pre)"
  have e: "enc (Some b) ?j = Some (0, Some (splice_at b ?j a), ?j + int (length a))"
    using i by (intro ei_encoder.write_pass [OF assms x]) (auto simp: bs)
  have s1: "splice_at (splice_at b ?j a) i pre = splice_at b i (pre @ a)"
    using i by (intro splice_at_prepend) (auto simp: bs)
  have s2: "splice_at (splice_at b i (pre @ a)) (?j + int (length a)) post = splice_at b i bs"
    using splice_at_append [of i "pre @ a" post b] i by (simp add: bs add.assoc)
  show "enc_around pre post enc (Some b) i = Some (0, Some (splice_at b i bs), i + int (length bs))"
    using i s1 s2 by (simp add: enc_around_def e put_bytes_in bs)
next
  fix i
  assume "map_option (\<lambda>a. pre @ a @ post) x = None"
  then have "x = None" by simp
  from ei_encoder.reject [OF assms this, of "i + int (length pre)"]
  show "\<exists>i'. enc_around pre post enc None i = Some (-1, None, i')" by (auto simp: enc_around_def)
qed

lemma c_strlen_c_string:
  assumes "0 \<in> set p"
  shows "c_strlen p = Some (int (length (c_string p)))" "p = c_string p @ dropWhile (\<lambda>c. c \<noteq> 0) p"
  using assms by (simp_all add: c_strlen_def c_string_def)

abbreviation enc_node :: "bytes \<Rightarrow> bytes option \<Rightarrow> int \<Rightarrow> enc_res" where
  "enc_node node \<equiv> \<lambda>buf i. ei_encode_atom_len_as buf i node (int (length (c_string node))) ERLANG_UTF8
     (ERLANG_LATIN1 OR ERLANG_UTF8)"

lemma enc_node: "ei_encoder (enc_node node) (ext_atom (c_string node) ERLANG_UTF8)"
proof -
  have "node = c_string node @ dropWhile (\<lambda>c. c \<noteq> 0) node" by (simp add: c_string_def)
  with enc_atom.ei_encoder_axioms [of "c_string node" "dropWhile (\<lambda>c. c \<noteq> 0) node" ERLANG_UTF8]
  show ?thesis by simp
qed

text \<open>The bodies behind the call that encodes the node, compared for each outcome of that call.\<close>

lemma enc_pid:
  assumes "0 \<in> set (pid_node p)"
  shows "ei_encoder (\<lambda>buf i. ei_encode_pid buf i p) (ext_pid p)"
proof -
  let ?tl = "be32 (pid_num p) @ be32 (pid_serial p) @ be32 (pid_creation p)"
  have "(\<lambda>buf i. ei_encode_pid buf i p) = enc_around [ERL_NEW_PID_EXT] ?tl (enc_node (pid_node p))"
    by (intro ext, simp only: ei_encode_pid_def enc_around_def c_strlen_c_string(1) [OF assms] Let_def
        bind.bind_lunit, intro Option.bind_cong)
      (auto simp: put8_bytes put_words put_seq split: option.split)
  then show ?thesis
    using enc_around [OF enc_node, of "[ERL_NEW_PID_EXT]" ?tl "pid_node p"] by (simp add: ext_pid_def)
qed

lemma enc_port:
  assumes "0 \<in> set (port_node p)"
  shows "ei_encoder (\<lambda>buf i. ei_encode_port buf i p) (ext_port p)"
proof -
  let ?tag = "if port_id p > 0x0fffffff then ERL_V4_PORT_EXT else ERL_NEW_PORT_EXT"
  let ?tl = "(if port_id p > 0x0fffffff then be64 (port_id p) else be32 (port_id p)) @ be32 (port_creation p)"
  have "(\<lambda>buf i. ei_encode_port buf i p) = enc_around [?tag] ?tl (enc_node (port_node p))"
    by (intro ext, simp only: ei_encode_port_def enc_around_def c_strlen_c_string(1) [OF assms] Let_def
        bind.bind_lunit, intro Option.bind_cong)
      (auto simp: put8_bytes put_words put_seq split: option.split)
  then show ?thesis
    using enc_around [OF enc_node, of "[?tag]" ?tl "port_node p"]
    by (simp add: ext_port_def split: if_splits)
qed

lemma put_ref_ints_eq:
  assumes "len \<le> length n" and "i \<le> len"
  shows "put_ref_ints b s n (int i) (int len) = put_bytes b s (concat (map be32 (drop i (take len n))))"
  using assms
proof (induction "len - i" arbitrary: i b s)
  case 0
  then show ?case by (subst put_ref_ints.simps) simp
next
  case (Suc k)
  then have i: "i < length (take len n)" "i < len" by auto
  from Cons_nth_drop_Suc [OF i(1)] i have "drop i (take len n) = n ! i # drop (Suc i) (take len n)" by simp
  moreover have "put_ref_ints b s n (int i + 1) (int len) =
      put_bytes b s (concat (map be32 (drop (Suc i) (take len n))))" for b s
    using Suc.hyps(1) [of "Suc i" b s] Suc.hyps(2) Suc.prems i by (simp add: add.commute)
  ultimately show ?case
    using Suc.prems i by (subst put_ref_ints.simps) (simp add: put_words put_bytes_append)
qed

lemma enc_ref:
  assumes "0 \<in> set (ref_node p)" and "0 \<le> ref_len p" and "ref_len p \<le> int (length (ref_n p))"
  shows "ei_encoder (\<lambda>buf i. ei_encode_ref buf i p) (ext_ref p)"
proof -
  obtain len where len: "ref_len p = int len" using assms(2) by (metis nonneg_int_cases)
  let ?hd = "ERL_NEWER_REFERENCE_EXT # be16 (word_of_int (ref_len p) :: u32)"
  let ?ns = "concat (map be32 (take (nat (ref_len p)) (ref_n p)))"
  have "length ?ns = 4 * len"
    using assms(3) len by (simp add: length_concat o_def sum_list_triv)
  then have l: "ref_len p * 4 + 4 = int (length (be32 (ref_creation p) @ ?ns))" by (simp add: len)
  have ints: "put_ref_ints b s (ref_n p) 0 (ref_len p) = put_bytes b s ?ns" for b s
    using put_ref_ints_eq [of len "ref_n p" 0] assms(3) len by simp
  have "(\<lambda>buf i. ei_encode_ref buf i p) = enc_around ?hd (be32 (ref_creation p) @ ?ns) (enc_node (ref_node p))"
    by (intro ext, simp only: ei_encode_ref_def enc_around_def c_strlen_c_string(1) [OF assms(1)] Let_def
        bind.bind_lunit, intro Option.bind_cong)
      (auto simp: put8_bytes put_words put_seq ints l split: option.split)
  then show ?thesis
    using enc_around [OF enc_node, of ?hd "be32 (ref_creation p) @ ?ns" "ref_node p"]
    by (simp add: ext_ref_def)
qed

section \<open>Decoding\<close>

lemma get_atom_sees:
  assumes "ext_atom name ERLANG_UTF8 = Some a" and "sees b s a"
  shows "get_atom b s = Some (Done (name @ [0], ERLANG_UTF8), s + int (length a))"
proof -
  from assms(1) have n: "utf8_name name 255" and a: "a = atom_bytes (length name < 256) name"
    by (auto simp: ext_atom_def split: if_splits)
  have "length name \<le> 1020" using length_utf8_name [OF n] by simp
  with ei_decode_atom_as_utf8 [of b s "length name < 256" name ERLANG_UTF8 MAXATOMLEN_UTF8] assms(2)
  show ?thesis by (simp add: get_atom_def a)
qed

text \<open>The parts of what is seen around a node.\<close>

lemma sees_around:
  assumes "ext_atom name ERLANG_UTF8 = Some a" and "sees b i (pre @ a @ post)"
  shows "sees b i pre" and "get_atom b (i + int (length pre)) =
      Some (Done (name @ [0], ERLANG_UTF8), i + int (length pre) + int (length a))"
    and "sees b (i + int (length pre) + int (length a)) post"
  using assms(2) get_atom_sees [OF assms(1)] by (simp_all add: sees_append)

lemma codec_pid:
  assumes "0 \<in> set (pid_node p)"
  shows "ei_partial_codec (\<lambda>buf i. ei_encode_pid buf i p) (ext_pid p)
    (ei_decode_pid store) (if store then Some (p\<lparr>pid_node := c_string (pid_node p) @ [0]\<rparr>) else None)"
proof (intro ei_partial_codec.intro ei_partial_codec_axioms.intro enc_pid [OF assms])
  fix bs b i assume "ext_pid p = Some bs" and s: "sees b i bs"
  then obtain a where x: "ext_atom (c_string (pid_node p)) ERLANG_UTF8 = Some a"
    and bs: "bs = [ERL_NEW_PID_EXT] @ a @ (be32 (pid_num p) @ be32 (pid_serial p) @ be32 (pid_creation p))"
    by (auto simp: ext_pid_def)
  note sp = sees_around [OF x s [unfolded bs]]
  show "ei_decode_pid store b i = Some (Done (if store then Some (p\<lparr>pid_node := c_string (pid_node p) @ [0]\<rparr>) else None),
      i + int (length bs))"
    using sp by (auto simp: ei_decode_pid_def bs sees_append get8_sees dest!: sees_getters)
qed

lemma codec_port:
  assumes "0 \<in> set (port_node p)"
  shows "ei_partial_codec (\<lambda>buf i. ei_encode_port buf i p) (ext_port p)
    (ei_decode_port store) (if store then Some (p\<lparr>port_node := c_string (port_node p) @ [0]\<rparr>) else None)"
proof (intro ei_partial_codec.intro ei_partial_codec_axioms.intro enc_port [OF assms])
  fix bs b i assume e: "ext_port p = Some bs" and s: "sees b i bs"
  let ?big = "port_id p > 0x0fffffff"
  from e obtain a where x: "ext_atom (c_string (port_node p)) ERLANG_UTF8 = Some a"
    and bs: "bs = [if ?big then ERL_V4_PORT_EXT else ERL_NEW_PORT_EXT] @ a @
      ((if ?big then be64 (port_id p) else be32 (port_id p)) @ be32 (port_creation p))"
    by (auto simp: ext_port_def split: if_splits)
  have small: "scast (ucast (port_id p) :: u32) = port_id p" if "\<not> ?big"
  proof -
    have le: "uint (port_id p) \<le> 0x0fffffff" using that by (simp add: word_less_def)
    then have "uint (ucast (port_id p) :: u32) = uint (port_id p)"
      by (simp add: unsigned_ucast_eq take_bit_int_eq_self)
    moreover from this have "sint (ucast (port_id p) :: u32) = uint (port_id p)"
      using le signed_take_bit_int_eq_self [of 31 "uint (port_id p)"] order_trans [of "- (2 ^ 31)" 0 "uint (port_id p)"]
      by (simp add: sint_uint)
    ultimately show ?thesis by (simp add: scast_eq)
  qed
  note sp = sees_around [OF x s [unfolded bs]]
  show "ei_decode_port store b i = Some (Done (if store then Some (p\<lparr>port_node := c_string (port_node p) @ [0]\<rparr>) else None),
      i + int (length bs))"
    using sp small
    by (cases ?big) (auto simp: ei_decode_port_def bs sees_append get8_sees dest!: sees_getters)
qed

lemma get_ref_ints_sees:
  "sees b s (concat (map be32 ns)) \<Longrightarrow> get_ref_ints b s (length ns) = Some (ns, s + 4 * int (length ns))"
  by (induction ns arbitrary: s) (auto simp: sees_append dest!: sees_getters)

lemma codec_ref:
  assumes "0 \<in> set (ref_node p)" and "0 \<le> ref_len p" and "ref_len p \<le> 5" and "length (ref_n p) = 5"
  shows "ei_partial_codec (\<lambda>buf i. ei_encode_ref buf i p) (ext_ref p) (ei_decode_ref store n)
    (if store then Some (p\<lparr>ref_node := c_string (ref_node p) @ [0],
       ref_n := take (nat (ref_len p)) (ref_n p) @ replicate (5 - nat (ref_len p)) 0\<rparr>) else None)"
proof (intro ei_partial_codec.intro ei_partial_codec_axioms.intro)
  show "ei_encoder (\<lambda>buf i. ei_encode_ref buf i p) (ext_ref p)" using assms by (intro enc_ref) auto
  fix bs b i assume e: "ext_ref p = Some bs" and s: "sees b i bs"
  obtain len where len: "ref_len p = int len" "len \<le> 5" using assms(2,3) by (metis nonneg_int_cases of_nat_le_iff of_nat_numeral)
  define ns where "ns = take len (ref_n p)"
  have lns: "length ns = len" using len assms(4) by (simp add: ns_def)
  from e obtain a where x: "ext_atom (c_string (ref_node p)) ERLANG_UTF8 = Some a"
    and bs: "bs = (ERL_NEWER_REFERENCE_EXT # be16 (of_nat len :: u32)) @ a @ (be32 (ref_creation p) @ concat (map be32 ns))"
    by (auto simp: ext_ref_def len ns_def)
  have w: "unat (ucast (of_nat len :: u32) :: u16) = len"
    using len(2) by (simp add: unsigned_ucast_eq unsigned_of_nat take_bit_nat_eq_self)
  note sp = sees_around [OF x s [unfolded bs]]
  have c: "get8 b i = Some (ERL_NEWER_REFERENCE_EXT, i + 1)" "get16be b (i + 1) = Some (ucast (of_nat len :: u32), i + 3)"
    using sp(1) by (auto simp: sees_Cons get8_def dest!: sees_getters)
  let ?j = "i + 3 + int (length a)"
  have d: "get32be b ?j = Some (ref_creation p, ?j + 4)" "get_ref_ints b (?j + 4) len = Some (ns, ?j + 4 + 4 * int len)"
    using sp(3) get_ref_ints_sees [of b "?j + 4" ns] lns by (auto simp: sees_append dest!: sees_getters)
  have l: "length (concat (map be32 ns)) = 4 * len"
    using lns by (simp add: length_concat o_def sum_list_triv)
  show "ei_decode_ref store n b i = Some (Done (if store then Some (p\<lparr>ref_node := c_string (ref_node p) @ [0],
      ref_n := take (nat (ref_len p)) (ref_n p) @ replicate (5 - nat (ref_len p)) 0\<rparr>) else None), i + int (length bs))"
    using sp(2) len c d w l lns
    by (cases store; cases p) (simp_all add: ei_decode_ref_def Let_def bs ns_def)
qed

lemma enc_trace:
  assumes "0 \<in> set (pid_node (trace_from p))"
  shows "ei_encoder (\<lambda>buf i. ei_encode_trace buf i p) (ext_trace p)"
proof -
  have l: "ei_encoder (\<lambda>buf i. ei_encode_long buf i n) (Some (ext_longlong n))" for n
    unfolding ei_encode_long_def by (rule enc_longlong.ei_encoder_axioms)
  have "ext_tuple_header 5 = Some [ERL_SMALL_TUPLE_EXT, 5]" by (simp add: ext_tuple_header_def)
  note t = codec_tuple_header.ei_encoder_axioms [of 5, unfolded this]
  from enc_then [OF t enc_then [OF l enc_then [OF l enc_then [OF l enc_then [OF enc_pid [OF assms] l]]]],
      of "trace_flags p" "trace_label p" "trace_serial p" "trace_prev p"]
  show ?thesis unfolding ei_encode_trace_def ext_trace_def
    by (cases "ext_pid (trace_from p)") simp_all
qed

lemma dec_then_Done: "d = Some (Done x, j) \<Longrightarrow> dec_then d i f = f x j"
  by (simp add: dec_then_def)

lemma codec_trace:
  assumes "0 \<in> set (pid_node (trace_from p))"
  shows "ei_partial_codec (\<lambda>buf i. ei_encode_trace buf i p) (ext_trace p) (ei_decode_trace True)
    (Some (p\<lparr>trace_from := (trace_from p)\<lparr>pid_node := c_string (pid_node (trace_from p)) @ [0]\<rparr>\<rparr>))"
proof (intro ei_partial_codec.intro ei_partial_codec_axioms.intro enc_trace [OF assms])
  fix bs b i assume e: "ext_trace p = Some bs" and s: "sees b i bs"
  then obtain f where f: "ext_pid (trace_from p) = Some f"
    and bs: "bs = [ERL_SMALL_TUPLE_EXT, 5] @ ext_longlong (trace_flags p) @ ext_longlong (trace_label p)
      @ ext_longlong (trace_serial p) @ f @ ext_longlong (trace_prev p)"
    by (auto simp: ext_trace_def)
  have t: "sees b i [ERL_SMALL_TUPLE_EXT, 5] \<Longrightarrow> ei_decode_tuple_header b i = Some (Done 5, i + 2)"
    by (simp add: ei_decode_tuple_header_def sees_simps)
  have l: "sees b i (ext_longlong n) \<Longrightarrow> ei_decode_long b i = Some (Done n, i + int (length (ext_longlong n)))" for i n
    by (simp add: ei_decode_long_def codec_longlong.decodes)
  have q: "sees b i f \<Longrightarrow> ei_decode_pid True b i =
      Some (Done (Some ((trace_from p)\<lparr>pid_node := c_string (pid_node (trace_from p)) @ [0]\<rparr>)), i + int (length f))" for i
    using ei_partial_codec.decodes_ext [OF codec_pid [OF assms] f, of b i True] by simp
  from s show "ei_decode_trace True b i = Some (Done (Some (p\<lparr>trace_from :=
      (trace_from p)\<lparr>pid_node := c_string (pid_node (trace_from p)) @ [0]\<rparr>\<rparr>)), i + int (length bs))"
    unfolding bs sees_append ei_decode_trace_def
    by (cases p) (auto simp: dec_then_Done t l q add.assoc)
qed

section \<open>Properties\<close>

text \<open>
  C24. A reference of at most five integers, encoded in the room the sizing pass asks for, is decoded
  to the same node name, integers and creation, with zeros for the unused integers; the bytes
  around it are unchanged.
\<close>

theorem ei_ref_round_trip:
  assumes "0 \<in> set (ref_node p)" and "0 \<le> ref_len p" and "ref_len p \<le> 5" and "length (ref_n p) = 5"
    and "ei_encode_ref None i p = Some (0, None, j)" and "0 \<le> i" and "j \<le> int (length b)"
  shows "\<exists>b'. ei_encode_ref (Some b) i p = Some (0, Some b', j)
    \<and> ei_decode_ref True n b' i = Some (Done (Some (p\<lparr>ref_node := c_string (ref_node p) @ [0],
        ref_n := take (nat (ref_len p)) (ref_n p) @ replicate (5 - nat (ref_len p)) 0\<rparr>)), j)
    \<and> length b' = length b \<and> take (nat i) b' = take (nat i) b \<and> drop (nat j) b' = drop (nat j) b"
  using ei_partial_codec.round_trip [OF codec_ref [OF assms(1-4), of True n] assms(5-7)] by simp

theorem ei_ref_round_trip_witness:
  "\<exists>b'. ei_encode_ref (Some (replicate 30 0)) 1
        \<lparr>ref_node = [0x61, 0], ref_len = 2, ref_n = [7, 8, 9, 9, 9], ref_creation = 3\<rparr> = Some (0, Some b', 19)
    \<and> ei_decode_ref True [0, 0, 0, 0, 0] b' 1 = Some (Done (Some
        \<lparr>ref_node = [0x61, 0], ref_len = 2, ref_n = [7, 8, 0, 0, 0], ref_creation = 3\<rparr>), 19)"
proof -
  let ?r = "\<lparr>ref_node = [0x61, 0], ref_len = 2, ref_n = [7, 8, 9, 9, 9 :: u32], ref_creation = 3\<rparr>"
  have "ei_encode_ref None 1 ?r = Some (0, None, 19)"
    by (simp add: ei_encode_ref_def c_strlen_def ei_encode_atom_len_as_def verify_utf8_atom.simps get8_def
        put_at_def put_atom_header_def)
  from ei_ref_round_trip [OF _ _ _ _ this, of "replicate 30 0" "[0, 0, 0, 0, 0]"] show ?thesis
    by (auto simp: c_string_def numeral_3_eq_3)
qed

text \<open>
  A trace token, a tuple of four integers and a process identifier, is decoded to what was
  encoded; a token whose node name is not accepted is rejected by the sizing pass.
\<close>

theorem ei_trace_round_trip:
  assumes "0 \<in> set (pid_node (trace_from p))"
    and "ei_encode_trace None i p = Some (0, None, j)" and "0 \<le> i" and "j \<le> int (length b)"
  shows "\<exists>b'. ei_encode_trace (Some b) i p = Some (0, Some b', j)
    \<and> ei_decode_trace True b' i = Some (Done (Some (p\<lparr>trace_from :=
        (trace_from p)\<lparr>pid_node := c_string (pid_node (trace_from p)) @ [0]\<rparr>\<rparr>)), j)
    \<and> length b' = length b \<and> take (nat i) b' = take (nat i) b \<and> drop (nat j) b' = drop (nat j) b"
  by (rule ei_partial_codec.round_trip [OF codec_trace [OF assms(1)] assms(2-4)])

theorem ei_trace_round_trip_witness:
  "\<exists>b' v. ei_encode_trace (Some (replicate 40 0)) 0 \<lparr>trace_serial = 1, trace_prev = 2,
        trace_from = \<lparr>pid_node = [0x61, 0], pid_num = 5, pid_serial = 6, pid_creation = 7\<rparr>,
        trace_label = 3, trace_flags = 4\<rparr> = Some (0, Some b', 26)
    \<and> ei_decode_trace True b' 0 = Some (Done (Some v), 26) \<and> trace_label v = 3"
proof -
  let ?t = "\<lparr>trace_serial = 1, trace_prev = 2,
        trace_from = \<lparr>pid_node = [0x61, 0], pid_num = 5, pid_serial = 6, pid_creation = 7\<rparr>,
        trace_label = 3, trace_flags = 4\<rparr>"
  have "ei_encode_trace None 0 ?t = Some (0, None, 26)"
    by (simp add: ei_encode_trace_def enc_then_def ei_encode_tuple_header_def ei_encode_long_def
        ei_encode_longlong_def ei_encode_pid_def c_strlen_def ei_encode_atom_len_as_def
        verify_utf8_atom.simps get8_def put_at_def put_atom_header_def)
  from ei_trace_round_trip [OF _ this, of "replicate 40 0"] show ?thesis by auto
qed

end
