(* ===== verification/Ei_Fun.thy ===== *)
theory Ei_Fun
  imports Ei_Ids
begin

text \<open>
  Funs: \<open>encode_fun.c\<close> and \<open>decode_fun.c\<close>.  A fun is a closure, in the format of R7 and before
  (arity \<open>-1\<close>) or in the present one, or an external function.  The decoder of an old closure
  skips over its free variables; the function that skips a term is a parameter here and is
  \<open>ei_skip_term\<close> in its own theory.
\<close>

section \<open>Definitions\<close>

text \<open>The \<open>long\<close> members are 64-bit words; the union \<open>u\<close> of the C struct is a datatype.\<close>

record fun_closure =
  md5 :: bytes
  fun_index :: u64
  old_index :: u64
  uniq :: u64
  n_free_vars :: u64
  fun_pid :: erlang_pid
  free_var_len :: int
  free_vars :: bytes

datatype fun_type = EI_FUN_CLOSURE fun_closure | EI_FUN_EXPORT "bytes option" bool

record erlang_fun =
  fun_arity :: u64
  fun_module :: bytes
  fun_u :: fun_type

subsection \<open>Encoder\<close>

text \<open>The idiom \<open>if (buf != NULL) { char* s = buf + ix; ... } ix += n;\<close>.\<close>

definition put_part ::
  "(bytes \<Rightarrow> int \<Rightarrow> (bytes \<times> int) option) \<Rightarrow> int \<Rightarrow> bytes option \<Rightarrow> int \<Rightarrow> enc_res" where
  "put_part w n buf ix =
     (case buf of
        None \<Rightarrow> Some (0, None, ix + n)
      | Some b \<Rightarrow> do { (b, _) \<leftarrow> w b ix; Some (0, Some b, ix + n) })"

definition memcpy_part :: "bytes \<Rightarrow> int \<Rightarrow> bytes option \<Rightarrow> int \<Rightarrow> enc_res" where
  "memcpy_part p n = put_part (\<lambda>b s. do { xs \<leftarrow> read_bytes p 0 n; put_bytes b s xs }) n"

text \<open>The call \<open>ei_encode_atom_as(buf, &ix, name, ERLANG_UTF8, ERLANG_UTF8)\<close>.\<close>

definition enc_utf8_atom :: "bytes \<Rightarrow> bytes option \<Rightarrow> int \<Rightarrow> enc_res" where
  "enc_utf8_atom name buf ix = ei_encode_atom_as buf ix name ERLANG_UTF8 ERLANG_UTF8"

definition encode_fun_old :: "erlang_fun \<Rightarrow> fun_closure \<Rightarrow> bytes option \<Rightarrow> int \<Rightarrow> enc_res" where
  "encode_fun_old p c =
     enc_then (put_part (\<lambda>b s. do {
                 (b, s) \<leftarrow> put8 b s ERL_FUN_EXT;
                 put32be b s (n_free_vars c) }) (1 + 4))
    (enc_then (\<lambda>buf ix. ei_encode_pid buf ix (fun_pid c))
    (enc_then (enc_utf8_atom (fun_module p))
    (enc_then (\<lambda>buf ix. ei_encode_long buf ix (fun_index c))
    (enc_then (\<lambda>buf ix. ei_encode_long buf ix (uniq c))
              (memcpy_part (free_vars c) (free_var_len c))))))"

text \<open>What follows the tag and the size of a closure.\<close>

definition encode_fun_body :: "erlang_fun \<Rightarrow> fun_closure \<Rightarrow> bytes option \<Rightarrow> int \<Rightarrow> enc_res" where
  "encode_fun_body p c =
     enc_then (put_part (\<lambda>b s. do {
                 (b, s) \<leftarrow> put8 b s (fun_arity p);
                 xs \<leftarrow> read_bytes (md5 c) 0 16;
                 (b, s) \<leftarrow> put_bytes b s xs;
                 (b, s) \<leftarrow> put32be b s (fun_index c);
                 put32be b s (n_free_vars c) }) (1 + 16 + 4 + 4))
    (enc_then (enc_utf8_atom (fun_module p))
    (enc_then (\<lambda>buf ix. ei_encode_long buf ix (old_index c))
    (enc_then (\<lambda>buf ix. ei_encode_long buf ix (uniq c))
    (enc_then (\<lambda>buf ix. ei_encode_pid buf ix (fun_pid c))
              (memcpy_part (free_vars c) (free_var_len c))))))"

text \<open>The size, which counts its own four bytes, is filled in last.\<close>

definition encode_fun_new :: "erlang_fun \<Rightarrow> fun_closure \<Rightarrow> bytes option \<Rightarrow> int \<Rightarrow> enc_res" where
  "encode_fun_new p c buf ix = do {
     let size_p = ix + 1;
     (_, buf, _) \<leftarrow> put_part (\<lambda>b s. put8 b s ERL_NEW_FUN_EXT) 1 buf ix;
     (r, buf, ix) \<leftarrow> encode_fun_body p c buf (ix + (1 + 4));
     (if r < 0 then Some (-1, buf, ix)
      else case buf of
        None \<Rightarrow> Some (0, None, ix)
      | Some b \<Rightarrow> do {
          (b, _) \<leftarrow> put32be b size_p (word_of_int (ix - size_p) :: u32);
          Some (0, Some b, ix) }) }"

text \<open>The function name is a pointer, which the decoder leaves \<open>NULL\<close> when memory runs out.\<close>

definition encode_export :: "erlang_fun \<Rightarrow> bytes option \<Rightarrow> bytes option \<Rightarrow> int \<Rightarrow> enc_res" where
  "encode_export p func =
     enc_then (put_part (\<lambda>b s. put8 b s ERL_EXPORT_EXT) 1)
    (enc_then (enc_utf8_atom (fun_module p))
    (enc_then (\<lambda>buf ix. case func of None \<Rightarrow> None | Some f \<Rightarrow> enc_utf8_atom f buf ix)
              (\<lambda>buf ix. ei_encode_long buf ix (fun_arity p))))"

text \<open>The caller's index only moves on success.\<close>

definition ei_encode_fun :: "bytes option \<Rightarrow> int \<Rightarrow> erlang_fun \<Rightarrow> enc_res" where
  "ei_encode_fun buf index p = do {
     (r, buf, ix) \<leftarrow>
       (case fun_u p of
          EI_FUN_CLOSURE c \<Rightarrow>
            if fun_arity p = -1 then encode_fun_old p c buf index else encode_fun_new p c buf index
        | EI_FUN_EXPORT func _ \<Rightarrow> encode_export p func buf index);
     (if r < 0 then Some (-1, buf, index) else Some (0, buf, ix)) }"

subsection \<open>Decoder\<close>

text \<open>
  A decoder that skips terms may not return.  Its result is under a second \<open>option\<close>: \<open>None\<close> when
  the bound on the depth of calls is reached, and \<open>Some None\<close> for an access outside the buffer.
\<close>

type_synonym skipper = "int \<Rightarrow> unit dec_res option"

definition reading :: "'a option \<Rightarrow> ('a \<Rightarrow> 'b option option) \<Rightarrow> 'b option option" where
  "reading x f = (case x of None \<Rightarrow> Some None | Some y \<Rightarrow> f y)"

definition reading_ok :: "'a dec_res \<Rightarrow> int \<Rightarrow> ('a \<Rightarrow> int \<Rightarrow> 'b dec_res option) \<Rightarrow> 'b dec_res option" where
  "reading_ok d index f = reading d (\<lambda>(r, ix).
     case r of Fail \<Rightarrow> Some (Some (Fail, index)) | Done x \<Rightarrow> f x ix)"

text \<open>The loop over the free variables, which ends at the first failure.\<close>

fun skip_free_vars :: "skipper \<Rightarrow> nat \<Rightarrow> int \<Rightarrow> unit dec_res option" where
  "skip_free_vars skip 0 ix = Some (Some (Done (), ix))"
| "skip_free_vars skip (Suc n) ix = do {
     r \<leftarrow> skip ix;
     reading_ok r ix (\<lambda>_ ix. skip_free_vars skip n ix) }"

text \<open>
  The copy of \<open>n\<close> bytes of free variables into new memory, if there are any; without memory the
  decoder fails.
\<close>

definition copy_free_vars :: "bool \<Rightarrow> bytes \<Rightarrow> int \<Rightarrow> int \<Rightarrow> bytes cret option" where
  "copy_free_vars malloc_ok buf s n =
     (if 0 < n then if malloc_ok then map_option Done (read_bytes buf s n) else Some Fail
      else Some (Done []))"

text \<open>
  The structure the decoder fills is \<open>p\<close>, \<open>None\<close> for \<open>NULL\<close>; a given \<open>c\<close> is the former contents of
  its closure, of which the old format does not set every member.
\<close>

definition decode_fun_old ::
  "skipper \<Rightarrow> bool \<Rightarrow> fun_closure option \<Rightarrow> bytes \<Rightarrow> int \<Rightarrow> int \<Rightarrow> erlang_fun option dec_res option"
where
  "decode_fun_old skip malloc_ok p buf index s =
     reading (get32be buf s) (\<lambda>(n, s).
     reading_ok (ei_decode_pid (p \<noteq> None) buf s) index (\<lambda>pid ix.
     reading_ok (ei_decode_atom_as buf ix MAXATOMLEN_UTF8 ERLANG_UTF8) index (\<lambda>(module, _, _) ix.
     reading_ok (ei_decode_long buf ix) index (\<lambda>idx ix.
     reading_ok (ei_decode_long buf ix) index (\<lambda>unq ix0. do {
       r \<leftarrow> skip_free_vars skip (nat (sint n)) ix0;
       reading_ok r index (\<lambda>_ ix.
         case (p, pid) of
           (Some c, Some pid) \<Rightarrow>
             reading (copy_free_vars malloc_ok buf ix0 (ix - ix0)) (\<lambda>fv.
               case fv of
                 Fail \<Rightarrow> Some (Some (Fail, index))
               | Done fv \<Rightarrow> Some (Some (Done (Some \<lparr>fun_arity = -1, fun_module = module,
                   fun_u = EI_FUN_CLOSURE (c\<lparr>fun_index := idx, uniq := unq, fun_pid := pid,
                     n_free_vars := scast n, free_var_len := ix - ix0, free_vars := fv\<rparr>)\<rparr>), ix)))
         | _ \<Rightarrow> Some (Some (Done None, ix))) })))))"

text \<open>
  The length of the free variables: the size on the wire less what has been read behind the tag,
  computed in \<open>long\<close> and stored in an \<open>int\<close>.
\<close>

definition free_var_size :: "u32 \<Rightarrow> int \<Rightarrow> int" where
  "free_var_size n k = sint (word_of_int (sint n - k + 1) :: u32)"

definition decode_fun_new ::
  "bool \<Rightarrow> fun_closure option \<Rightarrow> bytes \<Rightarrow> int \<Rightarrow> int \<Rightarrow> erlang_fun option dec_res" where
  "decode_fun_new malloc_ok p buf index s = do {
     (n, s) \<leftarrow> get32be buf s;
     (arity, s) \<leftarrow> get8 buf s;
     digest \<leftarrow> (if p \<noteq> None then read_bytes buf s 16 else Some []);
     (idx, s) \<leftarrow> get32be buf (s + 16);
     (nfree, s) \<leftarrow> get32be buf s;
     dec_then (ei_decode_atom_as buf s MAXATOMLEN_UTF8 ERLANG_UTF8) index (\<lambda>(module, _, _) s.
     dec_then (ei_decode_long buf s) index (\<lambda>old s.
     dec_then (ei_decode_long buf s) index (\<lambda>unq s.
     dec_then (ei_decode_pid (p \<noteq> None) buf s) index (\<lambda>pid s.
       let n = free_var_size n (s - index) in
       if n < 0 then Some (Fail, index)
       else case (p, pid) of
         (Some c, Some pid) \<Rightarrow> do {
           fv \<leftarrow> copy_free_vars malloc_ok buf s n;
           (case fv of
              Fail \<Rightarrow> Some (Fail, index)
            | Done fv \<Rightarrow> Some (Done (Some \<lparr>fun_arity = ucast arity, fun_module = module,
                fun_u = EI_FUN_CLOSURE \<lparr>md5 = digest, fun_index = scast idx, old_index = old, uniq = unq,
                  n_free_vars = scast nfree, fun_pid = pid, free_var_len = n, free_vars = fv\<rparr>\<rparr>), s + n)) }
       | _ \<Rightarrow> Some (Done None, s + n))))) }"

text \<open>
  The function name goes behind the module name in the same array if it fits there, and else into
  new memory; without memory the pointer is \<open>NULL\<close> and the name is not stored.
\<close>

definition decode_export :: "bool \<Rightarrow> bool \<Rightarrow> bytes \<Rightarrow> int \<Rightarrow> int \<Rightarrow> erlang_fun option dec_res" where
  "decode_export malloc_ok store buf index s =
     dec_then (ei_decode_atom_as buf s MAXATOMLEN_UTF8 ERLANG_UTF8) index (\<lambda>(module, _, _) ix. do {
       n \<leftarrow> c_strlen module;
       let used = (if store then n + 1 else 0);
       (r, ix') \<leftarrow> ei_decode_atom_as buf ix (MAXATOMLEN_UTF8 - used) ERLANG_UTF8;
       let again = (r = Fail \<and> used \<noteq> 0);
       dec_then (if again then ei_decode_atom_as buf ix MAXATOMLEN_UTF8 ERLANG_UTF8 else Some (r, ix'))
         index (\<lambda>(func, _, _) ix.
       dec_then (ei_decode_long buf ix) index (\<lambda>arity ix.
         Some (Done (if store
           then Some \<lparr>fun_arity = arity, fun_module = module,
                  fun_u = EI_FUN_EXPORT (if again \<and> \<not> malloc_ok then None else Some func) again\<rparr>
           else None), ix))) })"

definition ei_decode_fun ::
  "skipper \<Rightarrow> bool \<Rightarrow> fun_closure option \<Rightarrow> bytes \<Rightarrow> int \<Rightarrow> erlang_fun option dec_res option" where
  "ei_decode_fun skip malloc_ok p buf index =
     reading (get8 buf index) (\<lambda>(tag, s).
       if tag = ERL_FUN_EXT then decode_fun_old skip malloc_ok p buf index s
       else if tag = ERL_NEW_FUN_EXT then Some (decode_fun_new malloc_ok p buf index s)
       else if tag = ERL_EXPORT_EXT then Some (decode_export malloc_ok (p \<noteq> None) buf index s)
       else Some (Some (Fail, index)))"

section \<open>External representations\<close>

definition ext_fun_old :: "erlang_fun \<Rightarrow> fun_closure \<Rightarrow> bytes option" where
  "ext_fun_old p c = do {
     pid \<leftarrow> ext_pid (fun_pid c);
     m \<leftarrow> ext_atom (c_string (fun_module p)) ERLANG_UTF8;
     Some (ERL_FUN_EXT # be32 (n_free_vars c) @ pid @ m @ ext_longlong (fun_index c)
       @ ext_longlong (uniq c) @ free_vars c) }"

definition ext_fun_body :: "erlang_fun \<Rightarrow> fun_closure \<Rightarrow> bytes option" where
  "ext_fun_body p c = do {
     m \<leftarrow> ext_atom (c_string (fun_module p)) ERLANG_UTF8;
     pid \<leftarrow> ext_pid (fun_pid c);
     Some ((ucast (fun_arity p) # md5 c @ be32 (fun_index c) @ be32 (n_free_vars c)) @ m
       @ ext_longlong (old_index c) @ ext_longlong (uniq c) @ pid @ free_vars c) }"

definition ext_fun_new :: "erlang_fun \<Rightarrow> fun_closure \<Rightarrow> bytes option" where
  "ext_fun_new p c = map_option (\<lambda>body.
     ERL_NEW_FUN_EXT # be32 (of_nat (length body + 4) :: u32) @ body) (ext_fun_body p c)"

definition ext_export :: "erlang_fun \<Rightarrow> bytes \<Rightarrow> bytes option" where
  "ext_export p func = do {
     m \<leftarrow> ext_atom (c_string (fun_module p)) ERLANG_UTF8;
     f \<leftarrow> ext_atom (c_string func) ERLANG_UTF8;
     Some (ERL_EXPORT_EXT # m @ f @ ext_longlong (fun_arity p)) }"

text \<open>The structures an encoder can be called with: terminated strings, and arrays of their lengths.\<close>

fun fun_ok :: "erlang_fun \<Rightarrow> bool" where
  "fun_ok p \<longleftrightarrow> 0 \<in> set (fun_module p) \<and>
     (case fun_u p of
        EI_FUN_CLOSURE c \<Rightarrow> 0 \<in> set (pid_node (fun_pid c)) \<and> length (md5 c) = 16
          \<and> free_var_len c = int (length (free_vars c))
      | EI_FUN_EXPORT func _ \<Rightarrow> (case func of None \<Rightarrow> False | Some f \<Rightarrow> 0 \<in> set f))"

definition ext_fun :: "erlang_fun \<Rightarrow> bytes option" where
  "ext_fun p =
     (case fun_u p of
        EI_FUN_CLOSURE c \<Rightarrow> if fun_arity p = -1 then ext_fun_old p c else ext_fun_new p c
      | EI_FUN_EXPORT func _ \<Rightarrow> func \<bind> ext_export p)"

section \<open>Encoding\<close>

lemma enc_put_part:
  assumes "\<And>b s. w b s = put_bytes b s xs" and "n = int (length xs)"
  shows "ei_encoder (put_part w n) (Some xs)"
  by unfold_locales (auto simp: put_part_def assms put_bytes_in)

lemma enc_memcpy_part: "ei_encoder (memcpy_part p (int (length p))) (Some p)"
  unfolding memcpy_part_def
  by (rule enc_put_part) (simp_all add: read_bytes_def)

lemma enc_utf8_atom:
  assumes "0 \<in> set name"
  shows "ei_encoder (enc_utf8_atom name) (ext_atom (c_string name) ERLANG_UTF8)"
proof -
  have "node = c_string node @ dropWhile (\<lambda>c. c \<noteq> 0) node" for node by (simp add: c_string_def)
  with enc_atom.ei_encoder_axioms [of "c_string name" "dropWhile (\<lambda>c. c \<noteq> 0) name" ERLANG_UTF8 ERLANG_UTF8]
    c_strlen_c_string(1) [OF assms]
  show ?thesis by (simp add: enc_utf8_atom_def [abs_def] ei_encode_atom_as_def)
qed

lemma enc_long: "ei_encoder (\<lambda>buf i. ei_encode_long buf i n) (Some (ext_longlong n))"
  unfolding ei_encode_long_def by (rule enc_longlong.ei_encoder_axioms)

lemma enc_fun_old:
  assumes "fun_ok p" and "fun_u p = EI_FUN_CLOSURE c"
  shows "ei_encoder (encode_fun_old p c) (ext_fun_old p c)"
proof -
  have ok: "0 \<in> set (fun_module p)" "0 \<in> set (pid_node (fun_pid c))" "free_var_len c = int (length (free_vars c))"
    using assms by simp_all
  have h: "ei_encoder (put_part (\<lambda>b s. do { (b, s) \<leftarrow> put8 b s ERL_FUN_EXT; put32be b s (n_free_vars c) }) (1 + 4))
      (Some (ERL_FUN_EXT # be32 (n_free_vars c)))"
    by (rule enc_put_part) (simp_all add: put8_bytes put_words put_bytes_append [symmetric])
  have "(do { a \<leftarrow> Some (ERL_FUN_EXT # be32 (n_free_vars c));
        b \<leftarrow> do { a \<leftarrow> ext_pid (fun_pid c); b \<leftarrow> do { a \<leftarrow> ext_atom (c_string (fun_module p)) ERLANG_UTF8;
          b \<leftarrow> do { a \<leftarrow> Some (ext_longlong (fun_index c)); b \<leftarrow> do { a \<leftarrow> Some (ext_longlong (uniq c));
            b \<leftarrow> Some (free_vars c); Some (a @ b) }; Some (a @ b) }; Some (a @ b) }; Some (a @ b) }; Some (a @ b) })
      = ext_fun_old p c"
    by (cases "ext_pid (fun_pid c)"; cases "ext_atom (c_string (fun_module p)) ERLANG_UTF8")
      (simp_all add: ext_fun_old_def)
  with enc_then [OF h enc_then [OF enc_pid [OF ok(2)] enc_then [OF enc_utf8_atom [OF ok(1)]
        enc_then [OF enc_long enc_then [OF enc_long enc_memcpy_part]]]], of "fun_index c" "uniq c" "free_vars c"]
  show ?thesis unfolding encode_fun_old_def ok(3) by simp
qed

lemma enc_fun_body:
  assumes "fun_ok p" and "fun_u p = EI_FUN_CLOSURE c"
  shows "ei_encoder (encode_fun_body p c) (ext_fun_body p c)"
proof -
  have ok: "0 \<in> set (fun_module p)" "0 \<in> set (pid_node (fun_pid c))" "free_var_len c = int (length (free_vars c))"
    "length (md5 c) = 16"
    using assms by simp_all
  let ?h = "ucast (fun_arity p) # md5 c @ be32 (fun_index c) @ be32 (n_free_vars c)"
  have h: "ei_encoder (put_part (\<lambda>b s. do {
        (b, s) \<leftarrow> put8 b s (fun_arity p);
        xs \<leftarrow> read_bytes (md5 c) 0 16;
        (b, s) \<leftarrow> put_bytes b s xs;
        (b, s) \<leftarrow> put32be b s (fun_index c);
        put32be b s (n_free_vars c) }) (1 + 16 + 4 + 4)) (Some ?h)"
  proof (rule enc_put_part)
    have r: "read_bytes (md5 c) 0 16 = Some (md5 c)" using ok(4) by (simp add: read_bytes_def)
    show "do { (b, s) \<leftarrow> put8 b s (fun_arity p); xs \<leftarrow> read_bytes (md5 c) 0 16; (b, s) \<leftarrow> put_bytes b s xs;
        (b, s) \<leftarrow> put32be b s (fun_index c); put32be b s (n_free_vars c) } = put_bytes b s ?h" for b s
      by (simp add: r put8_bytes put_words put_bytes_append [symmetric])
  qed (simp add: ok(4))
  have "(do { a \<leftarrow> Some ?h;
        b \<leftarrow> do { a \<leftarrow> ext_atom (c_string (fun_module p)) ERLANG_UTF8;
          b \<leftarrow> do { a \<leftarrow> Some (ext_longlong (old_index c)); b \<leftarrow> do { a \<leftarrow> Some (ext_longlong (uniq c));
            b \<leftarrow> do { a \<leftarrow> ext_pid (fun_pid c); b \<leftarrow> Some (free_vars c); Some (a @ b) };
            Some (a @ b) }; Some (a @ b) }; Some (a @ b) }; Some (a @ b) })
      = ext_fun_body p c"
    by (cases "ext_pid (fun_pid c)"; cases "ext_atom (c_string (fun_module p)) ERLANG_UTF8")
      (simp_all add: ext_fun_body_def)
  with enc_then [OF h enc_then [OF enc_utf8_atom [OF ok(1)] enc_then [OF enc_long enc_then [OF enc_long
        enc_then [OF enc_pid [OF ok(2)] enc_memcpy_part]]]], of "old_index c" "uniq c" "free_vars c"]
  show ?thesis unfolding encode_fun_body_def ok(3) by simp
qed

text \<open>A representation whose length field is written after the rest.\<close>

lemma enc_fun_new:
  assumes "fun_ok p" and "fun_u p = EI_FUN_CLOSURE c"
  shows "ei_encoder (encode_fun_new p c) (ext_fun_new p c)"
proof
  note e = enc_fun_body [OF assms]
  fix bs i and b :: bytes
  assume "ext_fun_new p c = Some bs"
  then obtain body where x: "ext_fun_body p c = Some body"
    and bs: "bs = ERL_NEW_FUN_EXT # be32 (of_nat (length body + 4) :: u32) @ body"
    by (auto simp: ext_fun_new_def)
  show "encode_fun_new p c None i = Some (0, None, i + int (length bs))"
    using ei_encoder.size_pass [OF e x] by (simp add: encode_fun_new_def put_part_def bs)
  assume i: "0 \<le> i" "i + int (length bs) \<le> int (length b)"
  let ?b1 = "splice_at b i [ERL_NEW_FUN_EXT]"
  let ?sz = "be32 (of_nat (length body + 4) :: u32)"
  have l: "length ?b1 = length b" using i by (simp add: bs)
  have w: "encode_fun_body p c (Some ?b1) (i + (1 + 4)) =
      Some (0, Some (splice_at ?b1 (i + 1 + 4) body), i + 5 + int (length body))"
    using ei_encoder.write_pass [OF e x, of "i + 5" ?b1] i l by (simp add: bs add.assoc)
  have "splice_at (splice_at ?b1 (i + 1 + 4) body) (i + 1) ?sz = splice_at ?b1 (i + 1) (?sz @ body)"
    using splice_at_prepend [of "i + 1" ?sz body ?b1] i l by (simp add: bs)
  also have "\<dots> = splice_at b i bs"
    using splice_at_append [of i "[ERL_NEW_FUN_EXT]" "?sz @ body" b] i by (simp add: bs)
  finally have s: "splice_at (splice_at ?b1 (i + 1 + 4) body) (i + 1) ?sz = splice_at b i bs" .
  have z: "word_of_int (i + 5 + int (length body) - (i + 1)) = (of_nat (length body + 4) :: u32)"
    by simp
  have p8: "put8 b i ERL_NEW_FUN_EXT = Some (?b1, i + 1)" using i by (simp add: put8_bytes put_bytes_in bs)
  have p32: "put32be (splice_at ?b1 (i + 1 + 4) body) (i + 1) (of_nat (length body + 4) :: u32) =
      Some (splice_at b i bs, i + 5)"
    using i l s by (simp add: put_words put_bytes_in bs)
  show "encode_fun_new p c (Some b) i = Some (0, Some (splice_at b i bs), i + int (length bs))"
    by (simp only: encode_fun_new_def put_part_def p8 w z p32 Let_def bind.bind_lunit option.simps split)
      (simp add: bs)
next
  fix i
  assume "ext_fun_new p c = None"
  then have "ext_fun_body p c = None" by (simp add: ext_fun_new_def)
  from ei_encoder.reject [OF enc_fun_body [OF assms] this, of "i + (1 + 4)"]
  show "\<exists>i'. encode_fun_new p c None i = Some (-1, None, i')" by (auto simp: encode_fun_new_def put_part_def)
qed

lemma enc_export:
  assumes "0 \<in> set (fun_module p)" and "0 \<in> set func"
  shows "ei_encoder (encode_export p (Some func)) (ext_export p func)"
proof -
  have h: "ei_encoder (put_part (\<lambda>b s. put8 b s ERL_EXPORT_EXT) 1) (Some [ERL_EXPORT_EXT])"
    by (rule enc_put_part) (simp_all add: put8_bytes)
  have "(do { a \<leftarrow> Some [ERL_EXPORT_EXT];
        b \<leftarrow> do { a \<leftarrow> ext_atom (c_string (fun_module p)) ERLANG_UTF8;
          b \<leftarrow> do { a \<leftarrow> ext_atom (c_string func) ERLANG_UTF8; b \<leftarrow> Some (ext_longlong (fun_arity p));
            Some (a @ b) }; Some (a @ b) }; Some (a @ b) }) = ext_export p func"
    by (cases "ext_atom (c_string (fun_module p)) ERLANG_UTF8"; cases "ext_atom (c_string func) ERLANG_UTF8")
      (simp_all add: ext_export_def)
  with enc_then [OF h enc_then [OF enc_utf8_atom [OF assms(1)] enc_then [OF enc_utf8_atom [OF assms(2)] enc_long]],
      of "fun_arity p"]
  show ?thesis unfolding encode_export_def by simp
qed

text \<open>Keeping the caller's index on failure does not change the contract.\<close>

lemma enc_keep_index:
  assumes "ei_encoder e x"
  shows "ei_encoder (\<lambda>buf i. do { (r, buf, ix) \<leftarrow> e buf i; (if r < 0 then Some (-1, buf, i) else Some (0, buf, ix)) }) x"
proof
  fix bs i and b :: bytes
  assume x: "x = Some bs"
  show "do { (r, buf, ix) \<leftarrow> e None i; (if r < 0 then Some (-1, buf, i) else Some (0, buf, ix)) }
      = Some (0, None, i + int (length bs))"
    by (simp add: ei_encoder.size_pass [OF assms x])
  assume "0 \<le> i" "i + int (length bs) \<le> int (length b)"
  then show "do { (r, buf, ix) \<leftarrow> e (Some b) i; (if r < 0 then Some (-1, buf, i) else Some (0, buf, ix)) }
      = Some (0, Some (splice_at b i bs), i + int (length bs))"
    by (simp add: ei_encoder.write_pass [OF assms x])
next
  fix i
  assume "x = None"
  from ei_encoder.reject [OF assms this, of i]
  show "\<exists>i'. do { (r, buf, ix) \<leftarrow> e None i; (if r < 0 then Some (-1, buf, i) else Some (0, buf, ix)) }
      = Some (-1, None, i')" by auto
qed

lemma enc_fun:
  assumes "fun_ok p"
  shows "ei_encoder (\<lambda>buf i. ei_encode_fun buf i p) (ext_fun p)"
proof (cases "fun_u p")
  case (EI_FUN_CLOSURE c)
  note d = ei_encode_fun_def ext_fun_def EI_FUN_CLOSURE fun_type.case
  show ?thesis
  proof (cases "fun_arity p = -1")
    case True
    show ?thesis unfolding d if_P [OF True]
      by (rule enc_keep_index [OF enc_fun_old [OF assms EI_FUN_CLOSURE]])
  next
    case False
    show ?thesis unfolding d if_not_P [OF False]
      by (rule enc_keep_index [OF enc_fun_new [OF assms EI_FUN_CLOSURE]])
  qed
next
  case (EI_FUN_EXPORT func alloc)
  with assms obtain f where f: "func = Some f" "0 \<in> set (fun_module p)" "0 \<in> set f"
    by (cases func) simp_all
  show ?thesis
    unfolding ei_encode_fun_def ext_fun_def EI_FUN_EXPORT fun_type.case f(1) bind.bind_lunit
    by (rule enc_keep_index [OF enc_export [OF f(2,3)]])
qed

section \<open>Decoding\<close>

lemma dec_utf8_atom:
  assumes "ext_atom name ERLANG_UTF8 = Some a" and "sees b s a"
  obtains res where "ei_decode_atom_as b s MAXATOMLEN_UTF8 ERLANG_UTF8 =
    Some (Done (name @ [0], ERLANG_UTF8, res), s + int (length a))"
proof -
  from assms(1) have n: "utf8_name name 255" and a: "a = atom_bytes (length name < 256) name"
    by (auto simp: ext_atom_def split: if_splits)
  have "length name \<le> 1020" using length_utf8_name [OF n] by simp
  with ei_decode_atom_as_utf8 [of b s "length name < 256" name ERLANG_UTF8 MAXATOMLEN_UTF8] assms(2) that
  show ?thesis by (simp add: a)
qed

lemma dec_long: "sees b i (ext_longlong n) \<Longrightarrow> ei_decode_long b i = Some (Done n, i + int (length (ext_longlong n)))"
  by (simp add: ei_decode_long_def codec_longlong.decodes)

lemma dec_pid:
  assumes "0 \<in> set (pid_node p)" and "ext_pid p = Some f" and "sees b i f"
  shows "ei_decode_pid store b i = Some (Done (if store
    then Some (p\<lparr>pid_node := c_string (pid_node p) @ [0]\<rparr>) else None), i + int (length f))"
  using ei_partial_codec.decodes_ext [OF codec_pid [OF assms(1)] assms(2,3)] by simp

text \<open>What a decoded structure is: the strings end at their first zero.\<close>

definition norm_pid :: "erlang_pid \<Rightarrow> erlang_pid" where
  "norm_pid p = p\<lparr>pid_node := c_string (pid_node p) @ [0]\<rparr>"

definition norm_fun :: "erlang_fun \<Rightarrow> erlang_fun" where
  "norm_fun p = p\<lparr>fun_module := c_string (fun_module p) @ [0],
     fun_u := (case fun_u p of
       EI_FUN_CLOSURE c \<Rightarrow> EI_FUN_CLOSURE (c\<lparr>fun_pid := norm_pid (fun_pid c)\<rparr>)
     | EI_FUN_EXPORT func a \<Rightarrow> EI_FUN_EXPORT (map_option (\<lambda>f. c_string f @ [0]) func) a)\<rparr>"

lemma copy_free_vars_sees:
  "sees b s xs \<Longrightarrow> copy_free_vars True b s (int (length xs)) = Some (Done xs)"
  using read_bytes_sees [of b s xs] by (auto simp: copy_free_vars_def)

text \<open>The numbers of a closure that travel as 32-bit and 8-bit ones.\<close>

definition closure_fits :: "erlang_fun \<Rightarrow> fun_closure \<Rightarrow> bool" where
  "closure_fits p c \<longleftrightarrow> uint (fun_arity p) < 256
     \<and> scast (ucast (fun_index c) :: u32) = fun_index c
     \<and> scast (ucast (n_free_vars c) :: u32) = n_free_vars c"

lemma dec_fun_new:
  assumes ok: "fun_ok p" "fun_u p = EI_FUN_CLOSURE c"
    and x: "ext_fun_new p c = Some bs" and s: "sees b i bs" and l: "int (length bs) < 2 ^ 31"
  shows "decode_fun_new True None b i (i + 1) = Some (Done None, i + int (length bs))"
    and "closure_fits p c \<Longrightarrow> decode_fun_new True (Some c0) b i (i + 1) =
      Some (Done (Some (norm_fun p)), i + int (length bs))"
proof -
  from ok have okc: "0 \<in> set (fun_module p)" "0 \<in> set (pid_node (fun_pid c))"
    "free_var_len c = int (length (free_vars c))" "length (md5 c) = 16" by simp_all
  from x obtain m f where m: "ext_atom (c_string (fun_module p)) ERLANG_UTF8 = Some m"
    and f: "ext_pid (fun_pid c) = Some f"
    and body: "ext_fun_body p c = Some ((ucast (fun_arity p) # md5 c @ be32 (fun_index c) @ be32 (n_free_vars c)) @ m
       @ ext_longlong (old_index c) @ ext_longlong (uniq c) @ f @ free_vars c)"
    by (auto simp: ext_fun_new_def ext_fun_body_def split: Option.bind_splits)
  define sz where "sz = length bs - 1"
  have bs: "bs = ERL_NEW_FUN_EXT # be32 (of_nat sz :: u32) @ ucast (fun_arity p) # md5 c @ be32 (fun_index c) @ be32 (n_free_vars c) @ m
       @ ext_longlong (old_index c) @ ext_longlong (uniq c) @ f @ free_vars c" (is "_ = _ # _ @ ?r")
    and sz: "int sz + 1 = int (length bs)"
    using x body by (auto simp: ext_fun_new_def sz_def)
  define i1 i2 i3 i4 where "i1 = i + 30 + int (length m)" and "i2 = i1 + int (length (ext_longlong (old_index c)))"
    and "i3 = i2 + int (length (ext_longlong (uniq c)))" and "i4 = i3 + int (length f)"
  note pos = i1_def i2_def i3_def i4_def
  have parts: "sees b (i + 1) (be32 (of_nat sz :: u32))" "sees b (i + 5) [ucast (fun_arity p)]" "sees b (i + 6) (md5 c)"
    "sees b (i + 22) (be32 (fun_index c))" "sees b (i + 26) (be32 (n_free_vars c))" "sees b (i + 30) m"
    "sees b i1 (ext_longlong (old_index c))" "sees b i2 (ext_longlong (uniq c))" "sees b i3 f" "sees b i4 (free_vars c)"
    using s okc(4) by (simp_all add: bs sees_append sees_Cons pos add.assoc add.left_commute)
  obtain res where atom: "ei_decode_atom_as b (i + 30) MAXATOMLEN_UTF8 ERLANG_UTF8 =
      Some (Done (c_string (fun_module p) @ [0], ERLANG_UTF8, res), i1)"
    using dec_utf8_atom [OF m parts(6)] by (auto simp: i1_def)
  have rd: "get32be b (i + 1) = Some (of_nat sz, i + 5)" "get8 b (i + 5) = Some (ucast (fun_arity p), i + 6)"
    "read_bytes b (i + 6) 16 = Some (md5 c)"
    "get32be b (22 + i) = Some (ucast (fun_index c), i + 26)" "get32be b (i + 26) = Some (ucast (n_free_vars c), i + 30)"
    using parts(1,2,4,5) read_bytes_sees [OF parts(3)] okc(4) by (auto simp: get8_sees add.commute dest!: sees_getters)
  have lo: "ei_decode_long b i1 = Some (Done (old_index c), i2)" "ei_decode_long b i2 = Some (Done (uniq c), i3)"
    using dec_long [OF parts(7)] dec_long [OF parts(8)] by (simp_all add: pos)
  have pid: "ei_decode_pid store b i3 = Some (Done (if store then Some (norm_pid (fun_pid c)) else None), i4)" for store
    using dec_pid [OF okc(2) f parts(9)] by (simp add: pos norm_pid_def)
  have fin: "i4 + int (length (free_vars c)) = i + int (length bs)"
    using okc(4) by (simp add: bs pos)
  have "sint (of_nat sz :: u32) - (i4 - i) + 1 = int (length (free_vars c))"
    using sint_u32_of_nat [of sz] fin sz l by simp
  moreover have "length (free_vars c) < 2 ^ 31" using l fin by (simp add: bs)
  ultimately have n: "free_var_size (of_nat sz) (i4 - i) = int (length (free_vars c))"
    unfolding free_var_size_def using sint_u32_of_nat [of "length (free_vars c)"] by simp
  show "decode_fun_new True None b i (i + 1) = Some (Done None, i + int (length bs))"
    using fin by (simp add: decode_fun_new_def rd atom lo pid n dec_then_Done Let_def)
  show "decode_fun_new True (Some c0) b i (i + 1) = Some (Done (Some (norm_fun p)), i + int (length bs))"
    if fits: "closure_fits p c"
  proof -
    have "take_bit 8 (fun_arity p) = fun_arity p"
      using fits by (simp add: closure_fits_def word_uint_eq_iff unsigned_take_bit_eq take_bit_int_eq_self)
    then have ar: "ucast (ucast (fun_arity p) :: u8) = fun_arity p" by (simp add: unsigned_ucast_eq)
    have "norm_fun p = \<lparr>fun_arity = fun_arity p, fun_module = c_string (fun_module p) @ [0],
        fun_u = EI_FUN_CLOSURE \<lparr>md5 = md5 c, fun_index = fun_index c, old_index = old_index c, uniq = uniq c,
          n_free_vars = n_free_vars c, fun_pid = norm_pid (fun_pid c), free_var_len = int (length (free_vars c)),
          free_vars = free_vars c\<rparr>\<rparr>"
      using ok(2) okc(3) by (cases p; cases c) (simp add: norm_fun_def)
    with fits show ?thesis
      using fin
      by (simp add: decode_fun_new_def rd atom lo pid n dec_then_Done Let_def
          copy_free_vars_sees [OF parts(10)] closure_fits_def ar)
  qed
qed

lemma dec_utf8_atom_room:
  assumes "ext_atom name ERLANG_UTF8 = Some a" and "sees b s a"
  obtains res where "ei_decode_atom_as b s destlen ERLANG_UTF8 =
    (if int (length name) < destlen then Some (Done (name @ [0], ERLANG_UTF8, res), s + int (length a))
     else Some (Fail, s))"
proof -
  from assms(1) have n: "utf8_name name 255" and a: "a = atom_bytes (length name < 256) name"
    by (auto simp: ext_atom_def split: if_splits)
  then have l: "length name < (if length name < 256 then 256 else 65536)"
    using length_utf8_name [OF n] by simp
  show ?thesis
  proof (cases "int (length name) < destlen")
    case True
    then show ?thesis
      using that ei_decode_atom_as_utf8 [OF assms(2) [unfolded a] l, of ERLANG_UTF8 destlen] by (simp add: a)
  next
    case False
    then show ?thesis
      using that get_atom_header_sees [OF assms(2) [unfolded a] l] by (simp add: ei_decode_atom_as_def)
  qed
qed

lemma dec_export:
  assumes ok: "fun_ok p" "fun_u p = EI_FUN_EXPORT (Some f) al"
    and x: "ext_export p f = Some bs" and s: "sees b i bs"
    and again: "again \<longleftrightarrow> MAXATOMLEN_UTF8 \<le> int (length (c_string (fun_module p))) + 1 + int (length (c_string f))"
  shows "decode_export True store b i (i + 1) = Some (Done (if store
    then Some (norm_fun (p\<lparr>fun_u := EI_FUN_EXPORT (Some f) again\<rparr>)) else None), i + int (length bs))"
proof -
  from x obtain m g where m: "ext_atom (c_string (fun_module p)) ERLANG_UTF8 = Some m"
    and g: "ext_atom (c_string f) ERLANG_UTF8 = Some g"
    and bs: "bs = ERL_EXPORT_EXT # m @ g @ ext_longlong (fun_arity p)"
    by (auto simp: ext_export_def split: Option.bind_splits)
  define i1 i2 where "i1 = i + 1 + int (length m)" and "i2 = i1 + int (length g)"
  have parts: "sees b (i + 1) m" "sees b i1 g" "sees b i2 (ext_longlong (fun_arity p))"
    using s by (simp_all add: bs sees_append sees_Cons i1_def i2_def)
  obtain res where atom: "ei_decode_atom_as b (i + 1) MAXATOMLEN_UTF8 ERLANG_UTF8 =
      Some (Done (c_string (fun_module p) @ [0], ERLANG_UTF8, res), i1)"
    using dec_utf8_atom [OF m parts(1)] by (auto simp: i1_def)
  have func: "\<exists>res. ei_decode_atom_as b i1 d ERLANG_UTF8 = (if int (length (c_string f)) < d
      then Some (Done (c_string f @ [0], ERLANG_UTF8, res), i2) else Some (Fail, i1))" for d
    unfolding i2_def by (rule dec_utf8_atom_room [OF g parts(2), of d]) (rule exI)
  have big: "int (length (c_string f)) < MAXATOMLEN_UTF8"
  proof -
    from g have "utf8_name (c_string f) 255" by (auto simp: ext_atom_def split: if_splits)
    from length_utf8_name [OF this] show ?thesis by simp
  qed
  have len: "c_strlen (c_string q @ [0]) = Some (int (length (c_string q)))" for q
    using c_strlen_terminated [of "c_string q" "[]"] by (simp add: c_string_def)
  have lo: "ei_decode_long b i2 = Some (Done (fun_arity p), i + int (length bs))"
    using dec_long [OF parts(3)] by (simp add: bs i1_def i2_def)
  from func [of MAXATOMLEN_UTF8] obtain r1 where f1: "ei_decode_atom_as b i1 MAXATOMLEN_UTF8 ERLANG_UTF8 =
        Some (Done (c_string f @ [0], ERLANG_UTF8, r1), i2)"
    unfolding if_P [OF big] ..
  let ?d = "MAXATOMLEN_UTF8 - (int (length (c_string (fun_module p))) + 1)"
  have d: "int (length (c_string f)) < ?d \<longleftrightarrow> \<not> again" using again by linarith
  from func [of ?d] obtain r2 where f2: "ei_decode_atom_as b i1 ?d ERLANG_UTF8 =
        (if \<not> again then Some (Done (c_string f @ [0], ERLANG_UTF8, r2), i2) else Some (Fail, i1))"
    unfolding d ..
  have u: "int (length (c_string (fun_module p))) + 1 \<noteq> 0" by linarith
  show ?thesis
  proof (cases store)
    case False
    then show ?thesis by (simp add: decode_export_def dec_then_Done atom len f1 lo)
  next
    case True
    have "norm_fun (p\<lparr>fun_u := EI_FUN_EXPORT (Some f) again\<rparr>) = \<lparr>fun_arity = fun_arity p,
        fun_module = c_string (fun_module p) @ [0], fun_u = EI_FUN_EXPORT (Some (c_string f @ [0])) again\<rparr>"
      by (cases p) (simp add: norm_fun_def)
    then show ?thesis
      using u
      by (cases again; simp only: decode_export_def dec_then_Done [OF atom] split len bind.bind_lunit Let_def
          True if_True f2 simp_thms if_False cret.simps dec_then_Done [OF f1] dec_then_Done [OF refl]
          dec_then_Done [OF lo])
  qed
qed

section \<open>Property\<close>

text \<open>Where the function name ended up is not part of the value.\<close>

fun with_alloc :: "bool \<Rightarrow> fun_type \<Rightarrow> fun_type" where
  "with_alloc a (EI_FUN_CLOSURE c) = EI_FUN_CLOSURE c"
| "with_alloc a (EI_FUN_EXPORT f _) = EI_FUN_EXPORT f a"

lemma dec_fun:
  assumes ok: "fun_ok p" and fits: "case fun_u p of EI_FUN_CLOSURE c \<Rightarrow> closure_fits p c | EI_FUN_EXPORT _ _ \<Rightarrow> True"
    and x: "ext_fun p = Some bs" and s: "sees b i bs" and l: "int (length bs) < 2 ^ 31"
  shows "\<exists>a. ei_decode_fun skip True (Some c0) b i =
    Some (Some (Done (Some (norm_fun (p\<lparr>fun_u := with_alloc a (fun_u p)\<rparr>))), i + int (length bs)))"
proof (cases "fun_u p")
  case (EI_FUN_CLOSURE c)
  with fits have c: "closure_fits p c" by simp
  then have "fun_arity p \<noteq> -1" by (auto simp: closure_fits_def unsigned_minus_1_eq_mask mask_eq_exp_minus_1)
  with x EI_FUN_CLOSURE have x': "ext_fun_new p c = Some bs" by (simp add: ext_fun_def)
  then have "get8 b i = Some (ERL_NEW_FUN_EXT, i + 1)" using s by (auto simp: ext_fun_new_def get8_sees)
  moreover have "norm_fun (p\<lparr>fun_u := EI_FUN_CLOSURE c\<rparr>) = norm_fun p" using EI_FUN_CLOSURE by (cases p) simp
  ultimately show ?thesis using dec_fun_new(2) [OF ok EI_FUN_CLOSURE x' s l c] EI_FUN_CLOSURE
    by (simp add: ei_decode_fun_def reading_def)
next
  case (EI_FUN_EXPORT func al)
  with ok obtain f where f: "func = Some f" by (cases func) simp_all
  with x EI_FUN_EXPORT have x': "ext_export p f = Some bs" by (simp add: ext_fun_def)
  then have "get8 b i = Some (ERL_EXPORT_EXT, i + 1)"
    using s by (auto simp: ext_export_def get8_sees split: Option.bind_splits)
  with dec_export [OF ok EI_FUN_EXPORT [unfolded f] x' s refl, of True] EI_FUN_EXPORT f show ?thesis
    by (auto simp: ei_decode_fun_def reading_def)
qed

text \<open>
  C28. A closure in the present format or an external function, encoded in the room the sizing pass
  asks for, is decoded to the same arity, names, numbers, process identifier and free variables,
  and to the same index; the bytes around it are unchanged.
\<close>

theorem ei_fun_round_trip:
  assumes "fun_ok p" and "case fun_u p of EI_FUN_CLOSURE c \<Rightarrow> closure_fits p c | EI_FUN_EXPORT _ _ \<Rightarrow> True"
    and "ei_encode_fun None i p = Some (0, None, j)" and "0 \<le> i" and "j \<le> int (length b)" and "j - i < 2 ^ 31"
  shows "\<exists>b' a. ei_encode_fun (Some b) i p = Some (0, Some b', j)
    \<and> ei_decode_fun skip True (Some c0) b' i =
        Some (Some (Done (Some (norm_fun (p\<lparr>fun_u := with_alloc a (fun_u p)\<rparr>))), j))
    \<and> length b' = length b \<and> take (nat i) b' = take (nat i) b \<and> drop (nat j) b' = drop (nat j) b"
proof -
  note enc = enc_fun [OF assms(1)]
  from ei_encoder.sized_write [OF enc assms(3-5)] obtain bs where x: "ext_fun p = Some bs"
    and j: "j = i + int (length bs)" and w: "ei_encode_fun (Some b) i p = Some (0, Some (splice_at b i bs), j)" by auto
  have "sees (splice_at b i bs) i bs" using assms(4,5) j by (intro sees_splice_at) auto
  from dec_fun [OF assms(1,2) x this, of skip c0] assms(6) j
  obtain a where "ei_decode_fun skip True (Some c0) (splice_at b i bs) i =
      Some (Some (Done (Some (norm_fun (p\<lparr>fun_u := with_alloc a (fun_u p)\<rparr>))), j))" by auto
  with w ei_encoder.sized_write_frame [OF enc assms(3-5)] show ?thesis by auto
qed

theorem ei_fun_round_trip_witness:
  "\<forall>c0. \<exists>b' a. ei_encode_fun (Some (replicate 20 0)) 2
      \<lparr>fun_arity = 3, fun_module = [0x6D, 0], fun_u = EI_FUN_EXPORT (Some [0x66, 0]) False\<rparr> = Some (0, Some b', 11)
    \<and> ei_decode_fun (\<lambda>_. None) True (Some c0) b' 2 = Some (Some (Done (Some
      \<lparr>fun_arity = 3, fun_module = [0x6D, 0], fun_u = EI_FUN_EXPORT (Some [0x66, 0]) a\<rparr>), 11))"
proof
  fix c0
  let ?p = "\<lparr>fun_arity = 3, fun_module = [0x6D, 0], fun_u = EI_FUN_EXPORT (Some [0x66, 0]) False\<rparr>"
  have "ei_encode_fun None 2 ?p = Some (0, None, 11)"
    by (simp add: ei_encode_fun_def encode_export_def enc_then_def put_part_def enc_utf8_atom_def ei_encode_long_def
        ei_encode_longlong_def ei_encode_atom_as_def c_strlen_def ei_encode_atom_len_as_def
        verify_utf8_atom.simps get8_def put_at_def put_atom_header_def)
  from ei_fun_round_trip [OF _ _ this, of "replicate 20 0" "\<lambda>_. None" c0]
  show "\<exists>b' a. ei_encode_fun (Some (replicate 20 0)) 2 ?p = Some (0, Some b', 11)
    \<and> ei_decode_fun (\<lambda>_. None) True (Some c0) b' 2 = Some (Some (Done (Some
      \<lparr>fun_arity = 3, fun_module = [0x6D, 0], fun_u = EI_FUN_EXPORT (Some [0x66, 0]) a\<rparr>), 11))"
    by (auto simp: norm_fun_def c_string_def)
qed

end
