(* ===== verification/Ei_Term.thy ===== *)
theory Ei_Term
  imports Ei_Fun Ei_Big Ei_Binary
begin

text \<open>
  Terms of any type: \<open>get_type.c\<close>, \<open>decode_skip.c\<close>, \<open>ei_decode_term.c\<close> and \<open>decode_intlist.c\<close>.
  The type of a term is read ahead, a whole term is skipped, and a term that fits an \<open>ei_term\<close> is
  decoded.  Skipping recurses over nested terms; the model bounds the depth of the calls by
  \<open>fuel\<close>, and a term skips with any fuel above its depth.
\<close>

section \<open>Definitions\<close>

definition ei_get_type :: "bytes \<Rightarrow> int \<Rightarrow> (u8 \<times> int) option" where
  "ei_get_type buf index = do {
     (ty, s) \<leftarrow> get8 buf index;
     let len8 = (\<lambda>ty. do { (n, _) \<leftarrow> get8 buf s; Some (ty, uint n) });
     let len16 = (\<lambda>ty. do { (n, _) \<leftarrow> get16be buf s; Some (ty, uint n) });
     let len32 = (\<lambda>ty. do { (n, _) \<leftarrow> get32be buf s; Some (ty, sint n) });
     (if ty = ERL_SMALL_ATOM_EXT \<or> ty = ERL_SMALL_ATOM_UTF8_EXT then len8 ERL_ATOM_EXT
      else if ty = ERL_SMALL_TUPLE_EXT then len8 ty
      else if ty = ERL_ATOM_UTF8_EXT then len16 ERL_ATOM_EXT
      else if ty = ERL_ATOM_EXT \<or> ty = ERL_STRING_EXT then len16 ty
      else if ty = ERL_FLOAT_EXT \<or> ty = NEW_FLOAT_EXT then Some (ERL_FLOAT_EXT, 0)
      else if ty = ERL_LARGE_TUPLE_EXT \<or> ty = ERL_LIST_EXT \<or> ty = ERL_MAP_EXT
        \<or> ty = ERL_BINARY_EXT \<or> ty = ERL_BIT_BINARY_EXT then len32 ty
      else if ty = ERL_SMALL_BIG_EXT then len8 ty
      else if ty = ERL_LARGE_BIG_EXT then len32 ty
      else if ty = ERL_NEW_PID_EXT then Some (ERL_PID_EXT, 0)
      else if ty = ERL_V4_PORT_EXT \<or> ty = ERL_NEW_PORT_EXT then Some (ERL_PORT_EXT, 0)
      else if ty = ERL_NEWER_REFERENCE_EXT then Some (ERL_NEW_REFERENCE_EXT, 0)
      else Some (ty, 0)) }"

subsection \<open>Skipping\<close>

text \<open>The result of a decoder called with \<open>NULL\<close>, of which only the return value is used.\<close>

definition skipped :: "'a dec_res \<Rightarrow> unit dec_res" where
  "skipped d = map_option (map_prod (map_cret (\<lambda>_. ())) id) d"

text \<open>The loops over the elements; the return values of the calls are not looked at.\<close>

fun skip_terms :: "skipper \<Rightarrow> nat \<Rightarrow> int \<Rightarrow> int option option" where
  "skip_terms skip 0 index = Some (Some index)"
| "skip_terms skip (Suc n) index = do {
     r \<leftarrow> skip index;
     reading r (\<lambda>(_, index). skip_terms skip n index) }"

fun ei_skip_term :: "(bytes \<Rightarrow> u64 option) \<Rightarrow> nat \<Rightarrow> bytes \<Rightarrow> int \<Rightarrow> unit dec_res option" where
  "ei_skip_term sscanf_lf 0 buf index = None"
| "ei_skip_term sscanf_lf (Suc fuel) buf index =
     reading (ei_get_type buf index) (\<lambda>(ty, _).
       if ty = ERL_ATOM_EXT then
         Some (skipped (ei_decode_atom_as buf index MAXATOMLEN_UTF8 (ERLANG_LATIN1 OR ERLANG_UTF8)))
       else if ty = ERL_PID_EXT \<or> ty = ERL_NEW_PID_EXT then Some (skipped (ei_decode_pid False buf index))
       else if ty = ERL_PORT_EXT \<or> ty = ERL_NEW_PORT_EXT then Some (skipped (ei_decode_port False buf index))
       else if ty = ERL_NEW_REFERENCE_EXT \<or> ty = ERL_NEWER_REFERENCE_EXT \<or> ty = ERL_REFERENCE_EXT then
         Some (skipped (ei_decode_ref False [] buf index))
       else if ty = ERL_NIL_EXT then Some (skipped (ei_decode_list_header buf index))
       else if ty = ERL_LIST_EXT then
         reading_ok (ei_decode_list_header buf index) index (\<lambda>n index. do {
           r \<leftarrow> skip_terms (ei_skip_term sscanf_lf fuel buf) (nat (sint n)) index;
           reading r (\<lambda>index.
           reading (ei_get_type buf index) (\<lambda>(ty, _).
             if ty \<noteq> ERL_NIL_EXT then do {
               r \<leftarrow> ei_skip_term sscanf_lf fuel buf index;
               reading r (\<lambda>(_, index). Some (Some (Done (), index))) }
             else Some (skipped (ei_decode_list_header buf index)))) })
       else if ty = ERL_STRING_EXT then Some (skipped (ei_decode_string False buf index))
       else if ty = ERL_SMALL_TUPLE_EXT \<or> ty = ERL_LARGE_TUPLE_EXT then
         reading_ok (ei_decode_tuple_header buf index) index (\<lambda>n index. do {
           r \<leftarrow> skip_terms (ei_skip_term sscanf_lf fuel buf) (nat (sint n)) index;
           reading r (\<lambda>index. Some (Some (Done (), index))) })
       else if ty = ERL_MAP_EXT then
         reading_ok (ei_decode_map_header buf index) index (\<lambda>n index.
           reading (c_int (sint n * 2)) (\<lambda>n. do {
             r \<leftarrow> skip_terms (ei_skip_term sscanf_lf fuel buf) (nat n) index;
             reading r (\<lambda>index. Some (Some (Done (), index))) }))
       else if ty = ERL_BINARY_EXT then Some (skipped (ei_decode_binary False buf index))
       else if ty = ERL_BIT_BINARY_EXT then Some (skipped (ei_decode_bitstring buf index))
       else if ty = ERL_SMALL_INTEGER_EXT \<or> ty = ERL_INTEGER_EXT then
         Some (skipped (ei_decode_long buf index))
       else if ty = ERL_SMALL_BIG_EXT \<or> ty = ERL_LARGE_BIG_EXT then
         Some (skipped (ei_decode_big buf index None))
       else if ty = ERL_FLOAT_EXT \<or> ty = NEW_FLOAT_EXT then
         Some (skipped (ei_decode_double sscanf_lf buf index))
       else if ty = ERL_FUN_EXT \<or> ty = ERL_NEW_FUN_EXT \<or> ty = ERL_EXPORT_EXT then
         map_option skipped (ei_decode_fun (ei_skip_term sscanf_lf fuel buf) True None buf index)
       else Some (Some (Fail, index)))"

subsection \<open>Decoding into an \<open>ei_term\<close>\<close>

datatype ei_value = I_val u64 | D_val u64 | Atom_name bytes | Pid erlang_pid | Port erlang_port | Ref erlang_ref

record ei_term =
  ei_type :: u8
  term_arity :: int
  term_size :: int
  term_value :: ei_value

abbreviation ERL_PASS_THROUGH :: u8 where "ERL_PASS_THROUGH \<equiv> 0x70"

text \<open>
  The return value is \<open>1\<close> for a decoded term, \<open>0\<close> for one that does not fit and \<open>-1\<close>; only with
  \<open>1\<close> the index moves.  The structure is changed in every case.  A member of the union that a
  decoder left unfinished has no value in the model: \<open>n\<close> stands for the numbers of a reference that
  were in the structure before.
\<close>

definition sub_term :: "('a \<Rightarrow> ei_value) \<Rightarrow> u8 \<Rightarrow> ei_term \<Rightarrow> int \<Rightarrow> 'a option dec_res \<Rightarrow> (int \<times> ei_term \<times> int) option"
where
  "sub_term f ty t index d = do {
     (r, i) \<leftarrow> d;
     (case r of
        Done (Some x) \<Rightarrow> Some (1, t\<lparr>ei_type := ty, term_value := f x\<rparr>, i)
      | _ \<Rightarrow> Some (-1, t\<lparr>ei_type := ty\<rparr>, index)) }"

definition decode_ei_term ::
  "(bytes \<Rightarrow> u64 option) \<Rightarrow> u32 list \<Rightarrow> bytes \<Rightarrow> int \<Rightarrow> ei_term \<Rightarrow> (int \<times> ei_term \<times> int) option" where
  "decode_ei_term sscanf_lf n buf index t = do {
     (c, s) \<leftarrow> get8 buf index;
     let t = t\<lparr>ei_type := c\<rparr>;
     (if c = ERL_SMALL_INTEGER_EXT then do {
        (x, s) \<leftarrow> get8 buf s; Some (1, t\<lparr>term_value := I_val (ucast x)\<rparr>, s) }
      else if c = ERL_INTEGER_EXT then do {
        (x, s) \<leftarrow> get32be buf s; Some (1, t\<lparr>term_value := I_val (scast x)\<rparr>, s) }
      else if c = ERL_FLOAT_EXT \<or> c = NEW_FLOAT_EXT then
        sub_term D_val ERL_FLOAT_EXT t index
          (map_option (map_prod (map_cret Some) id) (ei_decode_double sscanf_lf buf index))
      else if c = ERL_ATOM_EXT \<or> c = ERL_ATOM_UTF8_EXT \<or> c = ERL_SMALL_ATOM_EXT
        \<or> c = ERL_SMALL_ATOM_UTF8_EXT then
        sub_term Atom_name ERL_ATOM_EXT t index
          (map_option (map_prod (map_cret Some) id) (ei_decode_atom buf index))
      else if c = ERL_REFERENCE_EXT \<or> c = ERL_NEW_REFERENCE_EXT \<or> c = ERL_NEWER_REFERENCE_EXT then
        sub_term Ref ERL_NEW_REFERENCE_EXT t index (ei_decode_ref True n buf index)
      else if c = ERL_PORT_EXT \<or> c = ERL_NEW_PORT_EXT then
        sub_term Port ERL_PORT_EXT t index (ei_decode_port True buf index)
      else if c = ERL_PID_EXT \<or> c = ERL_NEW_PID_EXT then
        sub_term Pid ERL_PID_EXT t index (ei_decode_pid True buf index)
      else if c = ERL_SMALL_TUPLE_EXT then do {
        (x, s) \<leftarrow> get8 buf s; Some (1, t\<lparr>term_arity := uint x\<rparr>, s) }
      else if c = ERL_LARGE_TUPLE_EXT then do {
        (x, s) \<leftarrow> get32be buf s; Some (1, t\<lparr>term_arity := sint x\<rparr>, s) }
      else if c = ERL_NIL_EXT then Some (1, t\<lparr>term_arity := 0\<rparr>, s)
      else if c = ERL_STRING_EXT then do {
        (x, s) \<leftarrow> get16be buf s; Some (0, t\<lparr>term_size := uint x\<rparr>, index) }
      else if c = ERL_LIST_EXT \<or> c = ERL_MAP_EXT then do {
        (x, s) \<leftarrow> get32be buf s; Some (1, t\<lparr>term_arity := sint x\<rparr>, s) }
      else if c = ERL_BINARY_EXT then do {
        (x, s) \<leftarrow> get32be buf s; Some (0, t\<lparr>term_size := sint x\<rparr>, index) }
      else if c = ERL_BIT_BINARY_EXT then do {
        (x, s) \<leftarrow> get32be buf s;
        (last_bits, s) \<leftarrow> get8 buf s;
        (if (last_bits = 0) \<noteq> (x = 0) \<or> last_bits > 8 then Some (-1, t, index)
         else Some (0, t\<lparr>term_size := sint x\<rparr>, index)) }
      else if c = ERL_SMALL_BIG_EXT then do {
        (x, s) \<leftarrow> get8 buf s;
        let t = t\<lparr>term_arity := uint x\<rparr>;
        (if x \<noteq> 4 then Some (-1, t, index)
         else do {
           (sign, s) \<leftarrow> get8 buf s;
           (w, s) \<leftarrow> get32le buf s;
           (if sign \<noteq> 0 then do {
              m \<leftarrow> c_int (sint w - 1);
              (if m < 0 then Some (-1, t, index) else Some (1, t, s)) }
            else if sint w < 0 then Some (-1, t, index)
            else Some (1, t, s)) }) }
      else if c = ERL_LARGE_BIG_EXT then Some (0, t, index)
      else if c = ERL_PASS_THROUGH then Some (0, t, index)
      else Some (-1, t, index)) }"

text \<open>The structure is not decoded into when the pointer is \<open>NULL\<close>.\<close>

definition ei_decode_ei_term ::
  "(bytes \<Rightarrow> u64 option) \<Rightarrow> u32 list \<Rightarrow> bytes \<Rightarrow> int \<Rightarrow> ei_term option \<Rightarrow> (int \<times> ei_term option \<times> int) option"
where
  "ei_decode_ei_term sscanf_lf n buf index t =
     (case t of
        None \<Rightarrow> Some (-1, None, index)
      | Some t \<Rightarrow> do {
          (r, t, i) \<leftarrow> decode_ei_term sscanf_lf n buf index t;
          Some (r, Some t, i) })"

subsection \<open>Lists of integers\<close>

text \<open>The loop over the elements of a list: the return value, the numbers so far and the index.\<close>

fun get_long_elems :: "bytes \<Rightarrow> nat \<Rightarrow> int \<Rightarrow> u64 list \<Rightarrow> (int \<times> u64 list \<times> int) option" where
  "get_long_elems buf 0 idx a = Some (0, a, idx)"
| "get_long_elems buf (Suc n) idx a = do {
     (r, idx) \<leftarrow> ei_decode_long buf idx;
     (case r of
        Fail \<Rightarrow> Some (-1, a, idx)
      | Done x \<Rightarrow> get_long_elems buf n idx (a @ [x])) }"

text \<open>
  The results are the return value, the numbers stored, the count and the index.  With \<open>a\<close> \<open>NULL\<close>
  (\<open>store\<close> is false) the bytes of a string are not read, and the numbers have no meaning.  On a term
  of another type \<open>count\<close> is not set.
\<close>

definition ei_decode_intlist ::
  "bool \<Rightarrow> bytes \<Rightarrow> int \<Rightarrow> (int \<times> u64 list \<times> int option \<times> int) option" where
  "ei_decode_intlist store buf index = do {
     (t, s) \<leftarrow> get8 buf index;
     (if t = ERL_STRING_EXT then do {
        (len, s) \<leftarrow> get16be buf s;
        xs \<leftarrow> (if store then read_bytes buf s (uint len) else Some []);
        Some (0, map ucast xs, Some (uint len), s + uint len) }
      else if t = ERL_LIST_EXT then do {
        (len, s) \<leftarrow> get32be buf s;
        (r, a, idx) \<leftarrow> get_long_elems buf (nat (sint len)) s [];
        (if r < 0 then Some (-1, a, Some (int (length a)), index)
         else Some (0, a, Some (sint len), idx)) }
      else Some (-1, [], None, index)) }"

section \<open>Reading ahead\<close>

text \<open>The type reported for a tag, and the number of bytes that are read behind the tag.\<close>

definition norm_type :: "u8 \<Rightarrow> u8" where
  "norm_type ty =
     (if ty \<in> {ERL_SMALL_ATOM_EXT, ERL_SMALL_ATOM_UTF8_EXT, ERL_ATOM_UTF8_EXT} then ERL_ATOM_EXT
      else if ty = NEW_FLOAT_EXT then ERL_FLOAT_EXT
      else if ty = ERL_NEW_PID_EXT then ERL_PID_EXT
      else if ty \<in> {ERL_V4_PORT_EXT, ERL_NEW_PORT_EXT} then ERL_PORT_EXT
      else if ty = ERL_NEWER_REFERENCE_EXT then ERL_NEW_REFERENCE_EXT
      else ty)"

definition tag_room :: "u8 \<Rightarrow> nat" where
  "tag_room ty =
     (if ty \<in> {ERL_SMALL_ATOM_EXT, ERL_SMALL_ATOM_UTF8_EXT, ERL_SMALL_TUPLE_EXT, ERL_SMALL_BIG_EXT} then 1
      else if ty \<in> {ERL_ATOM_UTF8_EXT, ERL_ATOM_EXT, ERL_STRING_EXT} then 2
      else if ty \<in> {ERL_LARGE_TUPLE_EXT, ERL_LIST_EXT, ERL_MAP_EXT, ERL_BINARY_EXT, ERL_BIT_BINARY_EXT,
        ERL_LARGE_BIG_EXT} then 4
      else 0)"

lemma get_room:
  assumes "0 \<le> s"
  shows "s + 1 \<le> int (length b) \<Longrightarrow> \<exists>n. get8 b s = Some (n, s + 1)"
    and "s + 2 \<le> int (length b) \<Longrightarrow> \<exists>n. get16be b s = Some (n, s + 2)"
    and "s + 4 \<le> int (length b) \<Longrightarrow> \<exists>n. get32be b s = Some (n, s + 4)"
  using assms by (simp_all add: get8_def get16be_def get32be_def)

lemma get_type_sees:
  assumes "sees b i (tag # xs)" and "tag_room tag \<le> length xs"
  shows "\<exists>n. ei_get_type b i = Some (norm_type tag, n)"
proof -
  have t: "get8 b i = Some (tag, i + 1)" using assms(1) by (rule get8_sees)
  have "0 \<le> i + 1" and "i + 1 + int (tag_room tag) \<le> int (length b)"
    using sees_length [OF assms(1)] assms by (auto simp: sees_def)
  then have "1 \<le> tag_room tag \<Longrightarrow> \<exists>n j. get8 b (i + 1) = Some (n, j)"
    and "2 \<le> tag_room tag \<Longrightarrow> \<exists>n j. get16be b (i + 1) = Some (n, j)"
    and "4 \<le> tag_room tag \<Longrightarrow> \<exists>n j. get32be b (i + 1) = Some (n, j)"
    using get_room [of "i + 1" b] by fastforce+
  then show ?thesis
    unfolding tag_room_def norm_type_def ei_get_type_def t
    by (auto split: if_splits)
qed

section \<open>Skipping simple terms\<close>

text \<open>A sequence of bytes that is skipped, wherever it is seen and with any fuel from \<open>d\<close> on.\<close>

definition skips :: "(bytes \<Rightarrow> u64 option) \<Rightarrow> nat \<Rightarrow> bytes \<Rightarrow> bool" where
  "skips lf d xs \<longleftrightarrow> (\<forall>fuel b i. d \<le> fuel \<longrightarrow> sees b i xs \<longrightarrow>
     ei_skip_term lf fuel b i = Some (Some (Done (), i + int (length xs))))"

text \<open>The common form of the simple cases: what is read ahead selects a decoder that accepts.\<close>

lemma skipsI:
  assumes "xs = tag # ys" and "tag_room tag \<le> length ys"
    and "\<And>fuel b i n. sees b i xs \<Longrightarrow> ei_get_type b i = Some (norm_type tag, n) \<Longrightarrow>
      ei_skip_term lf (Suc fuel) b i = Some (Some (Done (), i + int (length xs)))"
  shows "skips lf 1 xs"
  unfolding skips_def
proof (intro allI impI)
  fix fuel :: nat and b i
  assume "1 \<le> fuel" and s: "sees b i xs"
  then obtain f where f: "fuel = Suc f" by (cases fuel) auto
  from get_type_sees [OF s [unfolded assms(1)] assms(2)] assms(3) [OF s]
  show "ei_skip_term lf fuel b i = Some (Some (Done (), i + int (length xs)))" unfolding f by blast
qed

lemma skipped_Done: "d = Some (Done x, i) \<Longrightarrow> skipped d = Some (Done (), i)"
  by (simp add: skipped_def)

lemma reading_Some [simp]: "reading (Some x) f = f x"
  by (simp add: reading_def)

lemma reading_ok_Done [simp]: "reading_ok (Some (Done x, i)) index f = f x i"
  by (simp add: reading_ok_def)

text \<open>One step of \<open>ei_skip_term\<close> for each type read ahead.\<close>

lemma ei_skip_term_leaf:
  assumes "ei_get_type b i = Some (ty, n)"
  shows "ty = ERL_ATOM_EXT \<Longrightarrow> ei_skip_term lf (Suc fuel) b i =
      Some (skipped (ei_decode_atom_as b i MAXATOMLEN_UTF8 (ERLANG_LATIN1 OR ERLANG_UTF8)))"
    and "ty = ERL_PID_EXT \<Longrightarrow> ei_skip_term lf (Suc fuel) b i = Some (skipped (ei_decode_pid False b i))"
    and "ty = ERL_PORT_EXT \<Longrightarrow> ei_skip_term lf (Suc fuel) b i = Some (skipped (ei_decode_port False b i))"
    and "ty = ERL_NEW_REFERENCE_EXT \<Longrightarrow> ei_skip_term lf (Suc fuel) b i = Some (skipped (ei_decode_ref False [] b i))"
    and "ty = ERL_NIL_EXT \<Longrightarrow> ei_skip_term lf (Suc fuel) b i = Some (skipped (ei_decode_list_header b i))"
    and "ty = ERL_STRING_EXT \<Longrightarrow> ei_skip_term lf (Suc fuel) b i = Some (skipped (ei_decode_string False b i))"
    and "ty = ERL_BINARY_EXT \<Longrightarrow> ei_skip_term lf (Suc fuel) b i = Some (skipped (ei_decode_binary False b i))"
    and "ty = ERL_BIT_BINARY_EXT \<Longrightarrow> ei_skip_term lf (Suc fuel) b i = Some (skipped (ei_decode_bitstring b i))"
    and "ty = ERL_SMALL_INTEGER_EXT \<or> ty = ERL_INTEGER_EXT \<Longrightarrow>
      ei_skip_term lf (Suc fuel) b i = Some (skipped (ei_decode_long b i))"
    and "ty = ERL_SMALL_BIG_EXT \<or> ty = ERL_LARGE_BIG_EXT \<Longrightarrow>
      ei_skip_term lf (Suc fuel) b i = Some (skipped (ei_decode_big b i None))"
    and "ty = ERL_FLOAT_EXT \<Longrightarrow> ei_skip_term lf (Suc fuel) b i = Some (skipped (ei_decode_double lf b i))"
    and "ty = ERL_FUN_EXT \<or> ty = ERL_NEW_FUN_EXT \<or> ty = ERL_EXPORT_EXT \<Longrightarrow> ei_skip_term lf (Suc fuel) b i =
      map_option skipped (ei_decode_fun (ei_skip_term lf fuel b) True None b i)"
  using assms by auto

declare ei_skip_term.simps(2) [simp del]

lemma skips_big:
  assumes "n < 256" and "length ds = n"
  shows "skips lf 1 (ERL_SMALL_BIG_EXT # of_nat n # sign # ds)"
proof (rule skipsI [OF refl])
  fix fuel b i m
  assume s: "sees b i (ERL_SMALL_BIG_EXT # of_nat n # sign # ds)"
    and t: "ei_get_type b i = Some (norm_type ERL_SMALL_BIG_EXT, m)"
  have "uint (ucast (of_nat n :: u8) :: u32) = int n"
    using assms(1) by (simp add: unsigned_ucast_eq unsigned_of_nat take_bit_nat_eq_self flip: of_nat_take_bit)
  then have "ei_decode_big b i None = Some (Done None, i + int (length (ERL_SMALL_BIG_EXT # of_nat n # sign # ds)))"
    using s assms(2) by (simp add: ei_decode_big_def sees_simps)
  from skipped_Done [OF this] t
  show "ei_skip_term lf (Suc fuel) b i =
      Some (Some (Done (), i + int (length (ERL_SMALL_BIG_EXT # of_nat n # sign # ds))))"
    by (simp add: norm_type_def ei_skip_term_leaf)
qed (simp add: tag_room_def)

lemma skips_longlong: "skips lf 1 (ext_longlong n)"
proof -
  consider "sint n < 256 \<and> 0 \<le> sint n" | "\<not> (sint n < 256 \<and> 0 \<le> sint n)" "sint n \<le> ERL_MAX \<and> ERL_MIN \<le> sint n"
    | "ext_longlong n = ext_big (of_bool (sint n < 0)) (if sint n < 0 then - n else n)"
    unfolding ext_longlong_def by presburger
  then show ?thesis
  proof cases
    case 1
    then have xs: "ext_longlong n = [ERL_SMALL_INTEGER_EXT, ucast n]" by (simp add: ext_longlong_def)
    show ?thesis
      by (rule skipsI [OF xs])
        (simp_all add: tag_room_def norm_type_def ei_skip_term_leaf(9) dec_long skipped_Done)
  next
    case 2
    have xs: "ext_longlong n = ERL_INTEGER_EXT # be32 n"
      unfolding ext_longlong_def if_not_P [OF 2(1)] if_P [OF 2(2)] by (rule refl)
    show ?thesis
      by (rule skipsI [OF xs])
        (simp_all add: tag_room_def norm_type_def ei_skip_term_leaf(9) dec_long skipped_Done)
  next
    case 3
    have "unat up < 256 ^ 8" for up :: u64 using unsigned_less [of up] by simp
    note l = length_le_digits [OF this]
    show ?thesis unfolding 3 ext_big_def by (intro skips_big le_less_trans [OF l]) simp_all
  qed
qed

lemma skips_atom:
  assumes "ext_atom name ERLANG_UTF8 = Some xs"
  shows "skips lf 1 xs"
proof -
  from assms have n: "utf8_name name 255" and xs: "xs = atom_bytes (length name < 256) name"
    by (auto simp: ext_atom_def split: if_splits)
  have l: "length name < (if length name < 256 then 256 else 65536)" "length name \<le> 1020"
    using length_utf8_name [OF n] by simp_all
  have d: "\<exists>r. ei_decode_atom_as b i MAXATOMLEN_UTF8 (ERLANG_LATIN1 OR ERLANG_UTF8) = Some (Done r, i + int (length xs))"
    if "sees b i xs" for b i
    using get_atom_header_sees [OF that [unfolded xs] l(1)] l(2)
    by (auto simp: ei_decode_atom_as_def read_bytes_sees xs atom_bytes_def)
  let ?tag = "if length name < 256 then ERL_SMALL_ATOM_UTF8_EXT else ERL_ATOM_UTF8_EXT"
  show ?thesis
  proof (rule skipsI)
    show "xs = ?tag # tl xs" by (simp add: xs atom_bytes_def)
    show "tag_room ?tag \<le> length (tl xs)" by (simp add: xs atom_bytes_def tag_room_def)
    show "ei_skip_term lf (Suc fuel) b i = Some (Some (Done (), i + int (length xs)))"
      if "sees b i xs" "ei_get_type b i = Some (norm_type ?tag, n)" for fuel b i n
      using d [OF that(1)] that(2) by (auto simp: norm_type_def skipped_Done ei_skip_term_leaf)
  qed
qed

lemma skips_string:
  assumes "0 < length xs" and "length xs \<le> 0xffff"
  shows "skips lf 1 (ERL_STRING_EXT # be16 (of_nat (length xs) :: u32) @ xs)"
proof (rule skipsI [OF refl])
  have l: "uint (ucast (of_nat (length xs) :: u32) :: u16) = int (length xs)"
    using assms by (simp add: unsigned_ucast_eq unsigned_of_nat take_bit_nat_eq_self flip: of_nat_take_bit)
  fix fuel b i m
  assume "sees b i (ERL_STRING_EXT # be16 (of_nat (length xs) :: u32) @ xs)"
    and t: "ei_get_type b i = Some (norm_type ERL_STRING_EXT, m)"
  then have "ei_decode_string False b i = Some (Done [0], i + int (length (ERL_STRING_EXT # be16 (of_nat (length xs) :: u32) @ xs)))"
    using l by (auto simp: ei_decode_string_def sees_simps dest!: sees_getters)
  from skipped_Done [OF this] t
  show "ei_skip_term lf (Suc fuel) b i =
      Some (Some (Done (), i + int (length (ERL_STRING_EXT # be16 (of_nat (length xs) :: u32) @ xs))))"
    by (simp add: norm_type_def ei_skip_term_leaf)
qed (simp add: tag_room_def)

lemma skips_double:
  assumes "ext_double d = Some xs"
  shows "skips lf 1 xs"
proof -
  from assms have xs: "xs = NEW_FLOAT_EXT # be64 d" by (auto simp: ext_double_def split: if_splits)
  then show ?thesis
    using codec_double.decodes_ext [OF assms, of _ _ lf]
    by (intro skipsI [OF xs]) (auto simp: tag_room_def norm_type_def skipped_Done ei_skip_term_leaf)
qed

lemma ucast_u64_u32_of_nat: "n < 2 ^ 31 \<Longrightarrow> ucast (of_nat n :: u64) = (of_nat n :: u32)"
  by (simp add: unsigned_of_nat take_bit_nat_eq_self)

lemma skips_binary:
  assumes "length xs < 2 ^ 31"
  shows "skips lf 1 (ext_binary xs)"
proof -
  have l: "sint (ucast (of_nat (length xs) :: u64) :: u32) = int (length xs)"
    using sint_u32_of_nat [OF assms] ucast_u64_u32_of_nat [OF assms] by simp
  have "ei_decode_binary False b i = Some (Done ([], int (length xs)), i + int (length (ext_binary xs)))"
    if "sees b i (ext_binary xs)" for b i
    using that l by (auto simp: ei_decode_binary_def ext_binary_def sees_simps Let_def dest!: sees_getters)
  then show ?thesis
    by (intro skipsI [of _ ERL_BINARY_EXT "tl (ext_binary xs)"])
      (simp_all add: ext_binary_def tag_room_def norm_type_def ei_skip_term_leaf(7) skipped_Done)
qed

lemma skips_bits:
  assumes "bits mod 8 \<noteq> 0" and "length out = (bits + 7) div 8" and "length out < 2 ^ 31"
  shows "skips lf 1 (ext_bitstring bits out)"
proof -
  define n where "n = length out"
  have n: "n < 2 ^ 31" "0 < n" using assms by (auto simp: n_def) 
  have x: "ext_bitstring bits out = ERL_BIT_BINARY_EXT # be32 (of_nat n :: u64) @ of_nat (bits mod 8) # out"
    using assms(1,2) by (simp add: ext_bitstring_def n_def)
  have w: "scast (ucast (of_nat n :: u64) :: u32) = (of_nat n :: u64)"
    using sint_u32_of_nat [OF n(1)] ucast_u64_u32_of_nat [OF n(1)] by (simp add: scast_eq)
  have "uint (of_nat n :: u64) = int n" using n by (simp add: unsigned_of_nat take_bit_nat_eq_self)
  then have nz: "(of_nat n :: u64) \<noteq> 0" using n by (metis of_nat_0_eq_iff neq0_conv uint_0_eq)
  have sn: "sint (of_nat n :: u64) = int n" using n by (simp add: signed_of_nat signed_take_bit_int_eq_self)
  have "unat (of_nat (bits mod 8) :: u8) = bits mod 8" by (simp add: unsigned_of_nat take_bit_nat_eq_self)
  then have lb: "(of_nat (bits mod 8) :: u8) \<noteq> 0" "\<not> (of_nat (bits mod 8) :: u8) > 8"
    using assms(1) by (auto simp: word_less_nat_alt)
  have "\<exists>r. ei_decode_bitstring b i = Some (Done r, i + int (length (ext_bitstring bits out)))"
    if "sees b i (ext_bitstring bits out)" for b i
  proof -
    have "get8 b i = Some (ERL_BIT_BINARY_EXT, i + 1)" "get32be b (i + 1) = Some (ucast (of_nat n :: u64), i + 1 + 4)"
      "get8 b (i + 1 + 4) = Some (of_nat (bits mod 8), i + 1 + 4 + 1)"
      using that unfolding x by (auto simp: sees_simps dest!: sees_getters)
    moreover have "length (ext_bitstring bits out) = 6 + n" by (simp add: x n_def)
    ultimately show ?thesis using w nz sn lb by (simp add: ei_decode_bitstring_def)
  qed
  note d = this
  show ?thesis
  proof (rule skipsI [OF x])
    fix fuel b i m
    assume "sees b i (ext_bitstring bits out)" and t: "ei_get_type b i = Some (norm_type ERL_BIT_BINARY_EXT, m)"
    from d [OF this(1)] obtain r where "ei_decode_bitstring b i = Some (Done r, i + int (length (ext_bitstring bits out)))" ..
    with t show "ei_skip_term lf (Suc fuel) b i = Some (Some (Done (), i + int (length (ext_bitstring bits out))))"
      by (simp add: norm_type_def ei_skip_term_leaf(8) skipped_Done)
  qed (simp add: tag_room_def)
qed

lemma skips_big_struct:
  assumes "big_ok x" and "arity x \<noteq> - 1"
  shows "skips lf 1 (ext_big_struct x)"
proof -
  define ds where "ds = take (unat (arity x)) (digit_bytes_of (digits x))"
  have "unat (arity x) \<le> 2 * length (digits x)"
    using assms(1) digit_count_bounds(1) [OF assms(2)] by (simp add: big_ok_def)
  then have n: "length ds = unat (arity x)" by (simp add: ds_def)
  then have l: "int (length ds) = uint (arity x)" by simp
  show ?thesis
  proof (cases "uint (arity x) < 256")
    case True
    then have u: "unat (arity x) < 256" using l n by linarith
    then have "ucast (arity x) = (of_nat (unat (arity x)) :: u8)" by simp
    then show ?thesis
      using skips_big [OF u n, of lf "word_of_int (is_neg x)"] True by (simp add: ext_big_struct_def ds_def)
  next
    case False
    then have x: "ext_big_struct x = ERL_LARGE_BIG_EXT # be32 (arity x) @ word_of_int (is_neg x) # ds"
      by (simp add: ext_big_struct_def ds_def)
    have d: "ei_decode_big b i None = Some (Done None, i + int (length (ext_big_struct x)))"
      if "sees b i (ext_big_struct x)" for b i
      using that l by (auto simp: ei_decode_big_def x sees_simps dest!: sees_getters)
    show ?thesis
      by (rule skipsI [OF x]) (simp_all add: tag_room_def norm_type_def ei_skip_term_leaf(10) d skipped_Done)
  qed
qed

lemma skips_pid:
  assumes "0 \<in> set (pid_node p)" and "ext_pid p = Some xs"
  shows "skips lf 1 xs"
proof (rule skipsI)
  show "xs = ERL_NEW_PID_EXT # tl xs" using assms(2) by (auto simp: ext_pid_def)
qed (simp_all add: tag_room_def norm_type_def ei_skip_term_leaf(2) dec_pid [OF assms] skipped_Done)

lemma skips_port:
  assumes "0 \<in> set (port_node p)" and "ext_port p = Some xs"
  shows "skips lf 1 xs"
proof (rule skipsI)
  let ?tag = "if port_id p > 0x0fffffff then ERL_V4_PORT_EXT else ERL_NEW_PORT_EXT"
  show "xs = ?tag # tl xs" using assms(2) by (auto simp: ext_port_def)
  fix fuel b i n
  assume "sees b i xs" and "ei_get_type b i = Some (norm_type ?tag, n)"
  with ei_partial_codec.decodes_ext [OF codec_port [OF assms(1)] assms(2), of b i False]
  show "ei_skip_term lf (Suc fuel) b i = Some (Some (Done (), i + int (length xs)))"
    by (simp add: norm_type_def ei_skip_term_leaf(3) skipped_Done split: if_splits)
qed (simp add: tag_room_def)

lemma skips_ref:
  assumes "0 \<in> set (ref_node p)" and "0 \<le> ref_len p" and "ref_len p \<le> 5" and "length (ref_n p) = 5"
    and "ext_ref p = Some xs"
  shows "skips lf 1 xs"
proof (rule skipsI)
  show "xs = ERL_NEWER_REFERENCE_EXT # tl xs" using assms(5) by (auto simp: ext_ref_def)
  fix fuel b i n
  assume "sees b i xs" and "ei_get_type b i = Some (norm_type ERL_NEWER_REFERENCE_EXT, n)"
  with ei_partial_codec.decodes_ext [OF codec_ref [OF assms(1-4)] assms(5), of b i False "[]"]
  show "ei_skip_term lf (Suc fuel) b i = Some (Some (Done (), i + int (length xs)))"
    by (simp add: norm_type_def ei_skip_term_leaf(4) skipped_Done)
qed (simp add: tag_room_def)

lemma skips_fun:
  assumes "fun_ok p" and "fun_arity p \<noteq> - 1" and "ext_fun p = Some xs" and "int (length xs) < 2 ^ 31"
  shows "skips lf 1 xs"
proof (cases "fun_u p")
  case (EI_FUN_CLOSURE c)
  with assms have x: "ext_fun_new p c = Some xs" by (simp add: ext_fun_def)
  show ?thesis
  proof (rule skipsI)
    show xs: "xs = ERL_NEW_FUN_EXT # tl xs" using x by (auto simp: ext_fun_new_def)
    fix fuel b i n
    assume s: "sees b i xs" and "ei_get_type b i = Some (norm_type ERL_NEW_FUN_EXT, n)"
    moreover have "get8 b i = Some (ERL_NEW_FUN_EXT, i + 1)" using s xs get8_sees by metis
    ultimately show "ei_skip_term lf (Suc fuel) b i = Some (Some (Done (), i + int (length xs)))"
      using dec_fun_new(1) [OF assms(1) EI_FUN_CLOSURE x s assms(4)]
      by (simp add: norm_type_def ei_skip_term_leaf(12) ei_decode_fun_def skipped_Done)
  qed (simp add: tag_room_def)
next
  case (EI_FUN_EXPORT func al)
  with assms(1) obtain f where f: "func = Some f" by (cases func) simp_all
  with assms(3) EI_FUN_EXPORT have x: "ext_export p f = Some xs" by (simp add: ext_fun_def)
  show ?thesis
  proof (rule skipsI)
    show xs: "xs = ERL_EXPORT_EXT # tl xs" using x by (auto simp: ext_export_def split: Option.bind_splits)
    fix fuel b i n
    assume s: "sees b i xs" and "ei_get_type b i = Some (norm_type ERL_EXPORT_EXT, n)"
    moreover have "get8 b i = Some (ERL_EXPORT_EXT, i + 1)" using s xs get8_sees by metis
    ultimately show "ei_skip_term lf (Suc fuel) b i = Some (Some (Done (), i + int (length xs)))"
      using dec_export [OF assms(1) EI_FUN_EXPORT [unfolded f] x s refl, of False]
      by (simp add: norm_type_def ei_skip_term_leaf(12) ei_decode_fun_def skipped_Done)
  qed (simp add: tag_room_def)
qed

section \<open>Skipping compound terms\<close>

lemma skip_terms_sees:
  assumes "\<forall>xs \<in> set xss. skips lf d xs" and "d \<le> fuel" and "sees b i (concat xss)"
  shows "skip_terms (ei_skip_term lf fuel b) (length xss) i = Some (Some (i + int (length (concat xss))))"
    and "skip_free_vars (ei_skip_term lf fuel b) (length xss) i = Some (Some (Done (), i + int (length (concat xss))))"
  using assms(1,3)
  by (induction xss arbitrary: i) (simp_all add: sees_append skips_def assms(2))

text \<open>
  The terms a program builds with the encoders.  Strings of characters have their own
  representation, and a list may end in a term that is not a list.  The elements of a map are keys
  and values in turn.  An old closure carries the terms of its free variables.
\<close>

datatype eterm =
    EInt u64
  | EAtom bytes
  | EFloat u64
  | EString bytes
  | EBinary bytes
  | EBits nat bytes
  | EBig erlang_big
  | EPid erlang_pid
  | EPort erlang_port
  | ERef erlang_ref
  | EFun erlang_fun
  | EOldFun erlang_fun fun_closure "eterm list"
  | ENil
  | EList "eterm list" eterm
  | ETuple "eterm list"
  | EMap "eterm list"

text \<open>The representation of a term, from those of the encoders, where there is one.\<close>

fun ext_term :: "eterm \<Rightarrow> bytes option" where
  "ext_term (EInt n) = Some (ext_longlong n)"
| "ext_term (EAtom name) = ext_atom name ERLANG_UTF8"
| "ext_term (EFloat d) = ext_double d"
| "ext_term (EString xs) =
     (if 0 < length xs \<and> length xs \<le> 0xffff then Some (ext_string xs) else None)"
| "ext_term (EBinary xs) = (if length xs < 2 ^ 31 then Some (ext_binary xs) else None)"
| "ext_term (EBits bits out) =
     (if bits mod 8 \<noteq> 0 \<and> length out = (bits + 7) div 8 \<and> length out < 2 ^ 31
      then Some (ext_bitstring bits out) else None)"
| "ext_term (EBig x) = (if big_ok x \<and> arity x \<noteq> - 1 then Some (ext_big_struct x) else None)"
| "ext_term (EPid p) = (if 0 \<in> set (pid_node p) then ext_pid p else None)"
| "ext_term (EPort p) = (if 0 \<in> set (port_node p) then ext_port p else None)"
| "ext_term (ERef p) =
     (if 0 \<in> set (ref_node p) \<and> 0 \<le> ref_len p \<and> ref_len p \<le> 5 \<and> length (ref_n p) = 5
      then ext_ref p else None)"
| "ext_term (EFun p) =
     (if fun_ok p \<and> fun_arity p \<noteq> - 1 then do {
        xs \<leftarrow> ext_fun p;
        (if int (length xs) < 2 ^ 31 then Some xs else None) }
      else None)"
| "ext_term (EOldFun p c ts) = do {
     fv \<leftarrow> those (map ext_term ts);
     (if fun_ok p \<and> fun_u p = EI_FUN_CLOSURE c \<and> n_free_vars c = of_nat (length ts)
        \<and> length ts < 2 ^ 31 \<and> free_vars c = concat fv
      then ext_fun_old p c else None) }"
| "ext_term ENil = Some [ERL_NIL_EXT]"
| "ext_term (EList ts t) = do {
     xss \<leftarrow> those (map ext_term ts);
     xs \<leftarrow> ext_term t;
     (if 0 < length ts \<and> length ts < 2 ^ 31 then do {
        h \<leftarrow> ext_list_header (of_nat (length ts));
        Some (h @ concat xss @ xs) }
      else None) }"
| "ext_term (ETuple ts) = do {
     xss \<leftarrow> those (map ext_term ts);
     (if length ts < 2 ^ 31 then do {
        h \<leftarrow> ext_tuple_header (of_nat (length ts));
        Some (h @ concat xss) }
      else None) }"
| "ext_term (EMap ts) = do {
     xss \<leftarrow> those (map ext_term ts);
     (if even (length ts) \<and> length ts < 2 ^ 31 then do {
        h \<leftarrow> ext_map_header (of_nat (length ts div 2));
        Some (h @ concat xss) }
      else None) }"

fun term_depth :: "eterm \<Rightarrow> nat" where
  "term_depth (EOldFun p c ts) = Suc (foldr max (map term_depth ts) 0)"
| "term_depth (EList ts t) = Suc (max (term_depth t) (foldr max (map term_depth ts) 0))"
| "term_depth (ETuple ts) = Suc (foldr max (map term_depth ts) 0)"
| "term_depth (EMap ts) = Suc (foldr max (map term_depth ts) 0)"
| "term_depth _ = 1"

lemma skips_mono: "skips lf d xs \<Longrightarrow> d \<le> d' \<Longrightarrow> skips lf d' xs"
  by (auto simp: skips_def)

lemma le_foldr_max: "x \<in> set xs \<Longrightarrow> (x :: nat) \<le> foldr max xs 0"
  by (induction xs) auto

lemma those_eq_Some: "those xs = Some ys \<longleftrightarrow> xs = map Some ys"
  by (induction xs arbitrary: ys) (auto split: option.splits)

lemma those_map_Some:
  "those (map f ts) = Some xss \<Longrightarrow> length xss = length ts \<and> (\<forall>xs \<in> set xss. \<exists>t \<in> set ts. f t = Some xs)"
proof -
  assume "those (map f ts) = Some xss"
  then have m: "map f ts = map Some xss" by (simp add: those_eq_Some)
  from arg_cong [OF m, of set] have "Some ` set xss \<subseteq> f ` set ts" by simp
  then have "\<exists>t \<in> set ts. f t = Some xs" if "xs \<in> set xss" for xs
    using that by (metis imageE image_eqI subsetD)
  with arg_cong [OF m, of length] show ?thesis by simp
qed

text \<open>The common form of the compound cases: the fuel goes down by one.\<close>

lemma skips_SucI:
  assumes "xs = tag # ys" and "tag_room tag \<le> length ys"
    and "\<And>fuel b i n. d \<le> fuel \<Longrightarrow> sees b i xs \<Longrightarrow> ei_get_type b i = Some (norm_type tag, n) \<Longrightarrow>
      ei_skip_term lf (Suc fuel) b i = Some (Some (Done (), i + int (length xs)))"
  shows "skips lf (Suc d) xs"
  unfolding skips_def
proof (intro allI impI)
  fix fuel :: nat and b i
  assume "Suc d \<le> fuel" and s: "sees b i xs"
  then obtain f where f: "fuel = Suc f" "d \<le> f" by (cases fuel) auto
  from get_type_sees [OF s [unfolded assms(1)] assms(2)] assms(3) [OF f(2) s]
  show "ei_skip_term lf fuel b i = Some (Some (Done (), i + int (length xs)))" unfolding f by blast
qed

lemma skips_tuple:
  assumes "\<forall>xs \<in> set xss. skips lf d xs" and "length xss < 2 ^ 31"
    and "ext_tuple_header (of_nat (length xss)) = Some h"
  shows "skips lf (Suc d) (h @ concat xss)"
proof -
  let ?tag = "if length xss \<le> 0xff then ERL_SMALL_TUPLE_EXT else ERL_LARGE_TUPLE_EXT"
  have n: "sint (of_nat (length xss) :: u32) = int (length xss)" using assms(2) by (rule sint_u32_of_nat)
  obtain hs where h: "h = ?tag # hs" "tag_room ?tag \<le> length hs"
    using assms(3) n by (auto simp: ext_tuple_header_def tag_room_def split: if_splits)
  show ?thesis
  proof (rule skips_SucI)
    show "h @ concat xss = ?tag # (hs @ concat xss)" by (simp add: h(1))
    show "tag_room ?tag \<le> length (hs @ concat xss)" using h(2) by simp
    fix fuel b i m
    assume d: "d \<le> fuel" and s: "sees b i (h @ concat xss)" and t: "ei_get_type b i = Some (norm_type ?tag, m)"
    from s have s1: "sees b i h" and s2: "sees b (i + int (length h)) (concat xss)" by (simp_all add: sees_append)
    show "ei_skip_term lf (Suc fuel) b i = Some (Some (Done (), i + int (length (h @ concat xss))))"
      using t codec_tuple_header.decodes_ext [OF assms(3) s1] skip_terms_sees(1) [OF assms(1) d s2] n
      by (simp add: ei_skip_term.simps(2) norm_type_def)
  qed
qed

lemma skips_map:
  assumes "\<forall>xs \<in> set xss. skips lf d xs" and "even (length xss)" and "length xss < 2 ^ 31"
    and "ext_map_header (of_nat (length xss div 2)) = Some h"
  shows "skips lf (Suc d) (h @ concat xss)"
proof -
  have "sint (of_nat (length xss div 2) :: u32) = int (length xss div 2)"
    using assms(3) by (intro sint_u32_of_nat) linarith
  then have n: "sint (of_nat (length xss div 2) :: u32) * 2 = int (length xss)"
    using assms(2) by (metis dvd_div_mult_self of_nat_mult of_nat_numeral)
  have c: "c_int (int (length xss)) = Some (int (length xss))"
    using assms(3) by (simp add: c_int_def INT_MAX_def)
  have h: "h = ERL_MAP_EXT # be32 (of_nat (length xss div 2) :: u32)"
    using assms(4) by (auto simp: ext_map_header_def split: if_splits)
  show ?thesis
  proof (rule skips_SucI)
    show "h @ concat xss = ERL_MAP_EXT # (be32 (of_nat (length xss div 2) :: u32) @ concat xss)" by (simp add: h)
    fix fuel b i m
    assume d: "d \<le> fuel" and s: "sees b i (h @ concat xss)" and t: "ei_get_type b i = Some (norm_type ERL_MAP_EXT, m)"
    from s have s1: "sees b i h" and s2: "sees b (i + int (length h)) (concat xss)" by (simp_all add: sees_append)
    show "ei_skip_term lf (Suc fuel) b i = Some (Some (Done (), i + int (length (h @ concat xss))))"
      using t codec_map_header.decodes_ext [OF assms(4) s1] skip_terms_sees(1) [OF assms(1) d s2]
      by (simp add: ei_skip_term.simps(2) norm_type_def n c)
  qed (simp add: tag_room_def)
qed

text \<open>Whether the end of a list is the empty list or not, what follows the elements is skipped as a term.\<close>

lemma skip_tail:
  assumes "ei_skip_term lf fuel b i = Some (Some (Done (), j))"
  obtains ty n where "ei_get_type b i = Some (ty, n)"
    and "ty = ERL_NIL_EXT \<Longrightarrow> skipped (ei_decode_list_header b i) = Some (Done (), j)"
proof -
  from assms obtain f where f: "fuel = Suc f" by (cases fuel) auto
  with assms obtain ty n where t: "ei_get_type b i = Some (ty, n)"
    by (cases "ei_get_type b i") (auto simp: ei_skip_term.simps(2) reading_def)
  with ei_skip_term_leaf(5) [OF t, of lf f] assms f that show ?thesis by auto
qed

lemma skips_list:
  assumes "\<forall>xs \<in> set xss. skips lf d xs" and "skips lf d xs"
    and "0 < length xss" and "length xss < 2 ^ 31" and "ext_list_header (of_nat (length xss)) = Some h"
  shows "skips lf (Suc d) (h @ concat xss @ xs)"
proof -
  have n: "sint (of_nat (length xss) :: u32) = int (length xss)" using assms(4) by (rule sint_u32_of_nat)
  then have "(of_nat (length xss) :: u32) \<noteq> 0" using assms(3) by (metis of_nat_0_eq_iff neq0_conv sint_eq_0)
  with n have h: "h = ERL_LIST_EXT # be32 (of_nat (length xss) :: u32)"
    using assms(5) by (auto simp: ext_list_header_def split: if_splits)
  show ?thesis
  proof (rule skips_SucI)
    show "h @ concat xss @ xs = ERL_LIST_EXT # (be32 (of_nat (length xss) :: u32) @ concat xss @ xs)" by (simp add: h)
    fix fuel b i m
    assume d: "d \<le> fuel" and s: "sees b i (h @ concat xss @ xs)" and t: "ei_get_type b i = Some (norm_type ERL_LIST_EXT, m)"
    define i1 i2 where "i1 = i + int (length h)" and "i2 = i1 + int (length (concat xss))"
    from s have s1: "sees b i h" and s2: "sees b i1 (concat xss)" and s3: "sees b i2 xs"
      by (simp_all add: sees_append i1_def i2_def)
    have e: "ei_skip_term lf fuel b i2 = Some (Some (Done (), i2 + int (length xs)))"
      using assms(2) d s3 by (simp add: skips_def)
    then obtain ty k where ty: "ei_get_type b i2 = Some (ty, k)"
      and nil: "ty = ERL_NIL_EXT \<Longrightarrow> skipped (ei_decode_list_header b i2) = Some (Done (), i2 + int (length xs))"
      by (rule skip_tail) blast
    have "ei_skip_term lf (Suc fuel) b i = Some (Some (Done (), i2 + int (length xs)))"
      using t codec_list_header.decodes_ext [OF assms(5) s1] skip_terms_sees(1) [OF assms(1) d s2] n e ty nil
      by (simp add: ei_skip_term.simps(2) norm_type_def i1_def [symmetric] i2_def [symmetric])
    then show "ei_skip_term lf (Suc fuel) b i = Some (Some (Done (), i + int (length (h @ concat xss @ xs))))"
      by (simp add: i1_def i2_def)
  qed (simp add: tag_room_def)
qed

lemma skips_fun_old:
  assumes "fun_ok p" and "fun_u p = EI_FUN_CLOSURE c" and "n_free_vars c = of_nat (length xss)"
    and "length xss < 2 ^ 31" and "free_vars c = concat xss" and "\<forall>xs \<in> set xss. skips lf d xs"
    and "ext_fun_old p c = Some xs"
  shows "skips lf (Suc d) xs"
proof -
  from assms(1,2) have ok: "0 \<in> set (pid_node (fun_pid c))" by simp
  from assms(7) obtain f m where f: "ext_pid (fun_pid c) = Some f"
    and m: "ext_atom (c_string (fun_module p)) ERLANG_UTF8 = Some m"
    and xs: "xs = ERL_FUN_EXT # be32 (of_nat (length xss) :: u64) @ f @ m @ ext_longlong (fun_index c)
       @ ext_longlong (uniq c) @ concat xss"
    by (auto simp: ext_fun_old_def assms(3,5) split: Option.bind_splits)
  have n: "sint (ucast (of_nat (length xss) :: u64) :: u32) = int (length xss)"
    using sint_u32_of_nat [OF assms(4)] ucast_u64_u32_of_nat [OF assms(4)] by simp
  show ?thesis
  proof (rule skips_SucI [OF xs])
    fix fuel b i k
    assume d: "d \<le> fuel" and s: "sees b i xs" and t: "ei_get_type b i = Some (norm_type ERL_FUN_EXT, k)"
    define i1 i2 i3 i4 where "i1 = i + 5 + int (length f)" and "i2 = i1 + int (length m)"
      and "i3 = i2 + int (length (ext_longlong (fun_index c)))" and "i4 = i3 + int (length (ext_longlong (uniq c)))"
    note pos = i1_def i2_def i3_def i4_def
    have parts: "get8 b i = Some (ERL_FUN_EXT, i + 1)" "sees b (i + 1) (be32 (of_nat (length xss) :: u64))" "sees b (i + 5) f"
      "sees b i1 m" "sees b i2 (ext_longlong (fun_index c))" "sees b i3 (ext_longlong (uniq c))" "sees b i4 (concat xss)"
      using s by (simp_all add: xs sees_append sees_Cons get8_def pos add.assoc add.left_commute)
    have g: "get32be b (i + 1) = Some (ucast (of_nat (length xss) :: u64), i + 5)"
      using parts(2) by (auto dest!: sees_getters)
    obtain res where a: "ei_decode_atom_as b i1 MAXATOMLEN_UTF8 ERLANG_UTF8 =
        Some (Done (c_string (fun_module p) @ [0], ERLANG_UTF8, res), i2)"
      using dec_utf8_atom [OF m parts(4)] by (auto simp: i2_def)
    have fin: "i4 + int (length (concat xss)) = i + int (length xs)" by (simp add: xs pos)
    have "decode_fun_old (ei_skip_term lf fuel b) True None b i (i + 1) = Some (Some (Done None, i + int (length xs)))"
      using dec_pid [OF ok f parts(3), of False] g a n dec_long [OF parts(5)] dec_long [OF parts(6)]
        skip_terms_sees(2) [OF assms(6) d parts(7)] fin
      by (simp add: decode_fun_old_def i1_def [symmetric] i2_def [symmetric] i3_def [symmetric] i4_def [symmetric])
    with t parts(1) show "ei_skip_term lf (Suc fuel) b i = Some (Some (Done (), i + int (length xs)))"
      by (simp add: norm_type_def ei_skip_term_leaf(12) ei_decode_fun_def skipped_Done)
  qed (simp add: tag_room_def)
qed

lemma skips_elements:
  assumes "those (map ext_term ts) = Some xss" and "foldr max (map term_depth ts) 0 \<le> d"
    and "\<And>t xs. t \<in> set ts \<Longrightarrow> ext_term t = Some xs \<Longrightarrow> skips lf (term_depth t) xs"
  shows "\<forall>xs \<in> set xss. skips lf d xs"
proof
  fix xs assume "xs \<in> set xss"
  with those_map_Some [OF assms(1)] obtain t where t: "t \<in> set ts" "ext_term t = Some xs" by blast
  then have "term_depth t \<le> d" using le_foldr_max [of "term_depth t" "map term_depth ts"] assms(2) by simp
  with assms(3) [OF t] show "skips lf d xs" by (rule skips_mono)
qed

lemma skips_term: "ext_term t = Some xs \<Longrightarrow> skips lf (term_depth t) xs"
proof (induction t arbitrary: xs)
  case (EString s)
  then have x: "0 < length s" "length s \<le> 0xffff" and "xs = ext_string s" by (auto split: if_splits)
  with skips_string [OF x, of lf] show ?case by (auto simp: ext_string_def)
next
  case (EFun p)
  then have "fun_ok p" "fun_arity p \<noteq> - 1" "ext_fun p = Some xs" "int (length xs) < 2 ^ 31"
    by (auto split: if_splits Option.bind_splits)
  from skips_fun [OF this] show ?case by simp
next
  case (EOldFun p c ts)
  then obtain xss where x: "those (map ext_term ts) = Some xss" by (auto split: Option.bind_splits)
  with EOldFun.prems have f: "fun_ok p" "fun_u p = EI_FUN_CLOSURE c" "n_free_vars c = of_nat (length xss)"
    "length xss < 2 ^ 31" "free_vars c = concat xss" and e: "ext_fun_old p c = Some xs"
    using those_map_Some [OF x] by (auto split: if_splits)
  have "\<forall>xs \<in> set xss. skips lf (foldr max (map term_depth ts) 0) xs"
    by (rule skips_elements [OF x]) (auto intro: EOldFun.IH)
  from skips_fun_old [OF f this e] show ?case by simp
next
  case (EList ts t)
  then obtain xss ys where x: "those (map ext_term ts) = Some xss" and y: "ext_term t = Some ys"
    by (auto split: Option.bind_splits)
  with EList.prems obtain h where h: "0 < length xss" "length xss < 2 ^ 31" "ext_list_header (of_nat (length xss)) = Some h"
    and xs: "xs = h @ concat xss @ ys"
    using those_map_Some [OF x] by (auto split: if_splits Option.bind_splits)
  let ?d = "max (term_depth t) (foldr max (map term_depth ts) 0)"
  have "\<forall>xs \<in> set xss. skips lf ?d xs" by (rule skips_elements [OF x]) (auto intro: EList.IH)
  moreover have "skips lf ?d ys" by (rule skips_mono [OF EList.IH(2) [OF y]]) simp
  ultimately show ?case using skips_list [OF _ _ h] by (simp add: xs)
next
  case (ETuple ts)
  then obtain xss where x: "those (map ext_term ts) = Some xss" by (auto split: Option.bind_splits)
  with ETuple.prems obtain h where h: "length xss < 2 ^ 31" "ext_tuple_header (of_nat (length xss)) = Some h"
    and xs: "xs = h @ concat xss"
    using those_map_Some [OF x] by (auto split: if_splits Option.bind_splits)
  have "\<forall>xs \<in> set xss. skips lf (foldr max (map term_depth ts) 0) xs"
    by (rule skips_elements [OF x]) (auto intro: ETuple.IH)
  from skips_tuple [OF this h] show ?case by (simp add: xs)
next
  case (EMap ts)
  then obtain xss where x: "those (map ext_term ts) = Some xss" by (auto split: Option.bind_splits)
  with EMap.prems obtain h where h: "even (length xss)" "length xss < 2 ^ 31"
    "ext_map_header (of_nat (length xss div 2)) = Some h" and xs: "xs = h @ concat xss"
    using those_map_Some [OF x] by (auto split: if_splits Option.bind_splits)
  have "\<forall>xs \<in> set xss. skips lf (foldr max (map term_depth ts) 0) xs"
    by (rule skips_elements [OF x]) (auto intro: EMap.IH)
  from skips_map [OF this h] show ?case by (simp add: xs)
next
  case ENil
  have "skips lf 1 [ERL_NIL_EXT]"
    by (rule skipsI) (auto simp: tag_room_def norm_type_def ei_skip_term_leaf(5) ei_decode_list_header_def sees_simps
        intro!: skipped_Done)
  with ENil show ?case by simp
next
  case (EBits bits out)
  then have x: "bits mod 8 \<noteq> 0" "length out = (bits + 7) div 8" "length out < 2 ^ 31"
    and xs: "xs = ext_bitstring bits out"
    by (simp_all only: ext_term.simps option.inject split: if_splits) auto
  from skips_bits [OF x] show ?case by (simp add: xs)
next
  case (ERef p)
  then have "0 \<in> set (ref_node p)" "0 \<le> ref_len p" "ref_len p \<le> 5" "length (ref_n p) = 5" "ext_ref p = Some xs"
    by (simp_all split: if_splits)
  from skips_ref [OF this] show ?case by simp
next
  case (EBinary ys)
  then have x: "length ys < 2 ^ 31" and xs: "xs = ext_binary ys" by (simp_all split: if_splits)
  from skips_binary [OF x] show ?case by (simp add: xs)
next
  case (EBig y)
  then have x: "big_ok y" "arity y \<noteq> - 1" and xs: "xs = ext_big_struct y" by (simp_all split: if_splits)
  from skips_big_struct [OF x] show ?case by (simp add: xs)
qed (simp_all add: skips_longlong skips_atom skips_double skips_pid skips_port del: One_nat_def split: if_splits)

lemma sint_u32: "sint (w :: u32) = (if uint w < 2 ^ 31 then uint w else uint w - 2 ^ 32)"
proof -
  have b: "0 \<le> uint w" "uint w < 4294967296" using uint_lt2p [of w] by simp_all
  have "sint w = take_bit 32 (uint w) - 4294967296 * of_bool (bit (uint w) 31)"
    by (simp add: sint_uint signed_take_bit_eq_take_bit_minus)
  moreover have "take_bit 32 (uint w) = uint w" using b by (simp add: take_bit_eq_mod mod_pos_pos_trivial)
  moreover have "bit (uint w) 31 \<longleftrightarrow> \<not> uint w < 2147483648"
  proof (cases "uint w < 2147483648")
    case True
    then have "uint w div 2147483648 = 0" using b by (simp add: div_pos_pos_trivial)
    with True show ?thesis by (simp add: bit_iff_odd)
  next
    case False
    then have "uint w div 2147483648 = 1" using b by auto
    with False show ?thesis by (simp add: bit_iff_odd)
  qed
  ultimately show ?thesis by simp
qed

section \<open>Properties\<close>

text \<open>
  C25. \<open>ei_skip_term\<close> moves the index past exactly one term, whatever its type and nesting: with fuel
  for the depth of the term it returns \<open>0\<close>.  This covers every term that the encoders of the
  library can produce.
\<close>

theorem ei_skip_term_skips:
  assumes "ext_term t = Some xs" and "sees b i xs" and "term_depth t \<le> fuel"
  shows "ei_skip_term sscanf_lf fuel b i = Some (Some (Done (), i + int (length xs)))"
  using skips_term [OF assms(1)] assms(2,3) by (simp add: skips_def)

theorem ei_skip_term_skips_witness:
  "ei_skip_term (\<lambda>_. None) 2 [0, ERL_SMALL_TUPLE_EXT, 2, ERL_SMALL_INTEGER_EXT, 7, ERL_NIL_EXT, 9] 1 =
     Some (Some (Done (), 6))"
proof -
  have t: "ext_term (ETuple [EInt 7, ENil]) = Some [ERL_SMALL_TUPLE_EXT, 2, ERL_SMALL_INTEGER_EXT, 7, ERL_NIL_EXT]"
    by (simp add: ext_longlong_def ext_tuple_header_def)
  from ei_skip_term_skips [OF t, of "[0, ERL_SMALL_TUPLE_EXT, 2, ERL_SMALL_INTEGER_EXT, 7, ERL_NIL_EXT, 9]" 1 2 "\<lambda>_. None"]
  show ?thesis by (simp add: sees_def)
qed

text \<open>
  C26. On a list or a large tuple of two or more elements whose first element is a binary with the length
  \<open>-10\<close> as an \<open>int\<close>, anywhere in a buffer, \<open>ei_skip_term\<close> calls itself without end: the binary moves the index back
  to the beginning of the list or tuple.  No bound on the depth of calls is enough.
\<close>

theorem ei_skip_term_diverges:
  assumes "sees b i (tag # be32 (n :: u32) @ ERL_BINARY_EXT # be32 (- 10 :: u32))"
    and "tag = ERL_LIST_EXT \<or> tag = ERL_LARGE_TUPLE_EXT" and "2 \<le> sint n"
  shows "ei_skip_term sscanf_lf fuel b i = None"
proof -
  have g: "get8 b i = Some (tag, i + 1)" "get32be b (i + 1) = Some (n, i + 5)"
    "get8 b (i + 5) = Some (ERL_BINARY_EXT, i + 6)" "get32be b (i + 6) = Some (- 10 :: u32, i + 10)"
    using assms(1) by (auto simp: sees_simps add.commute dest!: sees_getters)
  have t: "ei_get_type b i = Some (tag, sint n)"
    "tag = ERL_LIST_EXT \<Longrightarrow> ei_decode_list_header b i = Some (Done n, i + 5)"
    "tag = ERL_LARGE_TUPLE_EXT \<Longrightarrow> ei_decode_tuple_header b i = Some (Done n, i + 5)"
    using assms(2) by (auto simp: ei_get_type_def ei_decode_list_header_def ei_decode_tuple_header_def g)
  have t5: "ei_get_type b (i + 5) = Some (ERL_BINARY_EXT, -10)" "ei_decode_binary False b (i + 5) = Some (Done ([], -10), i)"
    by (simp_all add: ei_get_type_def ei_decode_binary_def g)
  have bk: "ei_skip_term sscanf_lf (Suc f) b (i + 5) = Some (Some (Done (), i))" for f
    using ei_skip_term_leaf(7) [OF t5(1) refl] skipped_Done [OF t5(2)] by simp
  have "2 \<le> nat (sint n)" using assms(3) by linarith
  then obtain m where m: "nat (sint n) = Suc (Suc m)" by (metis add_2_eq_Suc le_Suc_ex)
  show ?thesis
  proof (induction fuel)
    case (Suc fuel)
    then have "skip_terms (ei_skip_term sscanf_lf fuel b) (nat (sint n)) (i + 5) = None"
      using bk by (cases fuel) (simp_all add: m)
    then show ?case using assms(2) t by (auto simp: ei_skip_term.simps(2))
  qed simp
qed

theorem ei_skip_term_diverges_witness:
  "\<forall>fuel. ei_skip_term (\<lambda>_. None) fuel [ERL_LIST_EXT, 0, 0, 0, 2, ERL_BINARY_EXT, 0xFF, 0xFF, 0xFF, 0xF6] 0 = None"
  using ei_skip_term_diverges [of "[ERL_LIST_EXT, 0, 0, 0, 2, ERL_BINARY_EXT, 0xFF, 0xFF, 0xFF, 0xF6]" 0 ERL_LIST_EXT 2]
  by (simp add: sees_def be32_def)

text \<open>
  A failure inside a compound term is not reported: for a tuple, a list or a map of any size whose first
  element cannot be skipped, because \<open>ei_skip_term\<close> fails on it without moving the index, \<open>ei_skip_term\<close> returns
  success and leaves the index on that element.
\<close>

theorem ei_skip_term_hides_failure:
  assumes "sees b i hdr" and "hdr = [ERL_SMALL_TUPLE_EXT, k] \<or> hdr = ERL_LARGE_TUPLE_EXT # be32 (n :: u32)
      \<or> hdr = ERL_LIST_EXT # be32 n \<or> hdr = ERL_MAP_EXT # be32 n \<and> c_int (sint n * 2) \<noteq> None"
    and "j = i + int (length hdr)" and "ei_skip_term sscanf_lf fuel b j = Some (Some (Fail, j))"
  shows "ei_skip_term sscanf_lf (Suc fuel) b i = Some (Some (Done (), j))"
proof -
  have loop: "skip_terms (ei_skip_term sscanf_lf fuel b) m j = Some (Some j)" for m
    by (induction m) (simp_all add: assms(4))
  obtain f where f: "fuel = Suc f" using assms(4) by (cases fuel) simp_all
  obtain ty len where ty: "ei_get_type b j = Some (ty, len)"
    using assms(4) f by (cases "ei_get_type b j") (auto simp: ei_skip_term.simps(2) reading_def)
  have nil: "ty \<noteq> ERL_NIL_EXT"
  proof
    assume "ty = ERL_NIL_EXT"
    with ty have "get8 b j = Some (ERL_NIL_EXT, j + 1)"
      by (auto simp: ei_get_type_def get8_def split: if_splits Option.bind_splits)
    then have "ei_decode_list_header b j = Some (Done 0, j + 1)" by (simp add: ei_decode_list_header_def)
    with ei_skip_term_leaf(5) [OF ty \<open>ty = ERL_NIL_EXT\<close>, of sscanf_lf f] assms(4) f show False by (simp add: skipped_def)
  qed
  from assms(2) show ?thesis
  proof (elim disjE)
    assume h: "hdr = [ERL_SMALL_TUPLE_EXT, k]"
    have "get8 b i = Some (ERL_SMALL_TUPLE_EXT, i + 1)" "get8 b (i + 1) = Some (k, j)"
      using assms(1,3) h by (auto simp: sees_simps add.commute dest!: sees_getters)
    then show ?thesis by (simp add: ei_skip_term.simps(2) ei_get_type_def ei_decode_tuple_header_def loop)
  next
    assume h: "hdr = ERL_LARGE_TUPLE_EXT # be32 n"
    have "get8 b i = Some (ERL_LARGE_TUPLE_EXT, i + 1)" "get32be b (i + 1) = Some (n, j)"
      using assms(1,3) h by (auto simp: sees_simps add.commute dest!: sees_getters)
    then show ?thesis by (simp add: ei_skip_term.simps(2) ei_get_type_def ei_decode_tuple_header_def loop)
  next
    assume h: "hdr = ERL_LIST_EXT # be32 n"
    have "get8 b i = Some (ERL_LIST_EXT, i + 1)" "get32be b (i + 1) = Some (n, j)"
      using assms(1,3) h by (auto simp: sees_simps add.commute dest!: sees_getters)
    then have "ei_get_type b i = Some (ERL_LIST_EXT, sint n)" "ei_decode_list_header b i = Some (Done n, j)"
      by (simp_all add: ei_get_type_def ei_decode_list_header_def)
    then show ?thesis using ty nil assms(4) by (simp add: ei_skip_term.simps(2) loop)
  next
    assume h: "hdr = ERL_MAP_EXT # be32 n \<and> c_int (sint n * 2) \<noteq> None"
    then have "get8 b i = Some (ERL_MAP_EXT, i + 1)" "get32be b (i + 1) = Some (n, j)"
      using assms(1,3) by (auto simp: sees_simps add.commute dest!: sees_getters)
    then show ?thesis using h by (auto simp: ei_skip_term.simps(2) ei_get_type_def ei_decode_map_header_def loop)
  qed
qed

theorem ei_skip_term_hides_failure_witness:
  "ei_skip_term (\<lambda>_. None) 2 [ERL_SMALL_TUPLE_EXT, 1, 0] 0 = Some (Some (Done (), 2))"
proof -
  have "ei_skip_term (\<lambda>_. None) (Suc 0) [ERL_SMALL_TUPLE_EXT, 1, 0] 2 = Some (Some (Fail, 2))"
    by (simp add: ei_skip_term.simps(2) ei_get_type_def get8_def)
  then have "ei_skip_term (\<lambda>_. None) (Suc (Suc 0)) [ERL_SMALL_TUPLE_EXT, 1, 0] 0 = Some (Some (Done (), 2))"
    by (rule ei_skip_term_hides_failure [of _ 0 "[ERL_SMALL_TUPLE_EXT, 1]" 1, rotated 3]) (simp_all add: sees_def)
  then show ?thesis by (simp only: numeral_2_eq_2)
qed

text \<open>
  C40. \<open>ei_decode_ei_term\<close> on a small big number of four bytes: it is accepted exactly when the magnitude is below
  \<open>2 ^ 31\<close> and, for a negative sign, is not zero.  Then the result is \<open>1\<close> and the index moves past the
  number, but no value is stored: the value in the structure is the one it had before.  Otherwise the result
  is \<open>-1\<close> with the index unchanged, except that for a negative number of magnitude \<open>2 ^ 31\<close> the check overflows.
\<close>

theorem ei_decode_ei_term_small_big:
  assumes "sees b i (ERL_SMALL_BIG_EXT # 4 # sign # le32 (w :: u32))"
  shows "if sign \<noteq> 0 \<and> uint w = 2 ^ 31 then ei_decode_ei_term sscanf_lf n b i (Some t) = None
    else \<exists>t'. ei_decode_ei_term sscanf_lf n b i (Some t) =
        Some (if uint w < 2 ^ 31 \<and> (sign = 0 \<or> w \<noteq> 0) then (1, Some t', i + 7) else (-1, Some t', i))
      \<and> term_value t' = term_value t"
proof -
  have g: "get8 b i = Some (ERL_SMALL_BIG_EXT, i + 1)" "get8 b (i + 1) = Some (4, i + 2)"
    "get8 b (i + 2) = Some (sign, i + 3)" "get32le b (i + 3) = Some (w, i + 7)"
    using assms(1) by (auto simp: sees_simps add.commute dest!: sees_getters)
  have w: "sint w = (if uint w < 2 ^ 31 then uint w else uint w - 2 ^ 32)"
    by (rule sint_u32)
  have lt: "uint w < 2 ^ 32" "0 \<le> uint w" using uint_lt2p [of w] by simp_all
  have z: "w \<noteq> 0 \<longleftrightarrow> uint w \<noteq> 0" by (simp add: word_uint_eq_iff)
  show ?thesis
  proof (cases "sign = 0")
    case True
    then show ?thesis using w lt by (auto simp: ei_decode_ei_term_def decode_ei_term_def g)
  next
    case False
    let ?t = "t\<lparr>ei_type := ERL_SMALL_BIG_EXT, term_arity := 4\<rparr>"
    have r: "ei_decode_ei_term sscanf_lf n b i (Some t) = do {
        m \<leftarrow> c_int (sint w - 1); if m < 0 then Some (-1, Some ?t, i) else Some (1, Some ?t, i + 7) }"
      using False by (cases "c_int (sint w - 1)") (simp_all add: ei_decode_ei_term_def decode_ei_term_def g Let_def)
    show ?thesis
    proof (cases "uint w = 2 ^ 31")
      case True
      then show ?thesis using False w r by (simp add: c_int_def INT_MAX_def)
    next
      case ne: False
      define u where "u = uint w"
      note u = w [folded u_def] lt [folded u_def] ne [folded u_def] z [folded u_def]
      have "c_int (sint w - 1) = Some (sint w - 1)" using u(1-4) unfolding c_int_def INT_MAX_def by (auto split: if_splits)
      then show ?thesis using False u r unfolding u_def [symmetric] by (auto split: if_splits)
    qed
  qed
qed

theorem ei_decode_ei_term_small_big_witness:
  "\<exists>t'. ei_decode_ei_term (\<lambda>_. None) [] [ERL_SMALL_BIG_EXT, 4, 0, 0, 0, 0, 9] 0 (Some \<lparr>ei_type = 0, term_arity = 0, term_size = 0,
     term_value = I_val 5\<rparr>) = Some (1, Some t', 7) \<and> term_value t' = I_val 5"
  using ei_decode_ei_term_small_big [of "[ERL_SMALL_BIG_EXT, 4, 0, 0, 0, 0, 9]" 0 0 "0x09000000" "\<lambda>_. None" "[]"
      "\<lparr>ei_type = 0, term_arity = 0, term_size = 0, term_value = I_val 5\<rparr>"]
  by (simp add: sees_def le32_def be32_def)

text \<open>
  \<open>ei_decode_intlist\<close> returns the numbers of a list of integers in order with their count, and
  leaves the index behind the last of them, on the tail of the list.
\<close>

theorem ei_decode_intlist_list:
  assumes "sees b i (ERL_LIST_EXT # be32 (of_nat (length ns) :: u32) @ concat (map ext_longlong ns))"
    and "length ns < 2 ^ 31"
  shows "ei_decode_intlist store b i = Some (0, ns, Some (int (length ns)),
    i + 5 + int (length (concat (map ext_longlong ns))))"
proof -
  have l: "sees b j (concat (map ext_longlong ns)) \<Longrightarrow> get_long_elems b (length ns) j a =
      Some (0, a @ ns, j + int (length (concat (map ext_longlong ns))))" for j a
    by (induction ns arbitrary: j a) (auto simp: sees_append dec_long)
  have g: "get8 b i = Some (ERL_LIST_EXT, i + 1)" "get32be b (i + 1) = Some (of_nat (length ns), i + 5)"
    "sees b (i + 5) (concat (map ext_longlong ns))"
    using assms(1) by (auto simp: sees_simps add.commute dest!: sees_getters)
  show ?thesis
    using l [OF g(3), of "[]"] g(1,2) sint_u32_of_nat [OF assms(2)] by (simp add: ei_decode_intlist_def)
qed

theorem ei_decode_intlist_list_witness:
  "ei_decode_intlist True [ERL_LIST_EXT, 0, 0, 0, 2, ERL_SMALL_INTEGER_EXT, 7, ERL_SMALL_INTEGER_EXT, 8, ERL_NIL_EXT] 0
    = Some (0, [7, 8], Some 2, 9)"
  using ei_decode_intlist_list [of "[ERL_LIST_EXT, 0, 0, 0, 2, ERL_SMALL_INTEGER_EXT, 7, ERL_SMALL_INTEGER_EXT, 8, ERL_NIL_EXT]"
      0 "[7, 8]" True]
  by (simp add: sees_def be32_def ext_longlong_def)

end
