(* ===== verification/Ei_Iodata.thy ===== *)
theory Ei_Iodata
  imports Ei_Term
begin

text \<open>
  The decoder of \<open>iodata()\<close>, \<open>decode_iodata.c\<close>: a binary, or a list of bytes, strings, binaries and
  such lists, is written to a flat buffer.  As for skipping, the depth of nested calls is bounded
  by \<open>fuel\<close> and a result is under two options.
\<close>

section \<open>Definitions\<close>

text \<open>
  The state is the index, the size so far and the bytes written so far.  A failing call returns
  with the state it had reached.  \<open>store\<close> is false when \<open>out_buf\<close> is \<open>NULL\<close>: then the bytes of
  binaries and strings are not read, and \<open>out\<close> has no meaning.
\<close>

type_synonym iostate = "int \<times> int \<times> bytes"

type_synonym iores = "(bool \<times> iostate) option option"

definition io_add :: "iostate \<Rightarrow> int \<Rightarrow> int \<Rightarrow> bytes \<Rightarrow> iores" where
  "io_add st index len xs = (case st of (_, sz, out) \<Rightarrow>
     reading (c_int (sz + len)) (\<lambda>sz. Some (Some (True, index, sz, out @ xs))))"

definition io_decode_string :: "bool \<Rightarrow> bytes \<Rightarrow> iostate \<Rightarrow> iores" where
  "io_decode_string store buf st = (case st of (index, sz, out) \<Rightarrow>
     reading (get16be buf (index + 1)) (\<lambda>(len, s).
     reading (if store then read_bytes buf s (uint len) else Some []) (\<lambda>xs.
       io_add st (s + uint len) (uint len) xs)))"

text \<open>One element of a list, or with \<open>at_end\<close> what ends the list; \<open>nested\<close> decodes an inner list.\<close>

definition io_element :: "(iostate \<Rightarrow> iores) \<Rightarrow> bool \<Rightarrow> bool \<Rightarrow> bytes \<Rightarrow> iostate \<Rightarrow> iores" where
  "io_element nested store at_end buf st = (case st of (index, sz, out) \<Rightarrow>
     reading (ei_get_type buf index) (\<lambda>(ty, len).
       if ty = ERL_SMALL_INTEGER_EXT \<or> ty = ERL_INTEGER_EXT then
         if at_end then Some (Some (False, st))
         else reading (ei_decode_long buf index) (\<lambda>(r, i).
           case r of
             Fail \<Rightarrow> Some (Some (False, i, sz, out))
           | Done val \<Rightarrow>
               if sint val < 0 \<or> 255 < sint val then Some (Some (False, i, sz, out))
               else io_add st i 1 [ucast val])
       else if ty = ERL_BINARY_EXT then
         reading (ei_decode_binary store buf index) (\<lambda>(r, i).
           case r of
             Fail \<Rightarrow> Some (Some (False, i, sz, out))
           | Done (xs, llen) \<Rightarrow>
               if llen \<noteq> len then Some (Some (False, i, sz, out)) else io_add st i len xs)
       else if ty = ERL_STRING_EXT then io_decode_string store buf st
       else if ty = ERL_LIST_EXT then nested st
       else if ty = ERL_NIL_EXT then
         reading (ei_decode_list_header buf index) (\<lambda>(r, i).
           Some (Some (r \<noteq> Fail, i, sz, out)))
       else Some (Some (False, st))))"

text \<open>The loop over the elements and the end of a list, \<open>n\<close> of them being left.\<close>

fun io_elements :: "(iostate \<Rightarrow> iores) \<Rightarrow> bool \<Rightarrow> bytes \<Rightarrow> nat \<Rightarrow> iostate \<Rightarrow> iores" where
  "io_elements nested store buf 0 st = Some (Some (True, st))"
| "io_elements nested store buf (Suc n) st = do {
     r \<leftarrow> io_element nested store (n = 0) buf st;
     reading r (\<lambda>(ok, st). if ok then io_elements nested store buf n st else Some (Some (False, st))) }"

fun decode_list_ext_iodata :: "nat \<Rightarrow> bool \<Rightarrow> bytes \<Rightarrow> iostate \<Rightarrow> iores" where
  "decode_list_ext_iodata 0 store buf st = None"
| "decode_list_ext_iodata (Suc fuel) store buf (index, sz, out) =
     reading (ei_decode_list_header buf index) (\<lambda>(r, i).
       case r of
         Fail \<Rightarrow> Some (Some (False, i, sz, out))
       | Done conses \<Rightarrow>
           io_elements (decode_list_ext_iodata fuel store buf) store buf (nat (sint conses + 1)) (i, sz, out))"

definition ei_decode_iodata :: "nat \<Rightarrow> bool \<Rightarrow> bytes \<Rightarrow> int \<Rightarrow> iores" where
  "ei_decode_iodata fuel store buf index =
     reading (ei_get_type buf index) (\<lambda>(ty, len).
       if ty = ERL_BINARY_EXT then
         reading (ei_decode_binary store buf index) (\<lambda>(r, i).
           case r of
             Fail \<Rightarrow> Some (Some (False, i, 0, []))
           | Done (xs, llen) \<Rightarrow>
               if llen \<noteq> len then Some (Some (False, i, 0, [])) else Some (Some (True, i, len, xs)))
       else if ty = ERL_STRING_EXT then io_decode_string store buf (index, 0, [])
       else if ty = ERL_NIL_EXT then
         reading (ei_decode_list_header buf index) (\<lambda>(r, i). Some (Some (r \<noteq> Fail, i, 0, [])))
       else if ty = ERL_LIST_EXT then decode_list_ext_iodata fuel store buf (index, 0, [])
       else Some (Some (False, index, 0, [])))"

section \<open>Specification\<close>

text \<open>Iodata and its representation; the bytes it stands for.\<close>

datatype iodata =
    IoByte u8
  | IoString bytes
  | IoBinary bytes
  | IoNil
  | IoList "iodata list" iodata

fun flatten :: "iodata \<Rightarrow> bytes" where
  "flatten (IoByte c) = [c]"
| "flatten (IoString xs) = xs"
| "flatten (IoBinary xs) = xs"
| "flatten IoNil = []"
| "flatten (IoList ds d) = concat (map flatten ds) @ flatten d"

fun is_byte :: "iodata \<Rightarrow> bool" where
  "is_byte (IoByte c) \<longleftrightarrow> True"
| "is_byte _ \<longleftrightarrow> False"

text \<open>A byte is an element of a list, never its end.\<close>

fun ext_io :: "iodata \<Rightarrow> bytes option" where
  "ext_io (IoByte c) = Some [ERL_SMALL_INTEGER_EXT, c]"
| "ext_io (IoString xs) = (if 0 < length xs \<and> length xs \<le> 0xffff then Some (ext_string xs) else None)"
| "ext_io (IoBinary xs) = (if length xs < 2 ^ 31 then Some (ext_binary xs) else None)"
| "ext_io IoNil = Some [ERL_NIL_EXT]"
| "ext_io (IoList ds d) = do {
     xss \<leftarrow> those (map ext_io ds);
     xs \<leftarrow> ext_io d;
     (if 0 < length ds \<and> length ds < 2 ^ 31 \<and> \<not> is_byte d
      then Some (ERL_LIST_EXT # be32 (of_nat (length ds) :: u32) @ concat xss @ xs) else None) }"

fun io_depth :: "iodata \<Rightarrow> nat" where
  "io_depth (IoList ds d) = Suc (max (io_depth d) (foldr max (map io_depth ds) 0))"
| "io_depth _ = 0"

section \<open>Decoding\<close>

text \<open>
  What a call makes of a representation \<open>xs\<close> of the bytes \<open>ys\<close>: it succeeds behind it, adds the
  number of bytes to the size and, when storing, appends the bytes.
\<close>

definition appends :: "bool \<Rightarrow> (iostate \<Rightarrow> iores) \<Rightarrow> bytes \<Rightarrow> bytes \<Rightarrow> bytes \<Rightarrow> bool" where
  "appends store f b xs ys \<longleftrightarrow>
     (\<forall>i sz out. sees b i xs \<longrightarrow> 0 \<le> sz \<longrightarrow> sz + int (length ys) \<le> INT_MAX \<longrightarrow>
       (\<exists>out'. f (i, sz, out) = Some (Some (True, i + int (length xs), sz + int (length ys), out'))
         \<and> (store \<longrightarrow> out' = out @ ys)))"

lemma c_int_in: "0 \<le> n \<Longrightarrow> n \<le> INT_MAX \<Longrightarrow> c_int n = Some n"
  by (simp add: c_int_def INT_MAX_def)

lemma byte_in_long: "sint (ucast (c :: u8) :: u64) = uint c" "ucast (ucast c :: u64) = c"
proof -
  have "uint c < 256" using unsigned_less [of c] by simp
  then have u: "uint (ucast c :: u64) = uint c" by (simp add: unsigned_ucast_eq take_bit_int_eq_self)
  with \<open>uint c < 256\<close> show "sint (ucast c :: u64) = uint c"
    by (simp add: sint_uint signed_take_bit_int_eq_self order_trans [of "- 9223372036854775808" 0])
  show "ucast (ucast c :: u64) = c"
    using \<open>uint c < 256\<close> u by (simp add: word_uint_eq_iff unsigned_ucast_eq take_bit_word_eq_self)
qed

lemma appends_byte: "appends store (io_element nested store False b) b [ERL_SMALL_INTEGER_EXT, c] [c]"
  unfolding appends_def
proof (intro allI impI)
  fix i sz :: int and out
  assume s: "sees b i [ERL_SMALL_INTEGER_EXT, c]" and sz: "0 \<le> sz" "sz + int (length [c]) \<le> INT_MAX"
  have c: "sint (ucast c :: u64) = uint c" "uint c < 256"
    using unsigned_less [of c] by (simp_all add: byte_in_long)
  then have x: "ext_longlong (ucast c) = [ERL_SMALL_INTEGER_EXT, c]"
    by (simp add: ext_longlong_def byte_in_long)
  from get_type_sees [OF s] obtain n where t: "ei_get_type b i = Some (ERL_SMALL_INTEGER_EXT, n)"
    by (auto simp: tag_room_def norm_type_def)
  from dec_long [of b i "ucast c"] s x have "ei_decode_long b i = Some (Done (ucast c), i + 2)" by simp
  with t c sz show "\<exists>out'. io_element nested store False b (i, sz, out) =
      Some (Some (True, i + int (length [ERL_SMALL_INTEGER_EXT, c]), sz + int (length [c]), out'))
      \<and> (store \<longrightarrow> out' = out @ [c])"
    by (simp add: io_element_def io_add_def c_int_in byte_in_long)
qed

lemma io_decode_string_sees:
  assumes "0 < length ys" and "length ys \<le> 0xffff"
  shows "appends store (io_decode_string store b) b (ERL_STRING_EXT # be16 (of_nat (length ys) :: u32) @ ys) ys"
  unfolding appends_def
proof (intro allI impI)
  fix i sz :: int and out
  assume s: "sees b i (ERL_STRING_EXT # be16 (of_nat (length ys) :: u32) @ ys)"
    and sz: "0 \<le> sz" "sz + int (length ys) \<le> INT_MAX"
  have l: "uint (ucast (of_nat (length ys) :: u32) :: u16) = int (length ys)"
    using assms by (simp add: unsigned_ucast_eq unsigned_of_nat take_bit_nat_eq_self flip: of_nat_take_bit)
  have "get16be b (i + 1) = Some (ucast (of_nat (length ys) :: u32), i + 1 + 2)" "sees b (i + 1 + 2) ys"
    using s by (auto simp: sees_Cons sees_append dest!: sees_getters)
  with l sz read_bytes_sees [of b "i + 1 + 2" ys]
  show "\<exists>out'. io_decode_string store b (i, sz, out) = Some (Some (True,
      i + int (length (ERL_STRING_EXT # be16 (of_nat (length ys) :: u32) @ ys)), sz + int (length ys), out'))
      \<and> (store \<longrightarrow> out' = out @ ys)"
    by (cases store) (simp_all add: io_decode_string_def io_add_def c_int_in)
qed

lemma io_binary_sees:
  assumes "length ys < 2 ^ 31" and s: "sees b i (ext_binary ys)"
  shows "ei_get_type b i = Some (ERL_BINARY_EXT, int (length ys))"
    and "ei_decode_binary store b i = Some (Done (if store then ys else [], int (length ys)), i + int (length (ext_binary ys)))"
proof -
  have l: "sint (ucast (of_nat (length ys) :: u64) :: u32) = int (length ys)"
    using sint_u32_of_nat [OF assms(1)] ucast_u64_u32_of_nat [OF assms(1)] by simp
  have g: "get8 b i = Some (ERL_BINARY_EXT, i + 1)" "get32be b (i + 1) = Some (ucast (of_nat (length ys) :: u64), i + 1 + 4)"
    "sees b (i + 1 + 4) ys"
    using s by (auto simp: ext_binary_def sees_simps dest!: sees_getters)
  show "ei_get_type b i = Some (ERL_BINARY_EXT, int (length ys))"
    using g l by (simp add: ei_get_type_def)
  show "ei_decode_binary store b i = Some (Done (if store then ys else [], int (length ys)), i + int (length (ext_binary ys)))"
    using g l read_bytes_sees [OF g(3)] by (simp add: ei_decode_binary_def ext_binary_def Let_def)
qed

lemma appends_leaf:
  assumes "ext_io d = Some xs" and "\<not> is_byte d" and "\<And>ds e. d \<noteq> IoList ds e"
  shows "appends store (io_element nested store at_end b) b xs (flatten d)"
proof (cases d)
  case (IoString ys)
  with assms(1) have l: "0 < length ys" "length ys \<le> 0xffff" and xs: "xs = ERL_STRING_EXT # be16 (of_nat (length ys) :: u32) @ ys"
    by (auto simp: ext_string_def split: if_splits)
  have "io_element nested store at_end b (i, sz, out) = io_decode_string store b (i, sz, out)" if "sees b i xs" for i sz out
    using get_type_sees [OF that [unfolded xs]] by (auto simp: tag_room_def norm_type_def io_element_def)
  with io_decode_string_sees [OF l, of store b] show ?thesis by (simp add: appends_def xs [symmetric] IoString)
next
  case (IoBinary ys)
  with assms(1) have l: "length ys < 2 ^ 31" and xs: "xs = ext_binary ys" by (auto split: if_splits)
  show ?thesis unfolding appends_def
  proof (intro allI impI)
    fix i sz :: int and out
    assume s: "sees b i xs" and "0 \<le> sz" "sz + int (length (flatten d)) \<le> INT_MAX"
    with io_binary_sees [OF l, of b i] show "\<exists>out'. io_element nested store at_end b (i, sz, out) =
        Some (Some (True, i + int (length xs), sz + int (length (flatten d)), out')) \<and> (store \<longrightarrow> out' = out @ flatten d)"
      by (simp add: xs IoBinary io_element_def io_add_def c_int_in)
  qed
next
  case IoNil
  with assms(1) have xs: "xs = [ERL_NIL_EXT]" by simp
  have "ei_get_type b i = Some (ERL_NIL_EXT, 0)" "ei_decode_list_header b i = Some (Done 0, i + 1)" if "sees b i xs" for i
    using get8_sees [OF that [unfolded xs]] by (simp_all add: ei_get_type_def ei_decode_list_header_def)
  then show ?thesis by (simp add: appends_def io_element_def IoNil xs)
qed (use assms in auto)

text \<open>The elements of a list and what ends it, one after the other.\<close>

lemma appends_elements:
  assumes "list_all2 (\<lambda>xs ys. appends store (io_element nested store False b) b xs ys) xss yss"
    and "appends store (io_element nested store True b) b xs ys"
  shows "appends store (io_elements nested store b (length xss + 1)) b (concat xss @ xs) (concat yss @ ys)"
  using assms(1)
proof (induction xss yss rule: list_all2_induct)
  case Nil
  show ?case unfolding appends_def
  proof (intro allI impI)
    fix i sz :: int and out
    assume "sees b i (concat [] @ xs)" "0 \<le> sz" "sz + int (length (concat [] @ ys)) \<le> INT_MAX"
    then obtain out' where "io_element nested store True b (i, sz, out) =
        Some (Some (True, i + int (length xs), sz + int (length ys), out'))" "store \<longrightarrow> out' = out @ ys"
      using assms(2) unfolding appends_def concat.simps append_Nil by blast
    then show "\<exists>out'. io_elements nested store b (length [] + 1) (i, sz, out) =
        Some (Some (True, i + int (length (concat [] @ xs)), sz + int (length (concat [] @ ys)), out'))
        \<and> (store \<longrightarrow> out' = out @ concat [] @ ys)" by simp
  qed
next
  case (Cons zs zss ws wss)
  show ?case unfolding appends_def
  proof (intro allI impI)
    fix i sz :: int and out
    assume s: "sees b i (concat (zs # zss) @ xs)" and sz: "0 \<le> sz" "sz + int (length (concat (ws # wss) @ ys)) \<le> INT_MAX"
    let ?j = "i + int (length zs)" and ?sz = "sz + int (length ws)"
    from s have s1: "sees b i zs" and s2: "sees b ?j (concat zss @ xs)" by (simp_all add: sees_append)
    have "sz + int (length ws) \<le> INT_MAX" using sz(2) by simp
    with Cons.hyps(1) s1 sz(1) obtain o1 where o1: "io_element nested store False b (i, sz, out) = Some (Some (True, ?j, ?sz, o1))"
      "store \<longrightarrow> o1 = out @ ws"
      unfolding appends_def by blast
    have "0 \<le> ?sz" "?sz + int (length (concat wss @ ys)) \<le> INT_MAX" using sz by simp_all
    with Cons.IH s2 obtain o2 where o2: "io_elements nested store b (length zss + 1) (?j, ?sz, o1) =
        Some (Some (True, ?j + int (length (concat zss @ xs)), ?sz + int (length (concat wss @ ys)), o2))"
      "store \<longrightarrow> o2 = o1 @ concat wss @ ys"
      unfolding appends_def by blast
    have "io_elements nested store b (length (zs # zss) + 1) (i, sz, out) =
        io_elements nested store b (length zss + 1) (?j, ?sz, o1)"
      using o1(1) by simp
    with o1(2) o2 show "\<exists>out'. io_elements nested store b (length (zs # zss) + 1) (i, sz, out) =
        Some (Some (True, i + int (length (concat (zs # zss) @ xs)), sz + int (length (concat (ws # wss) @ ys)), out'))
        \<and> (store \<longrightarrow> out' = out @ concat (ws # wss) @ ys)"
      by (auto simp: add.assoc)
  qed
qed

lemma appends_list:
  assumes "length xss < 2 ^ 31"
    and "appends store (io_elements (decode_list_ext_iodata fuel store b) store b (length xss + 1)) b (concat xss @ xs) ys"
  shows "appends store (decode_list_ext_iodata (Suc fuel) store b) b
    (ERL_LIST_EXT # be32 (of_nat (length xss) :: u32) @ concat xss @ xs) ys"
  unfolding appends_def
proof (intro allI impI)
  fix i sz :: int and out
  assume s: "sees b i (ERL_LIST_EXT # be32 (of_nat (length xss) :: u32) @ concat xss @ xs)"
    and sz: "0 \<le> sz" "sz + int (length ys) \<le> INT_MAX"
  have g: "get8 b i = Some (ERL_LIST_EXT, i + 1)" "get32be b (i + 1) = Some (of_nat (length xss), i + 5)"
    "sees b (i + 5) (concat xss @ xs)"
    using s by (auto simp: sees_Cons sees_append get8_def add.commute add.left_commute dest!: sees_getters)
  have h: "ei_decode_list_header b i = Some (Done (of_nat (length xss)), i + 5)"
    using g by (simp add: ei_decode_list_header_def)
  have n: "nat (sint (of_nat (length xss) :: u32) + 1) = length xss + 1"
    using sint_u32_of_nat [OF assms(1)] by simp
  from assms(2) g(3) sz obtain out' where
    "io_elements (decode_list_ext_iodata fuel store b) store b (length xss + 1) (i + 5, sz, out) =
      Some (Some (True, i + 5 + int (length (concat xss @ xs)), sz + int (length ys), out'))" "store \<longrightarrow> out' = out @ ys"
    unfolding appends_def by blast
  then show "\<exists>out'. decode_list_ext_iodata (Suc fuel) store b (i, sz, out) =
      Some (Some (True, i + int (length (ERL_LIST_EXT # be32 (of_nat (length xss) :: u32) @ concat xss @ xs)),
        sz + int (length ys), out')) \<and> (store \<longrightarrow> out' = out @ ys)"
    unfolding decode_list_ext_iodata.simps h by (simp add: n add.assoc)
qed

lemma io_element_list:
  assumes "sees b i (ERL_LIST_EXT # be32 (w :: u32) @ zs)"
  shows "io_element nested store at_end b (i, sz, out) = nested (i, sz, out)"
  using get_type_sees [OF assms] by (auto simp: tag_room_def norm_type_def io_element_def)

lemma appends_iodata:
  "ext_io d = Some xs \<Longrightarrow> io_depth d \<le> fuel \<Longrightarrow> \<not> (at_end \<and> is_byte d) \<Longrightarrow>
   appends store (io_element (decode_list_ext_iodata fuel store b) store at_end b) b xs (flatten d)"
proof (induction d arbitrary: xs fuel at_end)
  case (IoByte c)
  then have xs: "xs = [ERL_SMALL_INTEGER_EXT, c]" and "at_end = False" by auto
  then show ?case using appends_byte by simp
next
  case (IoList ds e)
  from IoList.prems(1) obtain xss ys where x: "those (map ext_io ds) = Some xss" and y: "ext_io e = Some ys"
    and l: "0 < length ds" "length ds < 2 ^ 31" "\<not> is_byte e"
    and xs: "xs = ERL_LIST_EXT # be32 (of_nat (length ds) :: u32) @ concat xss @ ys"
    by (auto split: Option.bind_splits if_splits)
  from IoList.prems(2) obtain f where f: "fuel = Suc f" "max (io_depth e) (foldr max (map io_depth ds) 0) \<le> f"
    by (cases fuel) auto
  have len: "length xss = length ds" using those_map_Some [OF x] by simp
  let ?el = "io_element (decode_list_ext_iodata f store b) store"
  have "appends store (?el False b) b (xss ! k) (map flatten ds ! k)" if "k < length xss" for k
  proof -
    from x have "map ext_io ds = map Some xss" by (simp add: those_eq_Some)
    then have k: "ds ! k \<in> set ds" "ext_io (ds ! k) = Some (xss ! k)"
      using that len by (auto simp: list_eq_iff_nth_eq)
    have "io_depth (ds ! k) \<le> f" using le_foldr_max [of "io_depth (ds ! k)" "map io_depth ds"] k(1) f(2) by auto
    from IoList.IH(1) [OF k(1,2) this, of False] that len show ?thesis by simp
  qed
  then have "list_all2 (\<lambda>xs ys. appends store (?el False b) b xs ys) xss (map flatten ds)"
    by (simp add: list_all2_conv_all_nth len)
  moreover have "appends store (?el True b) b ys (flatten e)"
    using IoList.IH(2) [OF y, of f True] f(2) l(3) by simp
  ultimately have "appends store (decode_list_ext_iodata (Suc f) store b) b xs (concat (map flatten ds) @ flatten e)"
    using appends_list [OF _ appends_elements, of xss store f b "map flatten ds" ys "flatten e"] l(2) len by (simp add: xs)
  then show ?case
    unfolding appends_def f(1) flatten.simps using io_element_list [of b _ "of_nat (length ds)" "concat xss @ ys"]
    by (simp add: xs)
next
  case (IoString ys)
  then show ?case by (intro appends_leaf) simp_all
next
  case (IoBinary ys)
  then show ?case by (intro appends_leaf) simp_all
next
  case IoNil
  then show ?case by (intro appends_leaf) simp_all
qed

section \<open>Properties\<close>

text \<open>
  C27. On iodata of any nesting, \<open>ei_decode_iodata\<close> succeeds with the index behind it, the size is the
  number of bytes the iodata stands for, and with an output buffer exactly these bytes are written
  to it.  The call with \<open>NULL\<close> for the buffer thus finds the room the second call needs.
\<close>

theorem ei_decode_iodata_flattens:
  assumes "ext_io d = Some xs" and "\<not> is_byte d" and "sees b i xs" and "io_depth d \<le> fuel"
    and "int (length (flatten d)) \<le> INT_MAX"
  shows "\<exists>out. ei_decode_iodata fuel store b i =
      Some (Some (True, i + int (length xs), int (length (flatten d)), out)) \<and> (store \<longrightarrow> out = flatten d)"
proof -
  have "\<exists>out. io_element (decode_list_ext_iodata fuel store b) store False b (i, 0, []) =
      Some (Some (True, i + int (length xs), int (length (flatten d)), out)) \<and> (store \<longrightarrow> out = flatten d)"
    using appends_iodata [OF assms(1,4), of False store b, unfolded appends_def, rule_format, of i 0 "[]"] assms(3,5)
    by simp
  moreover have "ei_decode_iodata fuel store b i = io_element (decode_list_ext_iodata fuel store b) store False b (i, 0, [])"
  proof (cases d)
    case (IoBinary ys)
    with assms(1) have "length ys < 2 ^ 31" "xs = ext_binary ys" by (auto split: if_splits)
    with io_binary_sees [of ys b i] assms(3,5) IoBinary show ?thesis
      by (simp add: ei_decode_iodata_def io_element_def io_add_def c_int_in)
  next
    case IoNil
    with assms(1,3) show ?thesis
      by (auto simp: ei_decode_iodata_def io_element_def ei_get_type_def ei_decode_list_header_def get8_sees)
  next
    case (IoString ys)
    with assms(1) have "xs = ERL_STRING_EXT # be16 (of_nat (length ys) :: u32) @ ys"
      by (auto simp: ext_string_def split: if_splits)
    with get_type_sees [of b i ERL_STRING_EXT "be16 (of_nat (length ys) :: u32) @ ys"] assms(3) show ?thesis
      by (auto simp: tag_room_def norm_type_def ei_decode_iodata_def io_element_def)
  next
    case (IoList ds e)
    with assms(1) obtain zs where "xs = ERL_LIST_EXT # be32 (of_nat (length ds) :: u32) @ zs"
      by (auto split: Option.bind_splits if_splits)
    with get_type_sees [of b i ERL_LIST_EXT "be32 (of_nat (length ds) :: u32) @ zs"] assms(3) show ?thesis
      by (auto simp: tag_room_def norm_type_def ei_decode_iodata_def io_element_def)
  qed (use assms(2) in simp)
  ultimately show ?thesis by simp
qed

theorem ei_decode_iodata_flattens_witness:
  "ei_decode_iodata 1 True [ERL_LIST_EXT, 0, 0, 0, 2, ERL_SMALL_INTEGER_EXT, 65, ERL_STRING_EXT, 0, 2, 66, 67, ERL_NIL_EXT] 0
    = Some (Some (True, 13, 3, [65, 66, 67]))"
proof -
  have x: "ext_io (IoList [IoByte 65, IoString [66, 67]] IoNil) =
      Some [ERL_LIST_EXT, 0, 0, 0, 2, ERL_SMALL_INTEGER_EXT, 65, ERL_STRING_EXT, 0, 2, 66, 67, ERL_NIL_EXT]"
    by (simp add: ext_string_def be16_def be32_def)
  from ei_decode_iodata_flattens [OF x, of "[ERL_LIST_EXT, 0, 0, 0, 2, ERL_SMALL_INTEGER_EXT, 65, ERL_STRING_EXT, 0, 2, 66, 67, ERL_NIL_EXT]"
      0 1 True]
  show ?thesis by (simp add: sees_def INT_MAX_def)
qed

end
