(* ===== verification/Ei_Xbuf.thy ===== *)
theory Ei_Xbuf
  imports Ei_Fun Ei_Big Ei_Binary
begin

text \<open>
  The self-expanding buffer of \<open>ei_x_encode.c\<close>, with \<open>ei_malloc.c\<close>: every operation first runs the
  sizing pass of an encoder, makes room, and then writes.  The buffer refines a sequence of bytes:
  a call either appends the representation of its argument and returns \<open>0\<close>, or returns \<open>-1\<close> and
  leaves the sequence as it was.
\<close>

section \<open>Memory\<close>

text \<open>
  The allocator is a function from the size of a request to the initial contents of the new block,
  \<open>None\<close> when there is no memory.  A negative size becomes a huge unsigned one, which never fits.
\<close>

type_synonym heap = "int \<Rightarrow> (nat \<Rightarrow> u8) option"

definition ei_malloc :: "heap \<Rightarrow> int \<Rightarrow> bytes option" where
  "ei_malloc heap n = (if n < 0 then None else map_option (\<lambda>g. map g [0..<nat n]) (heap n))"

definition ei_realloc :: "heap \<Rightarrow> bytes option \<Rightarrow> int \<Rightarrow> bytes option" where
  "ei_realloc heap orig n = do {
     nb \<leftarrow> ei_malloc heap n;
     let old = (case orig of None \<Rightarrow> [] | Some b \<Rightarrow> b);
     Some (take (length nb) old @ drop (length old) nb) }"

section \<open>The buffer\<close>

record ei_x_buff =
  buff :: "bytes option"
  buffsz :: int
  x_index :: int

abbreviation ei_x_extra :: int where "ei_x_extra \<equiv> 100"

definition ei_x_new :: "heap \<Rightarrow> int \<times> ei_x_buff" where
  "ei_x_new heap =
     (let b = ei_malloc heap ei_x_extra; x = \<lparr>buff = b, buffsz = ei_x_extra, x_index = 0\<rparr>
      in (if b \<noteq> None then 0 else -1, x))"

definition ei_x_new_with_version :: "heap \<Rightarrow> (int \<times> ei_x_buff) option" where
  "ei_x_new_with_version heap =
     (let (r, x) = ei_x_new heap in
      if r < 0 then Some (-1, x)
      else do {
        (r, b, i) \<leftarrow> ei_encode_version (buff x) (x_index x);
        Some (r, x\<lparr>buff := b, x_index := i\<rparr>) })"

definition ei_x_free :: "ei_x_buff \<Rightarrow> int \<times> ei_x_buff" where
  "ei_x_free x = (if buff x = None then (-1, x) else (0, x\<lparr>buff := None\<rparr>))"

text \<open>The sums are of C \<open>int\<close>s; \<open>None\<close> is an overflow.\<close>

definition x_fix_buff :: "heap \<Rightarrow> ei_x_buff \<Rightarrow> int \<Rightarrow> (bool \<times> ei_x_buff) option" where
  "x_fix_buff heap x szneeded = do {
     sz \<leftarrow> c_int (szneeded + ei_x_extra);
     (if sz > buffsz x then do {
        sz \<leftarrow> c_int (sz + ei_x_extra);
        (case ei_realloc heap (buff x) sz of
           None \<Rightarrow> Some (False, x)
         | Some newbuff \<Rightarrow> Some (True, x\<lparr>buff := Some newbuff, buffsz := sz\<rparr>)) }
      else Some (buff x \<noteq> None, x)) }"

definition ei_x_append_buf :: "heap \<Rightarrow> ei_x_buff \<Rightarrow> bytes \<Rightarrow> int \<Rightarrow> (int \<times> ei_x_buff) option" where
  "ei_x_append_buf heap x buf len = do {
     sz \<leftarrow> c_int (x_index x + len);
     (ok, x) \<leftarrow> x_fix_buff heap x sz;
     (if \<not> ok then Some (-1, x)
      else do {
        b \<leftarrow> buff x;
        xs \<leftarrow> read_bytes buf 0 len;
        (b, _) \<leftarrow> put_bytes b (x_index x) xs;
        Some (0, x\<lparr>buff := Some b, x_index := sz\<rparr>) }) }"


subsection \<open>The encoding operations\<close>

text \<open>The common body of the operations: sizing pass, room, writing pass.\<close>

definition ei_x_enc ::
  "heap \<Rightarrow> (bytes option \<Rightarrow> int \<Rightarrow> enc_res) \<Rightarrow> ei_x_buff \<Rightarrow> (int \<times> ei_x_buff) option" where
  "ei_x_enc heap enc x = do {
     (r, _, i) \<leftarrow> enc None (x_index x);
     (if r = -1 then Some (-1, x)
      else do {
        (ok, x) \<leftarrow> x_fix_buff heap x i;
        (if \<not> ok then Some (-1, x)
         else do {
           (r, b, i) \<leftarrow> enc (buff x) (x_index x);
           Some (r, x\<lparr>buff := b, x_index := i\<rparr>) }) }) }"

text \<open>The body of those that do not look at the return value of the sizing pass.\<close>

definition ei_x_enc_unchecked ::
  "heap \<Rightarrow> (bytes option \<Rightarrow> int \<Rightarrow> enc_res) \<Rightarrow> ei_x_buff \<Rightarrow> (int \<times> ei_x_buff) option" where
  "ei_x_enc_unchecked heap enc x = do {
     (_, _, i) \<leftarrow> enc None (x_index x);
     (ok, x) \<leftarrow> x_fix_buff heap x i;
     (if \<not> ok then Some (-1, x)
      else do {
        (r, b, i) \<leftarrow> enc (buff x) (x_index x);
        Some (r, x\<lparr>buff := b, x_index := i\<rparr>) }) }"



























section \<open>The abstract buffer\<close>

text \<open>The invariant: the memory has the recorded size and the index is inside it.\<close>

definition x_ok :: "ei_x_buff \<Rightarrow> bool" where
  "x_ok x \<longleftrightarrow>
     (case buff x of None \<Rightarrow> False | Some b \<Rightarrow> int (length b) = buffsz x)
     \<and> 0 \<le> x_index x \<and> x_index x \<le> buffsz x"

text \<open>What has been written.\<close>

definition x_contents :: "ei_x_buff \<Rightarrow> bytes" where
  "x_contents x = (case buff x of None \<Rightarrow> [] | Some b \<Rightarrow> take (nat (x_index x)) b)"

text \<open>
  The contract of an operation that appends the bytes \<open>ext\<close>, where these exist: it returns as long
  as the sizes stay within an \<open>int\<close>, keeps the invariant, and either appends or changes nothing.
\<close>

locale x_appender =
  fixes f :: "ei_x_buff \<Rightarrow> (int \<times> ei_x_buff) option"
    and ext :: "bytes option"
  assumes accepts: "ext = Some bs \<Longrightarrow> x_ok x \<Longrightarrow> x_index x + int (length bs) + 2 * ei_x_extra \<le> INT_MAX \<Longrightarrow>
      \<exists>r x'. f x = Some (r, x') \<and> x_ok x'
        \<and> (r = 0 \<and> x_contents x' = x_contents x @ bs \<or> r = -1 \<and> x' = x)"
    and rejects: "ext = None \<Longrightarrow> f x = Some (-1, x)"
begin

lemma returns:
  assumes "x_ok x" and "x_index x + int (case ext of None \<Rightarrow> 0 | Some bs \<Rightarrow> length bs) + 2 * ei_x_extra \<le> INT_MAX"
  shows "\<exists>r x'. f x = Some (r, x') \<and> x_ok x'
    \<and> (r = 0 \<and> (\<exists>bs. ext = Some bs \<and> x_contents x' = x_contents x @ bs) \<or> r = -1 \<and> x' = x)"
proof (cases ext)
  case None
  with rejects [of x] assms(1) show ?thesis by simp
next
  case (Some bs)
  with accepts [OF Some assms(1)] assms(2) show ?thesis by auto
qed

end

lemma ei_malloc_length: "ei_malloc heap n = Some b \<Longrightarrow> 0 \<le> n \<and> int (length b) = n"
  by (auto simp: ei_malloc_def split: if_splits)

lemma ei_realloc_keeps:
  assumes "ei_realloc heap (Some b) n = Some nb" and "int (length b) \<le> n"
  shows "int (length nb) = n \<and> take (length b) nb = b"
  using assms ei_malloc_length [of heap n] by (auto simp: ei_realloc_def split: Option.bind_splits)

text \<open>Making room: it fails only for lack of memory, and then nothing has changed.\<close>

lemma x_fix_buff_room:
  assumes "x_ok x" and "x_index x \<le> n" and "n + 2 * ei_x_extra \<le> INT_MAX"
  obtains ok x' where "x_fix_buff heap x n = Some (ok, x')" and "x_ok x'" and "x_index x' = x_index x"
    and "x_contents x' = x_contents x" and "ok \<Longrightarrow> n \<le> buffsz x'" and "\<not> ok \<Longrightarrow> x' = x"
proof -
  from assms(1) obtain b where b: "buff x = Some b" "int (length b) = buffsz x" and i: "0 \<le> x_index x" "x_index x \<le> buffsz x"
    by (auto simp: x_ok_def split: option.splits)
  have c: "c_int (n + ei_x_extra) = Some (n + ei_x_extra)" "c_int (n + ei_x_extra + ei_x_extra) = Some (n + ei_x_extra + ei_x_extra)"
    using assms(2,3) i(1) by (simp_all add: c_int_def INT_MAX_def)
  show ?thesis
  proof (cases "n + ei_x_extra > buffsz x")
    case False
    show ?thesis
      by (rule that [of True x]) (use False c b assms(1) in \<open>simp_all add: x_fix_buff_def\<close>)
  next
    case True
    let ?sz = "n + ei_x_extra + ei_x_extra"
    show ?thesis
    proof (cases "ei_realloc heap (buff x) ?sz")
      case None
      show ?thesis
        by (rule that [of False x]) (use None True c assms(1) in \<open>simp_all only: x_fix_buff_def bind.bind_lunit if_P option.case\<close>)
    next
      case (Some nb)
      with b ei_realloc_keeps [of heap b ?sz nb] True have nb: "int (length nb) = ?sz" "take (length b) nb = b" by simp_all
      let ?x = "x\<lparr>buff := Some nb, buffsz := ?sz\<rparr>"
      have "nat (x_index x) \<le> length b" using i b(2) by linarith
      then have "take (nat (x_index x)) nb = take (nat (x_index x)) b"
        using nb(2) by (metis min.absorb1 take_take)
      then have "x_contents ?x = x_contents x" by (simp add: x_contents_def b(1))
      moreover have "x_ok ?x" using nb(1) i True by (simp add: x_ok_def)
      moreover have "x_fix_buff heap x n = Some (True, ?x)"
        using True by (simp only: x_fix_buff_def c bind.bind_lunit if_P Some option.case)
      ultimately show ?thesis by (intro that [of True ?x]) simp_all
    qed
  qed
qed

text \<open>Every encoder with its contract gives an operation with the contract of the buffer.\<close>

lemma x_enc_appends:
  assumes "ei_encoder enc ext" and "ext = Some bs" and "x_ok x"
    and "x_index x + int (length bs) + 2 * ei_x_extra \<le> INT_MAX"
  shows "\<exists>r x'. ei_x_enc heap enc x = Some (r, x') \<and> x_ok x'
        \<and> (r = 0 \<and> x_contents x' = x_contents x @ bs \<or> r = -1 \<and> x' = x)"
    and "\<exists>r x'. ei_x_enc_unchecked heap enc x = Some (r, x') \<and> x_ok x'
        \<and> (r = 0 \<and> x_contents x' = x_contents x @ bs \<or> r = -1 \<and> x' = x)"
proof -
  let ?n = "x_index x + int (length bs)"
  have z: "enc None (x_index x) = Some (0, None, ?n)" by (rule ei_encoder.size_pass [OF assms(1,2)])
  have "x_index x \<le> ?n" by simp
  then obtain ok x' where f: "x_fix_buff heap x ?n = Some (ok, x')" "x_ok x'" "x_index x' = x_index x"
    "x_contents x' = x_contents x" "ok \<Longrightarrow> ?n \<le> buffsz x'" "\<not> ok \<Longrightarrow> x' = x"
    using x_fix_buff_room [OF assms(3) _ assms(4), of heap] by blast
  have "\<exists>r y. (if \<not> ok then Some (-1, x') else do { (r, b, i) \<leftarrow> enc (buff x') (x_index x'); Some (r, x'\<lparr>buff := b, x_index := i\<rparr>) })
      = Some (r, y) \<and> x_ok y \<and> (r = 0 \<and> x_contents y = x_contents x @ bs \<or> r = -1 \<and> y = x)"
  proof (cases ok)
    case False
    with f(6) assms(3) show ?thesis by simp
  next
    case True
    from f(2,3) obtain b where b: "buff x' = Some b" "int (length b) = buffsz x'" and i: "0 \<le> x_index x"
      by (auto simp: x_ok_def split: option.splits)
    have room: "x_index x + int (length bs) \<le> int (length b)" using f(5) [OF True] b(2) by simp
    have w: "enc (buff x') (x_index x') = Some (0, Some (splice_at b (x_index x) bs), ?n)"
      using ei_encoder.write_pass [OF assms(1,2) i room] b(1) f(3) by simp
    let ?y = "x'\<lparr>buff := Some (splice_at b (x_index x) bs), x_index := ?n\<rparr>"
    have "nat ?n = nat (x_index x) + length bs" using i by simp
    then have "take (nat ?n) (splice_at b (x_index x) bs) = take (nat (x_index x)) b @ bs"
      using room i by (simp add: splice_at_def)
    then have "x_contents ?y = x_contents x @ bs"
      using f(3,4) b(1) by (simp add: x_contents_def)
    moreover have "x_ok ?y" using room i b(2) f(5) [OF True] by (simp add: x_ok_def)
    ultimately show ?thesis using True w by auto
  qed
  then show "\<exists>r x'. ei_x_enc heap enc x = Some (r, x') \<and> x_ok x'
        \<and> (r = 0 \<and> x_contents x' = x_contents x @ bs \<or> r = -1 \<and> x' = x)"
    and "\<exists>r x'. ei_x_enc_unchecked heap enc x = Some (r, x') \<and> x_ok x'
        \<and> (r = 0 \<and> x_contents x' = x_contents x @ bs \<or> r = -1 \<and> x' = x)"
    by (simp_all only: ei_x_enc_def ei_x_enc_unchecked_def z bind.bind_lunit split f(1) zero_neq_neg_one if_False)
qed



text \<open>Appending raw bytes has the same contract.\<close>

lemma read_prefix: "0 \<le> len \<Longrightarrow> len \<le> int (length p) \<Longrightarrow> read_bytes p 0 len = Some (take (nat len) p)"
  by (simp add: read_bytes_def)

lemma x_append_buf_appender:
  assumes len: "0 \<le> len" "len \<le> int (length buf)"
  shows "x_appender (\<lambda>x. ei_x_append_buf heap x buf len) (Some (take (nat len) buf))"
proof
  let ?bs = "take (nat len) buf"
  have l: "int (length ?bs) = len" using len by simp
  fix cs x
  assume cs: "Some ?bs = Some cs" and ok: "x_ok x" and le: "x_index x + int (length cs) + 2 * ei_x_extra \<le> INT_MAX"
  let ?e = "\<lambda>b i. case b of None \<Rightarrow> Some (0, None, i + len)
    | Some b \<Rightarrow> do { xs \<leftarrow> read_bytes buf 0 len; (b, _) \<leftarrow> put_bytes b i xs; Some (0, Some b, i + len) }"
  note r = read_prefix [OF len]
  have e: "ei_encoder ?e (Some ?bs)" by unfold_locales (use l in \<open>auto simp: r put_bytes_in\<close>)
  have c: "c_int (x_index x + len) = Some (x_index x + len)"
    using ok le cs l by (auto simp: x_ok_def c_int_def INT_MAX_def)
  have "ei_x_append_buf heap x buf len = ei_x_enc heap ?e x"
  proof -
    have f: "buff x' \<noteq> None \<and> x_index x' = x_index x" if "x_fix_buff heap x n = Some (True, x')" for n x'
      using that by (auto simp: x_fix_buff_def split: Option.bind_splits if_splits option.splits)
    show ?thesis
    proof (cases "x_fix_buff heap x (x_index x + len)")
      case (Some p)
      then obtain ok x' where p: "x_fix_buff heap x (x_index x + len) = Some (ok, x')" by (cases p) simp
      show ?thesis
      proof (cases ok)
        case True
        with f [of "x_index x + len" x'] p obtain b where "buff x' = Some b" "x_index x' = x_index x" by auto
        with True p show ?thesis
          by (cases "put_bytes b (x_index x) ?bs") (simp_all add: ei_x_append_buf_def ei_x_enc_def c r case_prod_beta)
      qed (simp add: ei_x_append_buf_def ei_x_enc_def c p)
    qed (simp add: ei_x_append_buf_def ei_x_enc_def c)
  qed
  with x_enc_appends(1) [OF e cs ok le, of heap]
  show "\<exists>r x'. ei_x_append_buf heap x buf len = Some (r, x') \<and> x_ok x'
        \<and> (r = 0 \<and> x_contents x' = x_contents x @ cs \<or> r = -1 \<and> x' = x)" by simp
qed simp


section \<open>Interpretations\<close>













interpretation x_append: x_appender "\<lambda>x. ei_x_append_buf heap x bs (int (length bs))" "Some bs" for heap bs
  using x_append_buf_appender [of "int (length bs)" bs heap] by simp











section \<open>Sequences of calls\<close>









section \<open>Properties\<close>



text \<open>
  \<open>ei_x_new\<close> fails exactly when there is no memory for 100 bytes and otherwise gives a sound empty
  buffer; so does \<open>ei_x_new_with_version\<close>, whose buffer holds the version byte.  A buffer that has been
  made can be freed once, a second time is an error.
\<close>

theorem ei_x_new_free:
  "(let (r, x) = ei_x_new heap in
      if heap ei_x_extra = None then r = -1 \<and> ei_x_free x = (-1, x) else r = 0 \<and> x_ok x \<and> x_contents x = [])
   \<and> (\<exists>r x. ei_x_new_with_version heap = Some (r, x)
     \<and> (if heap ei_x_extra = None then r = -1 \<and> ei_x_free x = (-1, x)
        else r = 0 \<and> x_ok x \<and> x_contents x = [ERL_VERSION_MAGIC]
          \<and> (\<exists>y. ei_x_free x = (0, y) \<and> ei_x_free y = (-1, y))))"
proof (cases "heap ei_x_extra")
  case None
  then show ?thesis
    by (auto simp: ei_x_new_with_version_def ei_x_new_def ei_malloc_def ei_x_free_def)
next
  case (Some g)
  let ?b = "map g [0..<100]"
  let ?x = "\<lparr>buff = Some (splice_at ?b 0 [ERL_VERSION_MAGIC]), buffsz = ei_x_extra, x_index = 1\<rparr>"
  have n: "ei_x_new heap = (0, \<lparr>buff = Some ?b, buffsz = ei_x_extra, x_index = 0\<rparr>)"
    using Some by (simp add: ei_x_new_def ei_malloc_def)
  have w: "ei_encode_version (Some ?b) 0 = Some (0, Some (splice_at ?b 0 [ERL_VERSION_MAGIC]), 1)"
    using codec_version.write_pass [OF refl, of 0 ?b] by simp
  have "ei_x_new_with_version heap = Some (0, ?x)"
    by (simp only: ei_x_new_with_version_def n) (simp add: w del: upt_Suc)
  moreover have "x_ok ?x" by (simp add: x_ok_def)
  moreover have "x_contents ?x = [ERL_VERSION_MAGIC]" by (simp add: x_contents_def splice_at_def)
  moreover have "x_ok \<lparr>buff = Some ?b, buffsz = ei_x_extra, x_index = 0\<rparr>" "x_contents \<lparr>buff = Some ?b, buffsz = ei_x_extra, x_index = 0\<rparr> = []"
    by (simp_all add: x_ok_def x_contents_def)
  ultimately show ?thesis using Some by (simp only: n) (simp add: ei_x_free_def)
qed

end
