(* ===== verification/Ei_Cmp.thy ===== *)
theory Ei_Cmp
  imports Ei_Ids "HOL-Library.List_Lexorder" "HOL-Library.Product_Lexorder"
begin

text \<open>
  Comparison of process identifiers, ports and references: \<open>ei_cmp_nc.c\<close>.  Each function is shown to
  compare keys in a linear order, the node name before or behind the numbers as the source has it.
\<close>

section \<open>Definitions\<close>

text \<open>
  \<open>strcmp\<close> on two arrays; only the sign of its result is specified, so the model returns the sign.
  There is no result if an array ends before the strings do.
\<close>

fun strcmp :: "bytes \<Rightarrow> bytes \<Rightarrow> int option" where
  "strcmp (x # xs) (y # ys) =
     (if x \<noteq> y then Some (if x < y then -1 else 1) else if x = 0 then Some 0 else strcmp xs ys)"
| "strcmp _ _ = None"

definition cmp_nodes :: "bytes \<Rightarrow> u32 \<Rightarrow> bytes \<Rightarrow> u32 \<Rightarrow> int option" where
  "cmp_nodes aname acreation bname bcreation = do {
     differ \<leftarrow> strcmp aname bname;
     Some (if differ \<noteq> 0 then differ
           else if acreation = bcreation then 0
           else if acreation < bcreation then -1 else 1) }"

definition num_at :: "u32 list \<Rightarrow> int \<Rightarrow> u32 option" where
  "num_at nums i = (if 0 \<le> i \<and> i < int (length nums) then Some (nums ! nat i) else None)"

text \<open>The loops over the numbers that only the longer reference has, from the last one down.\<close>

function extra_nonzero :: "u32 list \<Rightarrow> int \<Rightarrow> int \<Rightarrow> bool option" where
  "extra_nonzero nums len other =
     (if other < len then do {
        x \<leftarrow> num_at nums (len - 1);
        (if x \<noteq> 0 then Some True else extra_nonzero nums (len - 1) other) }
      else Some False)"
  by pat_completeness auto
termination
  by (relation "measure (\<lambda>(nums, len, other). nat (len - other))") auto

declare extra_nonzero.simps [simp del]

text \<open>The loop over the numbers both have, from \<open>i\<close> down.\<close>

function cmp_nums :: "u32 list \<Rightarrow> u32 list \<Rightarrow> int \<Rightarrow> int option" where
  "cmp_nums anum bnum i =
     (if 0 \<le> i then do {
        x \<leftarrow> num_at anum i;
        y \<leftarrow> num_at bnum i;
        (if x \<noteq> y then Some (if x < y then -1 else 1) else cmp_nums anum bnum (i - 1)) }
      else Some 0)"
  by pat_completeness auto
termination
  by (relation "measure (\<lambda>(anum, bnum, i). nat (i + 1))") auto

declare cmp_nums.simps [simp del]

definition ei_cmp_refs :: "erlang_ref \<Rightarrow> erlang_ref \<Rightarrow> int option" where
  "ei_cmp_refs a b = do {
     differ \<leftarrow> cmp_nodes (ref_node a) (ref_creation a) (ref_node b) (ref_creation b);
     (if differ \<noteq> 0 then Some differ
      else do {
        let alen = ref_len a;
        let blen = ref_len b;
        xa \<leftarrow> extra_nonzero (ref_n a) alen blen;
        (if xa then Some 1
         else do {
           xb \<leftarrow> extra_nonzero (ref_n b) blen alen;
           (if xb then Some (-1) else cmp_nums (ref_n a) (ref_n b) (min alen blen - 1)) }) }) }"

definition ei_cmp_pids :: "erlang_pid \<Rightarrow> erlang_pid \<Rightarrow> int option" where
  "ei_cmp_pids a b =
     (if pid_serial a \<noteq> pid_serial b then Some (if pid_serial a < pid_serial b then -1 else 1)
      else if pid_num a \<noteq> pid_num b then Some (if pid_num a < pid_num b then -1 else 1)
      else cmp_nodes (pid_node a) (pid_creation a) (pid_node b) (pid_creation b))"

definition ei_cmp_ports :: "erlang_port \<Rightarrow> erlang_port \<Rightarrow> int option" where
  "ei_cmp_ports a b = do {
     differ \<leftarrow> cmp_nodes (port_node a) (port_creation a) (port_node b) (port_creation b);
     Some (if differ \<noteq> 0 then differ
           else if port_id a \<noteq> port_id b then (if port_id a < port_id b then -1 else 1)
           else 0) }"

section \<open>Keys\<close>

definition cmp :: "'a::linorder \<Rightarrow> 'a \<Rightarrow> int" where
  "cmp x y = (if x < y then -1 else if x = y then 0 else 1)"

fun num_val :: "u32 list \<Rightarrow> nat" where
  "num_val [] = 0"
| "num_val (x # xs) = unat x + 2 ^ 32 * num_val xs"

text \<open>The number of a reference, least significant word first.\<close>

definition ref_val :: "erlang_ref \<Rightarrow> nat" where
  "ref_val r = num_val (take (nat (ref_len r)) (ref_n r))"

definition ref_ok :: "erlang_ref \<Rightarrow> bool" where
  "ref_ok r \<longleftrightarrow> 0 \<in> set (ref_node r) \<and> 0 \<le> ref_len r \<and> ref_len r \<le> int (length (ref_n r))"

definition ref_key :: "erlang_ref \<Rightarrow> bytes \<times> u32 \<times> nat" where
  "ref_key r = (c_string (ref_node r), ref_creation r, ref_val r)"

definition pid_key :: "erlang_pid \<Rightarrow> u32 \<times> u32 \<times> bytes \<times> u32" where
  "pid_key p = (pid_serial p, pid_num p, c_string (pid_node p), pid_creation p)"

definition port_key :: "erlang_port \<Rightarrow> bytes \<times> u32 \<times> u64" where
  "port_key p = (c_string (port_node p), port_creation p, port_id p)"

lemma cmp_pair: "cmp (a, b) (c, d) = (if cmp a c \<noteq> 0 then cmp a c else cmp b d)"
  by (auto simp: cmp_def)

lemma cmp_word: "(if x = y then 0 else if x < y then -1 else 1) = cmp x y" "(if x < y then -1 else 1) = cmp x y \<longleftrightarrow> x \<noteq> y"
  by (auto simp: cmp_def)

lemma strcmp_cmp:
  "0 \<in> set a \<Longrightarrow> 0 \<in> set b \<Longrightarrow> strcmp a b = Some (cmp (c_string a) (c_string b))"
proof (induction a b rule: strcmp.induct)
  case (1 x xs y ys)
  show ?case
  proof (cases "x = y")
    case True
    with 1 show ?thesis by (auto simp: cmp_def c_string_def)
  next
    case False
    then show ?thesis by (auto simp: cmp_def c_string_def word_gt_0)
  qed
qed simp_all

lemma cmp_nodes_cmp:
  assumes "0 \<in> set a" and "0 \<in> set b"
  shows "cmp_nodes a ca b cb = Some (cmp (c_string a, ca) (c_string b, cb))"
  using strcmp_cmp [OF assms] by (auto simp: cmp_nodes_def cmp_pair cmp_def [of ca])

lemma num_val_append: "num_val (xs @ ys) = num_val xs + 2 ^ (32 * length xs) * num_val ys"
  by (induction xs) (simp_all add: algebra_simps power_add)

lemma num_val_less: "num_val xs < 2 ^ (32 * length xs)"
proof (induction xs)
  case (Cons x xs)
  have "unat x < 2 ^ 32" using unsigned_less [of x] by simp
  moreover have "num_val xs + 1 \<le> 2 ^ (32 * length xs)" using Cons by simp
  then have "2 ^ 32 * (num_val xs + 1) \<le> 2 ^ 32 * (2 ^ (32 * length xs) :: nat)" by (rule mult_le_mono2)
  ultimately show ?case by (simp add: power_add)
qed simp

lemma num_val_zeros: "set xs \<subseteq> {0} \<Longrightarrow> num_val xs = 0"
  by (induction xs) auto

lemma cmp_nums_cmp:
  assumes "k \<le> length xs" and "k \<le> length ys"
  shows "cmp_nums xs ys (int k - 1) = Some (cmp (num_val (take k xs)) (num_val (take k ys)))"
  using assms
proof (induction k)
  case 0
  then show ?case by (subst cmp_nums.simps) (simp add: cmp_def)
next
  case (Suc k)
  have t: "take (Suc k) zs = take k zs @ [zs ! k]" "length (take k zs) = k" if "Suc k \<le> length zs" for zs :: "u32 list"
    using that by (simp_all add: take_Suc_conv_app_nth)
  have v: "num_val (take (Suc k) zs) = num_val (take k zs) + 2 ^ (32 * k) * unat (zs ! k)"
    "num_val (take k zs) < 2 ^ (32 * k)" if "Suc k \<le> length zs" for zs
    using t [OF that] num_val_less [of "take k zs"] by (simp_all add: num_val_append)
  have hi: "a + 2 ^ (32 * k) * m < b + 2 ^ (32 * k) * n" if "a < 2 ^ (32 * k)" "m < n" for a b m n :: nat
  proof -
    have "2 ^ (32 * k) * (m + 1) \<le> 2 ^ (32 * k) * n" using that(2) by (intro mult_le_mono2) simp
    then show ?thesis using that(1) by simp
  qed
  have c: "cmp (num_val (take (Suc k) xs)) (num_val (take (Suc k) ys)) =
      (if xs ! k < ys ! k then -1 else if ys ! k < xs ! k then 1 else cmp (num_val (take k xs)) (num_val (take k ys)))"
  proof (cases "xs ! k" "ys ! k" rule: linorder_cases)
    case less
    with hi [of "num_val (take k xs)" "unat (xs ! k)" "unat (ys ! k)" "num_val (take k ys)"] v Suc.prems
    show ?thesis by (simp add: cmp_def word_less_nat_alt)
  next
    case equal
    with v Suc.prems show ?thesis by (simp add: cmp_def)
  next
    case greater
    with hi [of "num_val (take k ys)" "unat (ys ! k)" "unat (xs ! k)" "num_val (take k xs)"] v Suc.prems
    show ?thesis by (simp add: cmp_def word_less_nat_alt)
  qed
  show ?case
    using Suc by (subst cmp_nums.simps) (simp add: num_at_def c)
qed

lemma extra_nonzero_eq:
  assumes "n \<le> length nums" and "m \<le> n"
  shows "extra_nonzero nums (int n) (int m) = Some (num_val (take n nums) \<noteq> num_val (take m nums))
    \<and> num_val (take m nums) \<le> num_val (take n nums)
    \<and> (num_val (take n nums) \<noteq> num_val (take m nums) \<longrightarrow> 2 ^ (32 * m) \<le> num_val (take n nums))"
  using assms
proof (induction "n - m" arbitrary: n)
  case 0
  then show ?case by (subst extra_nonzero.simps) simp
next
  case (Suc d)
  then obtain k where n: "n = Suc k" "m \<le> k" "d = k - m" by (cases n) auto
  with Suc.prems have t: "take n nums = take k nums @ [nums ! k]" "k < length nums"
    by (simp_all add: take_Suc_conv_app_nth)
  then have v: "num_val (take n nums) = num_val (take k nums) + 2 ^ (32 * k) * unat (nums ! k)"
    by (simp add: num_val_append)
  have e: "extra_nonzero nums (int n) (int m) =
      (if nums ! k \<noteq> 0 then Some True else extra_nonzero nums (int k) (int m))"
    using n t(2) by (subst extra_nonzero.simps) (simp add: num_at_def)
  have IH: "extra_nonzero nums (int k) (int m) = Some (num_val (take k nums) \<noteq> num_val (take m nums))
    \<and> num_val (take m nums) \<le> num_val (take k nums)
    \<and> (num_val (take k nums) \<noteq> num_val (take m nums) \<longrightarrow> 2 ^ (32 * m) \<le> num_val (take k nums))"
    using Suc.hyps(1) [OF n(3)] n(2) t(2) by simp
  show ?case
  proof (cases "nums ! k = 0")
    case True
    then show ?thesis using IH v e by simp
  next
    case False
    then have "0 < unat (nums ! k)" by (simp add: unat_gt_0)
    then have "(2 :: nat) ^ (32 * k) \<le> 2 ^ (32 * k) * unat (nums ! k)" by simp
    then have "2 ^ (32 * k) \<le> num_val (take n nums)" using v by linarith
    moreover have "(2 :: nat) ^ (32 * m) \<le> 2 ^ (32 * k)" using n(2) by simp
    ultimately have hi: "2 ^ (32 * m) \<le> num_val (take n nums)" by linarith
    moreover have "num_val (take m nums) < 2 ^ (32 * m)" using num_val_less [of "take m nums"] n(2) t(2) by simp
    ultimately have "num_val (take m nums) < num_val (take n nums)" by linarith
    with hi show ?thesis using False e by simp
  qed
qed

lemma extra_nonzero_le: "len \<le> other \<Longrightarrow> extra_nonzero nums len other = Some False"
  by (simp add: extra_nonzero.simps)

section \<open>Properties\<close>

text \<open>
  C29. References compare as their node name, creation and number, in this order of weight: numbers
  of different length compare as if filled up with zeros.
\<close>

theorem ei_cmp_refs_key:
  assumes "ref_ok a" and "ref_ok b"
  shows "ei_cmp_refs a b = Some (cmp (ref_key a) (ref_key b))"
proof -
  from assms obtain m n where len: "ref_len a = int m" "ref_len b = int n" "m \<le> length (ref_n a)" "n \<le> length (ref_n b)"
    by (metis ref_ok_def nonneg_int_cases of_nat_le_iff)
  have nodes: "cmp_nodes (ref_node a) (ref_creation a) (ref_node b) (ref_creation b) =
      Some (cmp (c_string (ref_node a), ref_creation a) (c_string (ref_node b), ref_creation b))"
    using assms by (intro cmp_nodes_cmp) (simp_all add: ref_ok_def)
  have vals: "ref_val a = num_val (take m (ref_n a))" "ref_val b = num_val (take n (ref_n b))"
    by (simp_all add: ref_val_def len)
  have "do { xa \<leftarrow> extra_nonzero (ref_n a) (int m) (int n);
        (if xa then Some 1 else do { xb \<leftarrow> extra_nonzero (ref_n b) (int n) (int m);
          (if xb then Some (-1) else cmp_nums (ref_n a) (ref_n b) (min (int m) (int n) - 1)) }) }
      = Some (cmp (ref_val a) (ref_val b))"
  proof (cases "m \<le> n")
    case True
    have "num_val (take m (ref_n a)) < 2 ^ (32 * m)" using num_val_less [of "take m (ref_n a)"] len by simp
    with extra_nonzero_eq [OF len(4) True] extra_nonzero_le [of "int m" "int n"] True len(3,4)
      cmp_nums_cmp [of m "ref_n a" "ref_n b"]
    show ?thesis by (auto simp: vals cmp_def)
  next
    case False
    then have "n \<le> m" by simp
    have "num_val (take n (ref_n b)) < 2 ^ (32 * n)" using num_val_less [of "take n (ref_n b)"] len by simp
    with extra_nonzero_eq [OF len(3) \<open>n \<le> m\<close>] extra_nonzero_le [of "int n" "int m"] False len(3,4)
      cmp_nums_cmp [of n "ref_n a" "ref_n b"]
    show ?thesis by (auto simp: vals cmp_def)
  qed
  then show ?thesis
    unfolding ei_cmp_refs_def ref_key_def nodes Let_def len
    by (simp add: cmp_pair)
qed

theorem ei_cmp_refs_key_witness:
  "ei_cmp_refs \<lparr>ref_node = [0x61, 0], ref_len = 1, ref_n = [7, 9], ref_creation = 3\<rparr>
      \<lparr>ref_node = [0x61, 0], ref_len = 2, ref_n = [7, 0], ref_creation = 3\<rparr> = Some 0"
  using ei_cmp_refs_key [of "\<lparr>ref_node = [0x61, 0], ref_len = 1, ref_n = [7, 9], ref_creation = 3\<rparr>"
      "\<lparr>ref_node = [0x61, 0], ref_len = 2, ref_n = [7, 0], ref_creation = 3\<rparr>"]
  by (simp add: ref_ok_def ref_key_def ref_val_def cmp_def)

text \<open>
  C30. Process identifiers compare as their serial, number, node name and creation; ports as their
  node name, creation and number.
\<close>

theorem ei_cmp_pids_ports_key:
  assumes "0 \<in> set (pid_node a)" and "0 \<in> set (pid_node b)" and "0 \<in> set (port_node p)" and "0 \<in> set (port_node q)"
  shows "ei_cmp_pids a b = Some (cmp (pid_key a) (pid_key b)) \<and> ei_cmp_ports p q = Some (cmp (port_key p) (port_key q))"
  using cmp_nodes_cmp [OF assms(1,2), of "pid_creation a" "pid_creation b"]
    cmp_nodes_cmp [OF assms(3,4), of "port_creation p" "port_creation q"]
  by (auto simp: ei_cmp_pids_def ei_cmp_ports_def pid_key_def port_key_def cmp_pair cmp_def [of "pid_serial a"]
      cmp_def [of "pid_num a"] cmp_def [of "port_id p"])

theorem ei_cmp_pids_ports_key_witness:
  "ei_cmp_pids \<lparr>pid_node = [0x61, 0], pid_num = 1, pid_serial = 2, pid_creation = 0\<rparr>
      \<lparr>pid_node = [0x62, 0], pid_num = 1, pid_serial = 2, pid_creation = 0\<rparr> = Some (-1)"
  using ei_cmp_pids_ports_key [of "\<lparr>pid_node = [0x61, 0], pid_num = 1, pid_serial = 2, pid_creation = 0\<rparr>"
      "\<lparr>pid_node = [0x62, 0], pid_num = 1, pid_serial = 2, pid_creation = 0\<rparr>"
      "\<lparr>port_node = [0], port_id = 0, port_creation = 0\<rparr>" "\<lparr>port_node = [0], port_id = 0, port_creation = 0\<rparr>"]
  by (simp add: pid_key_def cmp_def c_string_def)

end
