(* ===== verification/Erts_Hash.thy ===== *)
theory Erts_Hash
  imports Prelude "HOL-Library.Multiset"
begin

text \<open>
  The general hash table of the emulator: \<open>erts/emulator/beam/hash.c\<close> and \<open>hash.h\<close>, for 64-bit
  words.  The table is an array of chains; a chain is the list of its buckets, each an object with
  the hash value stored in it.  The table refines a finite map from keys to objects.
\<close>

section \<open>Definitions\<close>

text \<open>
  The functions a client of a table provides: templates are hashed, compared with objects (zero is
  equality) and turned into new objects.  Those that only concern memory and printing are left out.
\<close>

record ('t, 'o) HashFunctions =
  hash :: "'t \<Rightarrow> u64"
  cmp :: "'t \<Rightarrow> 'o \<Rightarrow> int"
  alloc :: "'t \<Rightarrow> 'o"

text \<open>
  The members of the C struct that the operations use.  \<open>shift\<close> and \<open>max_shift\<close> are between 1 and
  63; the counters are unbounded here and C \<open>int\<close>s in the source, which is the same for tables of
  less than \<open>2 ^ 27\<close> chains.
\<close>

record 'o Hash =
  shift :: nat
  max_shift :: nat
  shrink_threshold :: int
  grow_threshold :: int
  nobjs :: int
  bucket :: "(u64 \<times> 'o) list list"

abbreviation MAX_SHIFT :: nat where "MAX_SHIFT \<equiv> 64"

definition hash_get_slots :: "'o Hash \<Rightarrow> nat" where
  "hash_get_slots h = 2 ^ (MAX_SHIFT - shift h)"

text \<open>Fibonacci hashing: the chain of a hash value.\<close>

definition hash_get_slot :: "nat \<Rightarrow> u64 \<Rightarrow> nat" where
  "hash_get_slot sh hv =
     (let hv = hv XOR drop_bit sh hv in unat (drop_bit sh (11400714819323198485 * hv)))"

definition set_thresholds :: "'o Hash \<Rightarrow> 'o Hash" where
  "set_thresholds h = h\<lparr>grow_threshold := 8 * int (hash_get_slots h) div 5,
     shrink_threshold := (if shift h < max_shift h then int (hash_get_slots h) div 5 else -1)\<rparr>"

text \<open>The loop that finds the number of bits; shifting by the width of a word is undefined.\<close>

function init_shift :: "u64 \<Rightarrow> nat \<Rightarrow> nat option" where
  "init_shift n sh =
     (if sh < 64 then if push_bit sh 1 < n then init_shift n (Suc sh) else Some sh
      else None)"
  by pat_completeness auto
termination
  by (relation "measure (\<lambda>(n, sh). 64 - sh)") auto

declare init_shift.simps [simp del]

text \<open>The requested size is converted to an unsigned word in the comparison.\<close>

definition hash_init :: "u32 \<Rightarrow> 'o Hash option" where
  "hash_init n = do {
     sh \<leftarrow> init_shift (scast n) 1;
     let h = set_thresholds \<lparr>shift = MAX_SHIFT - sh, max_shift = MAX_SHIFT - sh, shrink_threshold = 0,
               grow_threshold = 0, nobjs = 0, bucket = []\<rparr>;
     Some (h\<lparr>bucket := replicate (hash_get_slots h) []\<rparr>) }"

text \<open>Moving one bucket to the head of its chain in the new array.\<close>

definition move_bucket :: "nat \<Rightarrow> (u64 \<times> 'o) \<Rightarrow> (u64 \<times> 'o) list list \<Rightarrow> (u64 \<times> 'o) list list" where
  "move_bucket sh b new_bucket =
     (let ix = hash_get_slot sh (fst b) in new_bucket[ix := b # new_bucket ! ix])"

definition rehash :: "'o Hash \<Rightarrow> bool \<Rightarrow> 'o Hash" where
  "rehash h grow =
     (if \<not> grow \<and> shift h = max_shift h then h
      else
        let sh = (if grow then shift h - 1 else shift h + 1);
            new_bucket = replicate (2 ^ (MAX_SHIFT - sh)) []
        in set_thresholds (h\<lparr>shift := sh, bucket := fold (move_bucket sh) (concat (bucket h)) new_bucket\<rparr>))"

text \<open>The search along a chain, shared by the operations.\<close>

fun find_bucket :: "('t, 'o) HashFunctions \<Rightarrow> 't \<Rightarrow> u64 \<Rightarrow> (u64 \<times> 'o) list \<Rightarrow> 'o option" where
  "find_bucket f tmpl hval [] = None"
| "find_bucket f tmpl hval ((hv, b) # bs) =
     (if hv = hval \<and> cmp f tmpl b = 0 then Some b else find_bucket f tmpl hval bs)"

definition hash_fetch :: "('t, 'o) HashFunctions \<Rightarrow> 'o Hash \<Rightarrow> 't \<Rightarrow> 'o option" where
  "hash_fetch f h tmpl =
     (let hval = hash f tmpl in find_bucket f tmpl hval (bucket h ! hash_get_slot (shift h) hval))"

definition hash_get :: "('t, 'o) HashFunctions \<Rightarrow> 'o Hash \<Rightarrow> 't \<Rightarrow> 'o option" where
  "hash_get f h tmpl = hash_fetch f h tmpl"

definition hash_put :: "('t, 'o) HashFunctions \<Rightarrow> 'o Hash \<Rightarrow> 't \<Rightarrow> 'o \<times> 'o Hash" where
  "hash_put f h tmpl =
     (let hval = hash f tmpl; ix = hash_get_slot (shift h) hval in
      case find_bucket f tmpl hval (bucket h ! ix) of
        Some b \<Rightarrow> (b, h)
      | None \<Rightarrow>
          let b = alloc f tmpl;
              h = h\<lparr>bucket := (bucket h)[ix := (hval, b) # bucket h ! ix], nobjs := nobjs h + 1\<rparr>
          in (b, if nobjs h > grow_threshold h then rehash h True else h))"

text \<open>Unlinking the bucket that the search finds.\<close>

fun unlink_bucket :: "('t, 'o) HashFunctions \<Rightarrow> 't \<Rightarrow> u64 \<Rightarrow> (u64 \<times> 'o) list \<Rightarrow> (u64 \<times> 'o) list" where
  "unlink_bucket f tmpl hval [] = []"
| "unlink_bucket f tmpl hval ((hv, b) # bs) =
     (if hv = hval \<and> cmp f tmpl b = 0 then bs else (hv, b) # unlink_bucket f tmpl hval bs)"

text \<open>The removed object, which \<open>hash_remove\<close> returns and \<open>hash_erase\<close> frees, and the table.\<close>

definition hash_remove :: "('t, 'o) HashFunctions \<Rightarrow> 'o Hash \<Rightarrow> 't \<Rightarrow> 'o option \<times> 'o Hash" where
  "hash_remove f h tmpl =
     (let hval = hash f tmpl; ix = hash_get_slot (shift h) hval in
      case find_bucket f tmpl hval (bucket h ! ix) of
        None \<Rightarrow> (None, h)
      | Some b \<Rightarrow>
          let h = h\<lparr>bucket := (bucket h)[ix := unlink_bucket f tmpl hval (bucket h ! ix)], nobjs := nobjs h - 1\<rparr>
          in (Some b, if nobjs h < shrink_threshold h then rehash h False else h))"

definition hash_erase :: "('t, 'o) HashFunctions \<Rightarrow> 'o Hash \<Rightarrow> 't \<Rightarrow> 't option \<times> 'o Hash" where
  "hash_erase f h tmpl =
     (let hval = hash f tmpl; ix = hash_get_slot (shift h) hval in
      case find_bucket f tmpl hval (bucket h ! ix) of
        None \<Rightarrow> (None, h)
      | Some b \<Rightarrow>
          let h = h\<lparr>bucket := (bucket h)[ix := unlink_bucket f tmpl hval (bucket h ! ix)], nobjs := nobjs h - 1\<rparr>
          in (Some tmpl, if nobjs h < shrink_threshold h then rehash h False else h))"

text \<open>The objects in the order in which \<open>hash_foreach\<close> calls its function and \<open>hash_delete\<close> frees.\<close>

definition hash_foreach :: "'o Hash \<Rightarrow> ('o \<Rightarrow> 's \<Rightarrow> 's) \<Rightarrow> 's \<Rightarrow> 's" where
  "hash_foreach h f s = fold f (map snd (concat (bucket h))) s"

definition hash_delete :: "'o Hash \<Rightarrow> 'o list" where
  "hash_delete h = map snd (concat (bucket h))"

record HashInfo =
  hi_size :: nat
  hi_used :: nat
  hi_objs :: int
  hi_depth :: nat

fun chain_info :: "'a list list \<Rightarrow> nat \<Rightarrow> nat \<Rightarrow> nat \<times> nat" where
  "chain_info [] used max_depth = (used, max_depth)"
| "chain_info (b # bs) used max_depth =
     (let depth = length b in
      if depth \<noteq> 0 then chain_info bs (used + 1) (if depth > max_depth then depth else max_depth)
      else chain_info bs used max_depth)"

definition hash_get_info :: "'o Hash \<Rightarrow> HashInfo" where
  "hash_get_info h = (let (used, max_depth) = chain_info (bucket h) 0 0 in
     \<lparr>hi_size = hash_get_slots h, hi_used = used, hi_objs = nobjs h, hi_depth = max_depth\<rparr>)"

section \<open>Slots\<close>

lemma hash_get_slot_less:
  assumes "sh \<le> 64"
  shows "hash_get_slot sh hv < 2 ^ (64 - sh)"
proof -
  have "unat w < 2 ^ 64" for w :: u64 using unsigned_less [of w] by simp
  then have "unat w < 2 ^ (64 - sh) * 2 ^ sh" for w :: u64 using assms by (simp flip: power_add)
  then have "unat w div 2 ^ sh < 2 ^ (64 - sh)" for w :: u64 by (simp add: less_mult_imp_div_less)
  moreover have "unat (drop_bit sh w) = unat w div 2 ^ sh" for w :: u64
    by (simp only: unat_drop_bit_eq drop_bit_nat_def)
  ultimately show ?thesis unfolding hash_get_slot_def Let_def by simp
qed

section \<open>The abstract map\<close>

text \<open>What is stored, as pairs of key and object, and the map it stands for.\<close>

definition hash_entries :: "('o \<Rightarrow> 'k) \<Rightarrow> (u64 \<times> 'o) list \<Rightarrow> ('k \<times> 'o) list" where
  "hash_entries okey bs = map (\<lambda>(hv, b). (okey b, b)) bs"

definition hash_map :: "('o \<Rightarrow> 'k) \<Rightarrow> 'o Hash \<Rightarrow> 'k \<rightharpoonup> 'o" where
  "hash_map okey h = map_of (hash_entries okey (concat (bucket h)))"

text \<open>
  The invariant: the number of chains is at most \<open>2 ^ 27\<close>, so that \<open>8 * hash_get_slots\<close> is within
  the range of a C \<open>int\<close>, the array has a length that matches \<open>shift\<close>, every bucket carries the hash value of
  its key and is in the chain of this value, no key occurs twice, the counters are right, and the
  load is within the threshold.
\<close>

definition chains_ok :: "('o \<Rightarrow> 'k) \<Rightarrow> ('k \<Rightarrow> u64) \<Rightarrow> nat \<Rightarrow> (u64 \<times> 'o) list list \<Rightarrow> bool" where
  "chains_ok okey hkey sh bs \<longleftrightarrow> length bs = 2 ^ (64 - sh)
     \<and> (\<forall>i < length bs. \<forall>(hv, b) \<in> set (bs ! i). hv = hkey (okey b) \<and> hash_get_slot sh hv = i)
     \<and> distinct (map fst (hash_entries okey (concat bs)))"

definition hash_ok :: "('o \<Rightarrow> 'k) \<Rightarrow> ('k \<Rightarrow> u64) \<Rightarrow> 'o Hash \<Rightarrow> bool" where
  "hash_ok okey hkey h \<longleftrightarrow> 37 \<le> shift h \<and> shift h \<le> max_shift h \<and> max_shift h < 64
     \<and> chains_ok okey hkey (shift h) (bucket h)
     \<and> nobjs h = int (length (concat (bucket h))) \<and> nobjs h \<le> grow_threshold h
     \<and> h = set_thresholds h"

lemma hash_entries_mset:
  "mset bs = mset cs \<Longrightarrow> mset (hash_entries okey bs) = mset (hash_entries okey cs)"
  by (simp add: hash_entries_def)

lemma distinct_keys_mset:
  "mset bs = mset cs \<Longrightarrow>
   distinct (map fst (hash_entries okey bs)) \<longleftrightarrow> distinct (map fst (hash_entries okey cs))"
  by (rule mset_eq_imp_distinct_iff) (simp add: hash_entries_def)

lemma map_of_entries_mset:
  assumes "mset bs = mset cs" and "distinct (map fst (hash_entries okey bs))"
  shows "map_of (hash_entries okey bs) = map_of (hash_entries okey cs)"
  using assms distinct_keys_mset [OF assms(1)] hash_entries_mset [OF assms(1), of okey]
  by (metis map_of_inject_set mset_eq_setD)

lemma mset_concat_update:
  "i < length bss \<Longrightarrow> mset (concat (bss[i := bs])) + mset (bss ! i) = mset (concat bss) + mset bs"
  by (induction bss arbitrary: i) (auto split: nat.split simp: ac_simps)

lemma map_of_concat:
  assumes "i < length bss" and "\<And>j. j < length bss \<Longrightarrow> j \<noteq> i \<Longrightarrow> k \<notin> fst ` set (bss ! j)"
  shows "map_of (concat bss) k = map_of (bss ! i) k"
  using assms
proof (induction bss arbitrary: i)
  case (Cons bs bss)
  show ?case
  proof (cases i)
    case 0
    have "k \<notin> fst ` set (concat bss)"
    proof
      assume "k \<in> fst ` set (concat bss)"
      then obtain j where "j < length bss" "k \<in> fst ` set (bss ! j)" by (auto simp: set_conv_nth [of bss])
      with Cons.prems(2) [of "Suc j"] 0 show False by simp
    qed
    then have "map_of (concat bss) k = None" by (simp add: map_of_eq_None_iff)
    with 0 show ?thesis by (simp add: map_add_def split: option.split)
  next
    case (Suc i')
    have "k \<notin> fst ` set bs" using Cons.prems(2) [of 0] Suc by simp
    then have "map_of bs k = None" by (simp add: map_of_eq_None_iff)
    moreover have "map_of (concat bss) k = map_of (bss ! i') k"
      using Cons.prems Suc by (intro Cons.IH) fastforce+
    ultimately show ?thesis using Suc by (simp add: map_add_def split: option.split)
  qed
qed simp

text \<open>A key can only be in the chain of its hash value.\<close>

lemma lookup_chain:
  assumes "chains_ok okey hkey sh bs" and "sh \<le> 64"
  shows "map_of (hash_entries okey (concat bs)) k =
    map_of (hash_entries okey (bs ! hash_get_slot sh (hkey k))) k"
proof -
  let ?i = "hash_get_slot sh (hkey k)" and ?es = "map (hash_entries okey) bs"
  have "hash_entries okey (concat bs) = concat ?es" by (simp add: hash_entries_def [abs_def] map_concat)
  moreover have i: "?i < length bs" using assms(1) hash_get_slot_less [OF assms(2), of "hkey k"] by (simp add: chains_ok_def)
  moreover have "map_of (concat ?es) k = map_of (?es ! ?i) k"
  proof (rule map_of_concat)
    fix j assume j: "j < length ?es" "j \<noteq> ?i"
    then show "k \<notin> fst ` set (?es ! j)"
      using assms(1) by (fastforce simp: chains_ok_def hash_entries_def)
  qed (use i in simp)
  ultimately show ?thesis by simp
qed

lemma chains_okD:
  "chains_ok okey hkey sh bs \<Longrightarrow> i < length bs \<Longrightarrow> (hv, b) \<in> set (bs ! i) \<Longrightarrow>
   hv = hkey (okey b) \<and> hash_get_slot sh (hkey (okey b)) = i"
  by (auto simp: chains_ok_def)

section \<open>Rehashing\<close>

lemma move_bucket_mset:
  assumes "sh \<le> 64" and "length bss = 2 ^ (64 - sh)"
  shows "mset (concat (move_bucket sh b bss)) = add_mset b (mset (concat bss))"
    and "length (move_bucket sh b bss) = length bss"
proof -
  let ?i = "hash_get_slot sh (fst b)"
  have "?i < length bss" using hash_get_slot_less [OF assms(1)] assms(2) by simp
  from mset_concat_update [OF this, of "b # bss ! ?i"]
  show "mset (concat (move_bucket sh b bss)) = add_mset b (mset (concat bss))" by (simp add: move_bucket_def Let_def)
  show "length (move_bucket sh b bss) = length bss" by (simp add: move_bucket_def Let_def)
qed

lemma move_buckets:
  assumes "sh \<le> 64" and "length bss = 2 ^ (64 - sh)"
    and "\<And>i hv b. i < length bss \<Longrightarrow> (hv, b) \<in> set (bss ! i) \<Longrightarrow> hash_get_slot sh hv = i"
  shows "mset (concat (fold (move_bucket sh) bs bss)) = mset bs + mset (concat bss)
    \<and> length (fold (move_bucket sh) bs bss) = length bss
    \<and> (\<forall>i < length bss. \<forall>(hv, b) \<in> set (fold (move_bucket sh) bs bss ! i). hash_get_slot sh hv = i)"
  using assms
proof (induction bs arbitrary: bss)
  case (Cons b bs)
  note m = move_bucket_mset [OF Cons.prems(1,2), of b]
  have "hash_get_slot sh hv = i" if "i < length (move_bucket sh b bss)" "(hv, c) \<in> set (move_bucket sh b bss ! i)" for i hv c
    using that Cons.prems(3) m(2)
    by (cases "hash_get_slot sh (fst b) = i") (auto simp: move_bucket_def Let_def split: if_splits)
  with Cons.IH [of "move_bucket sh b bss"] m Cons.prems(1,2) show ?case by simp
qed auto

text \<open>Rehashing to another size permutes the buckets.\<close>

lemma chains_ok_move:
  assumes "chains_ok okey hkey sh bs" and "sh' \<le> 64"
  defines "bs' \<equiv> fold (move_bucket sh') (concat bs) (replicate (2 ^ (64 - sh')) [])"
  shows "chains_ok okey hkey sh' bs' \<and> mset (concat bs') = mset (concat bs)"
proof -
  have m: "mset (concat bs') = mset (concat bs)" "length bs' = 2 ^ (64 - sh')"
    and slot: "\<And>i hv b. i < length bs' \<Longrightarrow> (hv, b) \<in> set (bs' ! i) \<Longrightarrow> hash_get_slot sh' hv = i"
    using move_buckets [OF assms(2), of "replicate (2 ^ (64 - sh')) []" "concat bs"] unfolding bs'_def
    by (auto simp: concat_replicate_trivial)
  have "hv = hkey (okey b)" if "i < length bs'" "(hv, b) \<in> set (bs' ! i)" for i hv b
  proof -
    have "(hv, b) \<in> set (concat bs')" using that by auto
    then have "(hv, b) \<in> set (concat bs)" using m(1) by (metis set_mset_mset)
    then obtain j where "j < length bs" "(hv, b) \<in> set (bs ! j)" by (auto simp: in_set_conv_nth [of _ bs])
    with chains_okD [OF assms(1)] show ?thesis by blast
  qed
  moreover have "distinct (map fst (hash_entries okey (concat bs')))"
    using distinct_keys_mset [OF m(1), of okey] assms(1) by (simp add: chains_ok_def)
  ultimately show ?thesis using m slot by (auto simp: chains_ok_def)
qed

lemma set_thresholds_simps [simp]:
  "shift (set_thresholds h) = shift h" "max_shift (set_thresholds h) = max_shift h" "nobjs (set_thresholds h) = nobjs h"
  "bucket (set_thresholds h) = bucket h" "set_thresholds (set_thresholds h) = set_thresholds h"
  "grow_threshold (set_thresholds h) = 8 * int (2 ^ (64 - shift h)) div 5"
  "shrink_threshold (set_thresholds h) = (if shift h < max_shift h then int (2 ^ (64 - shift h)) div 5 else -1)"
  by (simp_all add: set_thresholds_def hash_get_slots_def)

text \<open>
  A table whose load is off by one after an operation is sound again after rehashing: growing
  doubles the number of chains, shrinking halves it.
\<close>

lemma load_grow: "0 < s \<Longrightarrow> n \<le> 8 * s div 5 + 1 \<Longrightarrow> n \<le> 16 * s div 5" for s n :: int
  by linarith

lemma load_shrink: "0 < s \<Longrightarrow> n \<le> 2 * s div 5 \<Longrightarrow> n \<le> 8 * s div 5" for s n :: int
  by linarith

lemma rehash_ok:
  assumes "chains_ok okey hkey (shift h) (bucket h)" and "37 \<le> shift h \<and> shift h \<le> max_shift h" and "max_shift h < 64"
    and "nobjs h = int (length (concat (bucket h)))"
  shows "grow \<Longrightarrow> 37 < shift h \<Longrightarrow> nobjs h \<le> 8 * 2 ^ (64 - shift h) div 5 + 1 \<Longrightarrow> hash_ok okey hkey (rehash h grow)"
    and "\<not> grow \<Longrightarrow> shift h < max_shift h \<Longrightarrow> nobjs h \<le> 2 ^ (64 - shift h) div 5 \<Longrightarrow> hash_ok okey hkey (rehash h grow)"
    and "mset (concat (bucket (rehash h grow))) = mset (concat (bucket h))"
proof -
  define sh' where "sh' = (if grow then shift h - 1 else shift h + 1)"
  define bs' where "bs' = fold (move_bucket sh') (concat (bucket h)) (replicate (2 ^ (64 - sh')) [])"
  have "sh' \<le> 64" using assms(2,3) by (auto simp: sh'_def)
  from chains_ok_move [OF assms(1) this] have c: "chains_ok okey hkey sh' bs'" "mset (concat bs') = mset (concat (bucket h))"
    by (simp_all add: bs'_def)
  have r: "rehash h grow = set_thresholds (h\<lparr>shift := sh', bucket := bs'\<rparr>)" if "grow \<or> shift h < max_shift h"
    using that by (auto simp: rehash_def sh'_def bs'_def Let_def)
  show "mset (concat (bucket (rehash h grow))) = mset (concat (bucket h))"
    using r c(2) by (cases "grow \<or> shift h < max_shift h") (use assms(2) in \<open>auto simp: rehash_def\<close>)
  have n: "nobjs h = int (length (concat bs'))" using assms(4) mset_eq_length [OF c(2)] by simp
  show "hash_ok okey hkey (rehash h grow)" if "grow" "37 < shift h" "nobjs h \<le> 8 * 2 ^ (64 - shift h) div 5 + 1"
  proof -
    have "64 - sh' = Suc (64 - shift h)" using that assms(2,3) by (simp add: sh'_def)
    then have "nobjs h \<le> 8 * 2 ^ (64 - sh') div 5" using that(3) load_grow [of "2 ^ (64 - shift h)"] by simp
    with c(1) n r that assms(2,3) show ?thesis by (auto simp: hash_ok_def sh'_def)
  qed
  show "hash_ok okey hkey (rehash h grow)" if "\<not> grow" "shift h < max_shift h" "nobjs h \<le> 2 ^ (64 - shift h) div 5"
  proof -
    have "64 - shift h = Suc (64 - sh')" using that assms(2,3) by (simp add: sh'_def)
    then have "nobjs h \<le> 8 * 2 ^ (64 - sh') div 5" using that(3) load_shrink [of "2 ^ (64 - sh')"] by simp
    with c(1) n r that assms(2,3) show ?thesis by (auto simp: hash_ok_def sh'_def)
  qed
qed

lemma rehash_map:
  assumes "chains_ok okey hkey (shift h) (bucket h)" and "37 \<le> shift h \<and> shift h \<le> max_shift h" and "max_shift h < 64"
    and "nobjs h = int (length (concat (bucket h)))"
  shows "hash_map okey (rehash h grow) = hash_map okey h"
  unfolding hash_map_def
  by (rule map_of_entries_mset [symmetric, OF rehash_ok(3) [OF assms, symmetric]]) (use assms(1) in \<open>simp add: chains_ok_def\<close>)

lemma hash_okD:
  assumes "hash_ok okey hkey h"
  shows "37 \<le> shift h" "shift h \<le> max_shift h" "max_shift h < 64" "shift h \<le> 64"
    and "chains_ok okey hkey (shift h) (bucket h)"
    and "nobjs h = int (length (concat (bucket h)))" and "nobjs h \<le> grow_threshold h"
  using assms unfolding hash_ok_def by linarith+

lemma hash_ok_thresholds:
  assumes "hash_ok okey hkey h"
  shows "h = set_thresholds h" and "grow_threshold h = 8 * 2 ^ (64 - shift h) div 5"
    and "shrink_threshold h = (if shift h < max_shift h then 2 ^ (64 - shift h) div 5 else -1)"
proof -
  show "h = set_thresholds h" using assms by (simp only: hash_ok_def)
  then have "grow_threshold h = grow_threshold (set_thresholds h)" "shrink_threshold h = shrink_threshold (set_thresholds h)"
    by (rule arg_cong)+
  then show "grow_threshold h = 8 * 2 ^ (64 - shift h) div 5"
    and "shrink_threshold h = (if shift h < max_shift h then 2 ^ (64 - shift h) div 5 else -1)" by simp_all
qed

lemma set_thresholds_update:
  assumes "h = set_thresholds h"
  shows "h\<lparr>bucket := bs, nobjs := n\<rparr> = set_thresholds (h\<lparr>bucket := bs, nobjs := n\<rparr>)"
proof -
  have "set_thresholds (h\<lparr>bucket := bs, nobjs := n\<rparr>) = (set_thresholds h)\<lparr>bucket := bs, nobjs := n\<rparr>"
    by (simp add: set_thresholds_def hash_get_slots_def)
  then show ?thesis by (simp only: assms [symmetric])
qed

section \<open>The operations\<close>

text \<open>The contract of a client: keys that determine hash values, comparison and new objects.\<close>

locale hash_client =
  fixes f :: "('t, 'o) HashFunctions"
    and tkey :: "'t \<Rightarrow> 'k"
    and okey :: "'o \<Rightarrow> 'k"
    and hkey :: "'k \<Rightarrow> u64"
  assumes hash_key: "hash f t = hkey (tkey t)"
    and cmp_key: "cmp f t b = 0 \<longleftrightarrow> tkey t = okey b"
begin

lemma find_bucket_map:
  "\<forall>(hv, b) \<in> set bs. hv = hkey (okey b) \<Longrightarrow>
   find_bucket f t (hkey (tkey t)) bs = map_of (hash_entries okey bs) (tkey t)"
  by (induction bs) (auto simp: hash_entries_def cmp_key)

lemma unlink_bucket_mset:
  "find_bucket f t hval bs = Some b \<Longrightarrow> \<exists>hv. hv = hval \<and> tkey t = okey b \<and> mset bs = add_mset (hv, b) (mset (unlink_bucket f t hval bs))"
  by (induction bs) (auto simp: cmp_key split: if_splits)

lemma find_in_table:
  assumes "chains_ok okey hkey sh bs" and "sh \<le> 64"
  shows "find_bucket f t (hash f t) (bs ! hash_get_slot sh (hash f t)) = map_of (hash_entries okey (concat bs)) (tkey t)"
proof -
  let ?i = "hash_get_slot sh (hkey (tkey t))"
  have "?i < length bs" using hash_get_slot_less [OF assms(2)] assms(1) by (simp add: chains_ok_def)
  with chains_okD [OF assms(1)] have "\<forall>(hv, b) \<in> set (bs ! ?i). hv = hkey (okey b)" by blast
  from find_bucket_map [OF this, of t] show ?thesis
    unfolding lookup_chain [OF assms] hash_key .
qed

text \<open>The abstract map after adding or taking away one bucket.\<close>

lemma add_bucket:
  assumes "chains_ok okey hkey sh bs" and "sh \<le> 64" and "map_of (hash_entries okey (concat bs)) (okey b) = None"
  defines "ix \<equiv> hash_get_slot sh (hkey (okey b))"
  shows "chains_ok okey hkey sh (bs[ix := (hkey (okey b), b) # bs ! ix])
    \<and> map_of (hash_entries okey (concat (bs[ix := (hkey (okey b), b) # bs ! ix]))) =
        (map_of (hash_entries okey (concat bs)))(okey b \<mapsto> b)
    \<and> length (concat (bs[ix := (hkey (okey b), b) # bs ! ix])) = Suc (length (concat bs))"
proof -
  let ?e = "(hkey (okey b), b)" and ?bs = "bs[ix := (hkey (okey b), b) # bs ! ix]"
  have ix: "ix < length bs" using hash_get_slot_less [OF assms(2)] assms(1) by (simp add: chains_ok_def ix_def)
  have m: "mset (concat ?bs) = mset (?e # concat bs)" using mset_concat_update [OF ix, of "?e # bs ! ix"] by simp
  have d: "distinct (map fst (hash_entries okey (?e # concat bs)))"
    using assms(1,3) by (simp add: chains_ok_def map_of_eq_None_iff hash_entries_def image_image)
  have "map_of (hash_entries okey (concat ?bs)) = map_of (hash_entries okey (?e # concat bs))"
    using map_of_entries_mset [OF m [symmetric] d] by simp
  also have "\<dots> = (map_of (hash_entries okey (concat bs)))(okey b \<mapsto> b)" by (simp add: hash_entries_def)
  finally have map: "map_of (hash_entries okey (concat ?bs)) = (map_of (hash_entries okey (concat bs)))(okey b \<mapsto> b)" .
  have "chains_ok okey hkey sh ?bs"
    using assms(1) ix distinct_keys_mset [OF m, of okey] d
    by (auto simp: chains_ok_def nth_list_update ix_def split: if_splits)
  with map mset_eq_length [OF m] show ?thesis by simp
qed

lemma remove_bucket:
  assumes "chains_ok okey hkey sh bs" and "sh \<le> 64"
    and "find_bucket f t (hash f t) (bs ! hash_get_slot sh (hash f t)) = Some b"
  defines "ix \<equiv> hash_get_slot sh (hash f t)"
  defines "bs' \<equiv> bs[ix := unlink_bucket f t (hash f t) (bs ! ix)]"
  shows "chains_ok okey hkey sh bs'
    \<and> map_of (hash_entries okey (concat bs')) = (map_of (hash_entries okey (concat bs)))(tkey t := None)
    \<and> length (concat bs) = Suc (length (concat bs'))"
proof -
  have ix: "ix < length bs" using hash_get_slot_less [OF assms(2)] assms(1) by (simp add: chains_ok_def ix_def)
  from unlink_bucket_mset [OF assms(3)] have k: "tkey t = okey b"
    and u: "mset (bs ! ix) = add_mset (hash f t, b) (mset (unlink_bucket f t (hash f t) (bs ! ix)))"
    by (auto simp: ix_def)
  have m: "mset (concat bs) = mset ((hash f t, b) # concat bs')"
    using mset_concat_update [OF ix, of "unlink_bucket f t (hash f t) (bs ! ix)"] u by (simp add: bs'_def)
  have d: "distinct (map fst (hash_entries okey ((hash f t, b) # concat bs')))"
    using distinct_keys_mset [OF m, of okey] assms(1) by (simp add: chains_ok_def)
  then have none: "map_of (hash_entries okey (concat bs')) (tkey t) = None"
    by (simp add: map_of_eq_None_iff hash_entries_def k image_image)
  have "map_of (hash_entries okey (concat bs)) = (map_of (hash_entries okey (concat bs')))(tkey t \<mapsto> b)"
    using map_of_entries_mset [OF m [symmetric] d] by (simp add: hash_entries_def k)
  with none have map: "map_of (hash_entries okey (concat bs')) = (map_of (hash_entries okey (concat bs)))(tkey t := None)"
    by (auto simp: fun_eq_iff)
  have sub: "set (unlink_bucket f t (hash f t) (bs ! ix)) \<subseteq> set (bs ! ix)"
    using arg_cong [OF u, of set_mset] by auto
  have "chains_ok okey hkey sh bs'"
    unfolding chains_ok_def
  proof (intro conjI allI impI)
    show "length bs' = 2 ^ (64 - sh)" using assms(1) by (simp add: bs'_def chains_ok_def)
    show "distinct (map fst (hash_entries okey (concat bs')))" using d by (simp add: hash_entries_def)
    fix i assume "i < length bs'"
    then have "i < length bs" "set (bs' ! i) \<subseteq> set (bs ! i)"
      using sub ix by (auto simp: bs'_def nth_list_update split: if_splits)
    with assms(1) show "\<forall>(hv, b) \<in> set (bs' ! i). hv = hkey (okey b) \<and> hash_get_slot sh hv = i"
      by (fastforce simp: chains_ok_def)
  qed
  with map mset_eq_length [OF m] show ?thesis by simp
qed

lemma find_table:
  assumes "hash_ok okey hkey h"
  shows "find_bucket f t (hash f t) (bucket h ! hash_get_slot (shift h) (hash f t)) = hash_map okey h (tkey t)"
  unfolding hash_map_def by (rule find_in_table) (use hash_okD [OF assms] in simp_all)

lemma hash_get_map:
  "hash_ok okey hkey h \<Longrightarrow> hash_get f h t = hash_map okey h (tkey t)"
  by (simp add: hash_get_def hash_fetch_def Let_def find_table)

lemma hash_put_ok:
  assumes "hash_ok okey hkey h" and "nobjs h < 214748364" and "hash_put f h t = (b, h')"
    and alloc_key: "okey (alloc f t) = tkey t"
  shows "hash_ok okey hkey h' \<and> hash_map okey h' (tkey t) = Some b
    \<and> hash_map okey h' = (if hash_map okey h (tkey t) = None then (hash_map okey h)(tkey t \<mapsto> alloc f t) else hash_map okey h)
    \<and> (hash_map okey h (tkey t) \<noteq> None \<longrightarrow> h' = h)"
proof (cases "hash_map okey h (tkey t)")
  case None
  let ?ix = "hash_get_slot (shift h) (hkey (tkey t))"
  define h1 where "h1 = h\<lparr>bucket := (bucket h)[?ix := (hkey (tkey t), alloc f t) # bucket h ! ?ix], nobjs := nobjs h + 1\<rparr>"
  note inv = hash_okD [OF assms(1)]
  have find: "find_bucket f t (hash f t) (bucket h ! hash_get_slot (shift h) (hash f t)) = None"
    using find_table [OF assms(1)] None by simp
  have put: "b = alloc f t" "h' = (if nobjs h1 > grow_threshold h1 then rehash h1 True else h1)"
    using assms(3) find by (auto simp: hash_put_def h1_def hash_key Let_def)
  from add_bucket [of "shift h" "bucket h" "alloc f t"] inv None
  have add: "chains_ok okey hkey (shift h1) (bucket h1)" "hash_map okey h1 = (hash_map okey h)(tkey t \<mapsto> alloc f t)"
    "length (concat (bucket h1)) = Suc (length (concat (bucket h)))"
    by (simp_all add: h1_def hash_map_def alloc_key)
  have thr: "grow_threshold h = 8 * 2 ^ (64 - shift h) div 5" "h1 = set_thresholds h1"
    using inv hash_ok_thresholds [OF assms(1)] by (auto simp: h1_def intro!: set_thresholds_update)
  have same: "shift h1 = shift h" "max_shift h1 = max_shift h" "nobjs h1 = nobjs h + 1" "grow_threshold h1 = grow_threshold h"
    by (simp_all add: h1_def)
  have "hash_ok okey hkey h' \<and> hash_map okey h' = hash_map okey h1"
  proof (cases "nobjs h1 > grow_threshold h1")
    case True
    have "shift h \<noteq> 37"
    proof
      assume "shift h = 37"
      with True thr(1) same assms(2) show False by simp
    qed
    with inv have "37 < shift h1" by (simp add: same)
    moreover have "nobjs h1 \<le> 8 * 2 ^ (64 - shift h1) div 5 + 1" using inv thr(1) by (simp add: same)
    moreover have n: "37 \<le> shift h1 \<and> shift h1 \<le> max_shift h1" "max_shift h1 < 64" "nobjs h1 = int (length (concat (bucket h1)))"
      using inv add(3) by (simp_all add: same)
    ultimately have "hash_ok okey hkey (rehash h1 True)" by (intro rehash_ok(1) [OF add(1)]) simp_all
    with True put(2) rehash_map [OF add(1) n] show ?thesis by simp
  next
    case False
    with put(2) add(1,3) inv thr(2) same show ?thesis by (simp add: hash_ok_def)
  qed
  with add(2) put(1) None show ?thesis by simp
next
  case (Some c)
  with find_table [OF assms(1), of t] assms(3) have "b = c" "h' = h" by (auto simp: hash_put_def Let_def)
  with assms(1) Some show ?thesis by simp
qed

lemma hash_remove_ok:
  assumes "hash_ok okey hkey h" and "hash_remove f h t = (r, h')"
  shows "hash_ok okey hkey h' \<and> r = hash_map okey h (tkey t) \<and> hash_map okey h' = (hash_map okey h)(tkey t := None)"
proof (cases "hash_map okey h (tkey t)")
  case None
  with find_table [OF assms(1), of t] assms(2) have "r = None" "h' = h" by (auto simp: hash_remove_def Let_def)
  with assms(1) None show ?thesis by auto
next
  case (Some b)
  let ?ix = "hash_get_slot (shift h) (hash f t)"
  define h1 where "h1 = h\<lparr>bucket := (bucket h)[?ix := unlink_bucket f t (hash f t) (bucket h ! ?ix)], nobjs := nobjs h - 1\<rparr>"
  note inv = hash_okD [OF assms(1)]
  have find: "find_bucket f t (hash f t) (bucket h ! ?ix) = Some b"
    using find_table [OF assms(1)] Some by simp
  have rem: "r = Some b" "h' = (if nobjs h1 < shrink_threshold h1 then rehash h1 False else h1)"
    using assms(2) find by (auto simp: hash_remove_def h1_def Let_def)
  from remove_bucket [of "shift h" "bucket h" t b] inv find
  have sub: "chains_ok okey hkey (shift h1) (bucket h1)" "hash_map okey h1 = (hash_map okey h)(tkey t := None)"
    "length (concat (bucket h)) = Suc (length (concat (bucket h1)))"
    by (simp_all add: h1_def hash_map_def)
  have thr: "shrink_threshold h = (if shift h < max_shift h then 2 ^ (64 - shift h) div 5 else -1)" "h1 = set_thresholds h1"
    using inv hash_ok_thresholds [OF assms(1)] by (auto simp: h1_def intro!: set_thresholds_update)
  have same: "shift h1 = shift h" "max_shift h1 = max_shift h" "nobjs h1 = nobjs h - 1" "grow_threshold h1 = grow_threshold h"
    "shrink_threshold h1 = shrink_threshold h"
    by (simp_all add: h1_def)
  have n: "37 \<le> shift h1 \<and> shift h1 \<le> max_shift h1" "max_shift h1 < 64" "nobjs h1 = int (length (concat (bucket h1)))"
    using inv sub(3) by (simp_all add: same)
  have "hash_ok okey hkey h' \<and> hash_map okey h' = hash_map okey h1"
  proof (cases "nobjs h1 < shrink_threshold h1")
    case True
    have "shift h1 < max_shift h1" "nobjs h1 \<le> 2 ^ (64 - shift h1) div 5"
      using True thr(1) n by (auto simp: same split: if_splits)
    with n have "hash_ok okey hkey (rehash h1 False)" by (intro rehash_ok(2) [OF sub(1)]) simp_all
    with True rem(2) rehash_map [OF sub(1) n] show ?thesis by simp
  next
    case False
    with rem(2) sub(1,3) inv thr(2) same show ?thesis by (simp add: hash_ok_def)
  qed
  with sub(2) rem(1) Some show ?thesis by simp
qed

lemma hash_erase_remove:
  "hash_erase f h t = (case hash_remove f h t of (r, h') \<Rightarrow> (if r = None then None else Some t, h'))"
  by (simp add: hash_erase_def hash_remove_def Let_def split: option.split)

end

text \<open>The number of objects is the size of the map, and the keys of the stored objects alone matter.\<close>

lemma hash_map_card:
  assumes "hash_ok okey hkey h"
  shows "nobjs h = int (card (dom (hash_map okey h)))"
proof -
  have "distinct (map fst (hash_entries okey (concat (bucket h))))" using hash_okD [OF assms] by (simp add: chains_ok_def)
  from distinct_card [OF this] have "card (dom (hash_map okey h)) = length (concat (bucket h))"
    by (simp add: hash_map_def dom_map_of_conv_image_fst hash_entries_def image_image)
  with hash_okD [OF assms] show ?thesis by simp
qed

lemma hash_map_entries:
  assumes "hash_ok okey hkey h" and "a \<in> set (map snd (concat (bucket h)))"
  shows "hash_map okey h (okey a) = Some a"
proof -
  from assms(2) obtain e where "e \<in> set (concat (bucket h))" "a = snd e" unfolding set_map by blast
  then have "(okey a, a) \<in> set (hash_entries okey (concat (bucket h)))"
    unfolding hash_entries_def set_map by (intro image_eqI [of _ _ e]) (simp_all add: split_beta)
  with hash_okD [OF assms(1)] show ?thesis by (simp add: hash_map_def chains_ok_def map_of_is_SomeI)
qed

lemma hash_map_SomeD:
  "hash_map okey h k = Some a \<Longrightarrow> a \<in> set (map snd (concat (bucket h))) \<and> okey a = k"
  by (force simp: hash_map_def hash_entries_def dest: map_of_SomeD)

lemma hash_ok_cong:
  assumes "\<And>a. a \<in> set (map snd (concat (bucket h))) \<Longrightarrow> okey' a = okey a"
  shows "hash_ok okey' hkey h \<longleftrightarrow> hash_ok okey hkey h" and "hash_map okey' h = hash_map okey h"
proof -
  have k: "okey' (snd e) = okey (snd e)" if "e \<in> set (concat (bucket h))" for e
    using that by (intro assms) (simp only: set_map image_eqI)
  then have e: "hash_entries okey' (concat (bucket h)) = hash_entries okey (concat (bucket h))"
    unfolding hash_entries_def by (intro map_cong refl) (simp only: split_beta)
  then show "hash_map okey' h = hash_map okey h" by (simp add: hash_map_def)
  have "(\<forall>(hv, b) \<in> set (bucket h ! i). hv = hkey (okey' b) \<and> hash_get_slot (shift h) hv = i) \<longleftrightarrow>
     (\<forall>(hv, b) \<in> set (bucket h ! i). hv = hkey (okey b) \<and> hash_get_slot (shift h) hv = i)" if "i < length (bucket h)" for i
  proof (intro ball_cong refl)
    fix e assume "e \<in> set (bucket h ! i)"
    with that have "e \<in> set (concat (bucket h))" using nth_mem by (simp only: set_concat) blast
    from k [OF this] show "(case e of (hv, b) \<Rightarrow> hv = hkey (okey' b) \<and> hash_get_slot (shift h) hv = i) \<longleftrightarrow>
      (case e of (hv, b) \<Rightarrow> hv = hkey (okey b) \<and> hash_get_slot (shift h) hv = i)" by (simp only: split_beta)
  qed
  with e show "hash_ok okey' hkey h \<longleftrightarrow> hash_ok okey hkey h" by (simp add: hash_ok_def chains_ok_def)
qed

text \<open>A new table.\<close>

lemma init_shift_Some:
  assumes "1 \<le> sh" and "sh \<le> 27" and "n \<le> 2 ^ 27"
  shows "\<exists>sh'. init_shift n sh = Some sh' \<and> sh \<le> sh' \<and> sh' \<le> 27"
  using assms
proof (induction n sh rule: init_shift.induct)
  case (1 n sh)
  show ?case
  proof (cases "push_bit sh 1 < n")
    case True
    have "sh \<noteq> 27" using True 1(4) by (auto simp: push_bit_eq_mult)
    with 1(1) [OF _ True] 1(2-4) True show ?thesis by (subst init_shift.simps) fastforce
  next
    case False
    with 1(2-4) show ?thesis by (subst init_shift.simps) simp
  qed
qed

lemma uint_scast_nonneg:
  fixes n :: u32
  assumes "0 \<le> sint n"
  shows "uint (scast n :: u64) = sint n"
proof -
  have "sint n < 2 ^ 31" using sint_lt [of n] by simp
  have "(scast n :: u64) = word_of_int (sint n)" by (simp only: of_int_sint)
  moreover have "uint (word_of_int (sint n) :: u64) = sint n"
    using assms \<open>sint n < 2 ^ 31\<close> by (simp only: uint_word_of_int, simp)
  ultimately show ?thesis by (simp only:)
qed

lemma hash_init_ok:
  fixes okey :: "'o \<Rightarrow> 'k"
  assumes "0 \<le> sint n" and "sint n \<le> 2 ^ 27"
  shows "\<exists>h. hash_init n = Some h \<and> hash_ok okey hkey h \<and> hash_map okey h = Map.empty"
proof -
  have "(scast n :: u64) \<le> 2 ^ 27" using uint_scast_nonneg [OF assms(1)] assms(2) by (simp add: word_le_def)
  then obtain sh where sh: "init_shift (scast n) 1 = Some sh" "1 \<le> sh" "sh \<le> 27"
    using init_shift_Some [of 1 "scast n"] by auto
  let ?h = "set_thresholds \<lparr>shift = 64 - sh, max_shift = 64 - sh, shrink_threshold = 0, grow_threshold = 0, nobjs = 0, bucket = []\<rparr> :: 'o Hash"
  let ?h' = "?h\<lparr>bucket := replicate (hash_get_slots ?h) []\<rparr>"
  have "hash_init n = Some ?h'" using sh by (simp add: hash_init_def Let_def)
  moreover have "hash_ok okey hkey ?h'" using sh
    by (auto simp: hash_ok_def chains_ok_def hash_get_slots_def hash_entries_def concat_replicate_trivial set_thresholds_def pos_imp_zdiv_nonneg_iff)
  moreover have "hash_map okey ?h' = Map.empty"
    by (simp add: hash_map_def hash_entries_def concat_replicate_trivial)
  ultimately show ?thesis by blast
qed

end
