(* ===== verification/Erts_Index.thy ===== *)
theory Erts_Index
  imports Erts_Hash
begin

text \<open>
  The index tables of the emulator: \<open>erts/emulator/beam/index.c\<close> and \<open>index.h\<close>.  An index table
  interns objects: a hash table finds the object of a template, and an array of pages finds the
  object of a small number, its index.  It refines a list of distinct keys, in which the index of
  an object is the position of its key.
\<close>

section \<open>Definitions\<close>

text \<open>
  The objects of a table begin with an \<open>IndexSlot\<close>; their types extend this record.  The objects
  that were allocated for a table are a list, and the address of an object is its position there.
\<close>

record IndexSlot =
  index :: int

record IndexTable =
  htable :: "nat Hash"
  tsize :: int
  limit :: int
  entries :: int
  seg_table :: "(nat \<rightharpoonup> nat) option list"

abbreviation INDEX_PAGE_SHIFT :: nat where "INDEX_PAGE_SHIFT \<equiv> 10"
abbreviation INDEX_PAGE_SIZE :: nat where "INDEX_PAGE_SIZE \<equiv> 1024"

text \<open>
  The hash functions as the hash table sees them: objects are addresses, and \<open>p\<close> is the address of
  the object that a call of \<open>alloc\<close> creates.
\<close>

definition slot_funs :: "('s, 's) HashFunctions \<Rightarrow> 's list \<Rightarrow> nat \<Rightarrow> ('s, nat) HashFunctions" where
  "slot_funs f heap p =
     \<lparr>hash = hash f, cmp = (\<lambda>tmpl b. cmp f tmpl (heap ! b)), alloc = (\<lambda>tmpl. p)\<rparr>"

text \<open>
  The array of pages.  A page pointer is \<open>None\<close> until the page is allocated, and an element of a
  page until it is stored; using such a value, or a position outside the array, is undefined.
\<close>

definition seg_load :: "(nat \<rightharpoonup> nat) option list \<Rightarrow> nat \<Rightarrow> nat option" where
  "seg_load seg ix =
     (if ix div INDEX_PAGE_SIZE < length seg
      then case seg ! (ix div INDEX_PAGE_SIZE) of
             None \<Rightarrow> None
           | Some page \<Rightarrow> page (ix mod INDEX_PAGE_SIZE)
      else None)"

definition seg_store :: "(nat \<rightharpoonup> nat) option list \<Rightarrow> nat \<Rightarrow> nat \<Rightarrow> (nat \<rightharpoonup> nat) option list option" where
  "seg_store seg ix p =
     (if ix div INDEX_PAGE_SIZE < length seg
      then case seg ! (ix div INDEX_PAGE_SIZE) of
             None \<Rightarrow> None
           | Some page \<Rightarrow> Some (seg[ix div INDEX_PAGE_SIZE := Some (page(ix mod INDEX_PAGE_SIZE \<mapsto> p))])
      else None)"

definition seg_alloc :: "(nat \<rightharpoonup> nat) option list \<Rightarrow> nat \<Rightarrow> (nat \<rightharpoonup> nat) option list option" where
  "seg_alloc seg ix =
     (if ix div INDEX_PAGE_SIZE < length seg then Some (seg[ix div INDEX_PAGE_SIZE := Some Map.empty])
      else None)"

text \<open>The limit is rounded up to a whole number of pages, unless that leaves the range of an \<open>int\<close>.\<close>

definition erts_index_init :: "u32 \<Rightarrow> u32 \<Rightarrow> IndexTable option" where
  "erts_index_init n lim = do {
     let pages = ((scast lim :: u64) + 1024 - 1) div 1024;
     let effective_limit = pages * 1024;
     h \<leftarrow> hash_init (word_of_int (3 * sint n div 4));
     Some \<lparr>htable = h, tsize = 0,
           limit = (if uint effective_limit \<le> INT_MAX then uint effective_limit else sint lim),
           entries = 0, seg_table = replicate (unat pages) None\<rparr> }"

text \<open>
  The result of \<open>index_put_entry\<close>: the address of the object, or \<open>None\<close> when the table is full and
  the emulator exits; the objects and the table.
\<close>

definition index_put_entry ::
  "('a IndexSlot_scheme, 'a IndexSlot_scheme) HashFunctions \<Rightarrow> 'a IndexSlot_scheme list \<Rightarrow> IndexTable \<Rightarrow>
   'a IndexSlot_scheme \<Rightarrow> (nat option \<times> 'a IndexSlot_scheme list \<times> IndexTable) option"
where
  "index_put_entry f heap t tmpl =
     (let new = length heap;
          heap1 = heap @ [alloc f tmpl];
          (p, ht) = hash_put (slot_funs f heap1 new) (htable t) tmpl;
          heap = (if p = new then heap1 else heap);
          t = t\<lparr>htable := ht\<rparr>
      in
      if 0 \<le> index (heap ! p) then Some (Some p, heap, t)
      else
        let ix = entries t in
        if ix \<ge> tsize t \<and> ix \<ge> limit t then Some (None, heap, t)
        else do {
          (seg, sz) \<leftarrow>
            (if ix \<ge> tsize t
             then map_option (\<lambda>seg. (seg, tsize t + int INDEX_PAGE_SIZE)) (seg_alloc (seg_table t) (nat ix))
             else Some (seg_table t, tsize t));
          seg \<leftarrow> seg_store seg (nat ix) p;
          Some (Some p, heap[p := (heap ! p)\<lparr>index := ix\<rparr>],
                t\<lparr>tsize := sz, seg_table := seg, entries := ix + 1\<rparr>) })"

definition index_put ::
  "('a IndexSlot_scheme, 'a IndexSlot_scheme) HashFunctions \<Rightarrow> 'a IndexSlot_scheme list \<Rightarrow> IndexTable \<Rightarrow>
   'a IndexSlot_scheme \<Rightarrow> (int option \<times> 'a IndexSlot_scheme list \<times> IndexTable) option"
where
  "index_put f heap t tmpl =
     map_option (\<lambda>(p, heap, t). (map_option (\<lambda>p. index (heap ! p)) p, heap, t)) (index_put_entry f heap t tmpl)"

definition index_get ::
  "('a IndexSlot_scheme, 'a IndexSlot_scheme) HashFunctions \<Rightarrow> 'a IndexSlot_scheme list \<Rightarrow> IndexTable \<Rightarrow>
   'a IndexSlot_scheme \<Rightarrow> int"
where
  "index_get f heap t tmpl =
     (case hash_get (slot_funs f heap (length heap)) (htable t) tmpl of
        Some p \<Rightarrow> index (heap ! p)
      | None \<Rightarrow> -1)"

definition erts_index_lookup :: "IndexTable \<Rightarrow> nat \<Rightarrow> nat option" where
  "erts_index_lookup t ix = seg_load (seg_table t) ix"

definition erts_index_num_entries :: "IndexTable \<Rightarrow> int" where
  "erts_index_num_entries t = entries t"

text \<open>The loop over the indices to erase; the stored objects are the templates.\<close>

fun erase_slots ::
  "('a IndexSlot_scheme, 'a IndexSlot_scheme) HashFunctions \<Rightarrow> 'a IndexSlot_scheme list \<Rightarrow>
   (nat \<rightharpoonup> nat) option list \<Rightarrow> nat Hash \<Rightarrow> nat list \<Rightarrow> nat Hash option"
where
  "erase_slots f heap seg ht [] = Some ht"
| "erase_slots f heap seg ht (ix # ixs) = do {
     obj \<leftarrow> seg_load seg ix;
     let ht = snd (hash_erase (slot_funs f heap (length heap)) ht (heap ! obj));
     erase_slots f heap seg ht ixs }"

definition index_erase_latest_from ::
  "('a IndexSlot_scheme, 'a IndexSlot_scheme) HashFunctions \<Rightarrow> 'a IndexSlot_scheme list \<Rightarrow> IndexTable \<Rightarrow> nat \<Rightarrow>
   IndexTable option"
where
  "index_erase_latest_from f heap t from_ix =
     (if from_ix < nat (entries t)
      then map_option (\<lambda>ht. t\<lparr>htable := ht, entries := int from_ix\<rparr>)
             (erase_slots f heap (seg_table t) (htable t) [from_ix ..< nat (entries t)])
      else Some t)"

section \<open>Pages\<close>

lemma seg_load_store:
  assumes "seg_store seg ix p = Some seg'"
  shows "seg_load seg' i = (if i = ix then Some p else seg_load seg i)" and "length seg' = length seg"
    and "seg' ! j = None \<longleftrightarrow> seg ! j = None"
proof -
  from assms obtain page where page: "ix div 1024 < length seg" "seg ! (ix div 1024) = Some page"
    "seg' = seg[ix div 1024 := Some (page(ix mod 1024 \<mapsto> p))]"
    by (auto simp: seg_store_def split: if_splits option.splits)
  have "i = ix \<longleftrightarrow> i div 1024 = ix div 1024 \<and> i mod 1024 = ix mod 1024"
    by (metis div_mult_mod_eq)
  with page show "seg_load seg' i = (if i = ix then Some p else seg_load seg i)"
    by (auto simp: seg_load_def nth_list_update)
  show "length seg' = length seg" using page by simp
  show "seg' ! j = None \<longleftrightarrow> seg ! j = None" using page by (cases "j = ix div 1024") simp_all
qed

lemma seg_load_alloc:
  assumes "seg_alloc seg ix = Some seg'"
  shows "i div 1024 \<noteq> ix div 1024 \<Longrightarrow> seg_load seg' i = seg_load seg i" and "length seg' = length seg"
    and "seg' ! j = None \<longleftrightarrow> j \<noteq> ix div 1024 \<and> seg ! j = None"
  using assms by (auto simp: seg_alloc_def seg_load_def nth_list_update split: if_splits)

section \<open>The abstract list\<close>

text \<open>The position of a key, and the association of keys with the slots of a table.\<close>

fun position :: "'k \<Rightarrow> 'k list \<Rightarrow> nat option" where
  "position k [] = None"
| "position k (x # xs) = (if x = k then Some 0 else map_option Suc (position k xs))"

lemma position_Some: "position k ks = Some i \<Longrightarrow> i < length ks \<and> ks ! i = k"
  by (induction ks arbitrary: i) (auto split: if_splits)

lemma position_None [simp]: "position k ks = None \<longleftrightarrow> k \<notin> set ks"
  by (induction ks) auto

lemma position_nth: "distinct ks \<Longrightarrow> i < length ks \<Longrightarrow> position (ks ! i) ks = Some i"
  by (induction ks arbitrary: i) (auto simp: nth_Cons split: nat.split)

lemma map_of_zip_position:
  "length ks = length ps \<Longrightarrow> map_of (zip ks ps) k = map_option ((!) ps) (position k ks)"
  by (induction ks ps rule: list_induct2) (auto simp: option.map_comp comp_def)

text \<open>Interning a key in a list: the abstract effect of putting an object.\<close>

definition intern :: "'k \<Rightarrow> 'k list \<Rightarrow> nat \<times> 'k list" where
  "intern k ks = (case position k ks of Some i \<Rightarrow> (i, ks) | None \<Rightarrow> (length ks, ks @ [k]))"

text \<open>
  The invariant of the pages, and the relation between a table and the addresses of its objects in
  the order of their indices.
\<close>

definition pages_ok :: "IndexTable \<Rightarrow> bool" where
  "pages_ok t \<longleftrightarrow> 0 \<le> limit t \<and> limit t \<le> 1024 * int (length (seg_table t))
     \<and> (\<exists>n \<in> {0..length (seg_table t)}. tsize t = 1024 * int n \<and> (\<forall>j < n. seg_table t ! j \<noteq> None))"

definition index_rel ::
  "('a IndexSlot_scheme \<Rightarrow> 'k) \<Rightarrow> ('k \<Rightarrow> u64) \<Rightarrow> 'a IndexSlot_scheme list \<Rightarrow> IndexTable \<Rightarrow> nat list \<Rightarrow> bool"
where
  "index_rel skey hkey heap t ps \<longleftrightarrow>
     entries t = int (length ps) \<and> entries t \<le> tsize t \<and> pages_ok t
     \<and> (\<forall>i < length ps. seg_load (seg_table t) i = Some (ps ! i) \<and> ps ! i < length heap \<and> index (heap ! (ps ! i)) = int i)
     \<and> distinct (map (\<lambda>p. skey (heap ! p)) ps)
     \<and> hash_ok (\<lambda>p. skey (heap ! p)) hkey (htable t)
     \<and> hash_map (\<lambda>p. skey (heap ! p)) (htable t) = map_of (zip (map (\<lambda>p. skey (heap ! p)) ps) ps)"

lemma index_relD:
  assumes "index_rel skey hkey heap t ps"
  shows "entries t = int (length ps)" "entries t \<le> tsize t" "pages_ok t"
    and "i < length ps \<Longrightarrow> seg_load (seg_table t) i = Some (ps ! i)" "i < length ps \<Longrightarrow> ps ! i < length heap"
    and "i < length ps \<Longrightarrow> index (heap ! (ps ! i)) = int i"
    and "distinct (map (\<lambda>p. skey (heap ! p)) ps)"
    and "hash_ok (\<lambda>p. skey (heap ! p)) hkey (htable t)"
    and "hash_map (\<lambda>p. skey (heap ! p)) (htable t) = map_of (zip (map (\<lambda>p. skey (heap ! p)) ps) ps)"
  using assms unfolding index_rel_def by blast+

lemma index_rel_nobjs:
  assumes "index_rel skey hkey heap t ps"
  shows "nobjs (htable t) = int (length ps)"
proof -
  have "dom (map_of (zip (map (\<lambda>p. skey (heap ! p)) ps) ps)) = set (map (\<lambda>p. skey (heap ! p)) ps)" by (simp add: dom_map_of_zip)
  with hash_map_card [OF index_relD(8) [OF assms]] distinct_card [OF index_relD(7) [OF assms]] index_relD(9) [OF assms]
  show ?thesis by simp
qed

text \<open>Every address in the chains is the address of an object of the table.\<close>

lemma index_rel_addr:
  assumes "index_rel skey hkey heap t ps" and "a \<in> set (map snd (concat (bucket (htable t))))"
  shows "a \<in> set ps \<and> a < length heap"
proof -
  from hash_map_entries [OF index_relD(8) [OF assms(1)] assms(2)]
  have "map_of (zip (map (\<lambda>p. skey (heap ! p)) ps) ps) (skey (heap ! a)) = Some a" by (simp add: index_relD(9) [OF assms(1)])
  then have "a \<in> set ps" by (auto dest!: map_of_SomeD in_set_zipE)
  with index_relD(5) [OF assms(1)] show ?thesis by (metis in_set_conv_nth)
qed

lemma map_upd_snoc:
  "length ks = length ps \<Longrightarrow> k \<notin> set ks \<Longrightarrow> (map_of (zip ks ps))(k \<mapsto> p) = map_of (zip ks ps @ [(k, p)])"
  by (auto simp: fun_eq_iff map_add_def split: option.split dest!: map_of_SomeD in_set_zipE)

lemma map_of_zip_take:
  assumes "length ks = length ps" and "distinct ks"
  shows "map_of (zip ks ps) |` (- set (drop n ks)) = map_of (zip (take n ks) (take n ps))"
proof
  fix k
  have z: "map_of (zip ks ps) = map_of (zip (drop n ks) (drop n ps)) ++ map_of (zip (take n ks) (take n ps))"
    by (metis append_take_drop_id assms(1) length_take map_of_append zip_append)
  have "k \<in> set (drop n ks) \<Longrightarrow> k \<notin> set (take n ks)" using assms(2) by (metis set_take_disj_set_drop_if_distinct disjoint_iff order_refl)
  moreover have "dom (map_of (zip (drop n ks) (drop n ps))) = set (drop n ks)" "dom (map_of (zip (take n ks) (take n ps))) = set (take n ks)"
    using assms(1) by (simp_all add: dom_map_of_zip)
  ultimately show "(map_of (zip ks ps) |` (- set (drop n ks))) k = map_of (zip (take n ks) (take n ps)) k"
    unfolding z by (auto simp: restrict_map_def map_add_def domIff split: option.split)
qed

section \<open>The operations\<close>

text \<open>
  What a client of an index table promises: hash values and comparison depend only on the key of
  an object, a new object has the key of its template and no index yet, and the index is not part
  of the key.
\<close>

locale index_client =
  fixes f :: "('a IndexSlot_scheme, 'a IndexSlot_scheme) HashFunctions"
    and skey :: "'a IndexSlot_scheme \<Rightarrow> 'k"
    and hkey :: "'k \<Rightarrow> u64"
  assumes hash_skey: "hash f s = hkey (skey s)"
    and cmp_skey: "cmp f s s' = 0 \<longleftrightarrow> skey s = skey s'"
    and alloc_skey: "skey (alloc f s) = skey s"
    and alloc_index: "index (alloc f s) = -1"
    and skey_index: "skey (s\<lparr>index := i\<rparr>) = skey s"
begin

lemma slots_client: "hash_client (slot_funs f heap p) skey (\<lambda>p. skey (heap ! p)) hkey"
  by unfold_locales (simp_all add: slot_funs_def hash_skey cmp_skey)

lemma slots_get:
  assumes "index_rel skey hkey heap t ps"
  shows "hash_get (slot_funs f heap q) (htable t) tmpl =
    map_option ((!) ps) (position (skey tmpl) (map (\<lambda>p. skey (heap ! p)) ps))"
  using hash_client.hash_get_map [OF slots_client index_relD(8) [OF assms]]
  by (simp add: index_relD(9) [OF assms] map_of_zip_position)

lemma index_get_position:
  assumes "index_rel skey hkey heap t ps"
  shows "index_get f heap t tmpl =
    (case position (skey tmpl) (map (\<lambda>p. skey (heap ! p)) ps) of Some i \<Rightarrow> int i | None \<Rightarrow> -1)"
proof (cases "position (skey tmpl) (map (\<lambda>p. skey (heap ! p)) ps)")
  case (Some i)
  with position_Some [OF Some] index_relD(6) [OF assms] show ?thesis by (simp add: index_get_def slots_get [OF assms])
qed (simp add: index_get_def slots_get [OF assms] del: position_None)

text \<open>What the hash table does when a template is put, with the object it may allocate in place.\<close>

lemma put_slots:
  assumes "index_rel skey hkey heap t ps" and "length ps < 214748364"
    and "hash_put (slot_funs f (heap @ [alloc f tmpl]) (length heap)) (htable t) tmpl = (b, ht)"
  defines "okey \<equiv> \<lambda>p. skey ((heap @ [alloc f tmpl]) ! p)"
  shows "case position (skey tmpl) (map (\<lambda>p. skey (heap ! p)) ps) of
      Some i \<Rightarrow> b = ps ! i \<and> ht = htable t
    | None \<Rightarrow> b = length heap \<and> hash_ok okey hkey ht
        \<and> hash_map okey ht = (map_of (zip (map (\<lambda>p. skey (heap ! p)) ps) ps))(skey tmpl \<mapsto> length heap)"
proof -
  have same: "okey a = skey (heap ! a)" if "a \<in> set (map snd (concat (bucket (htable t))))" for a
    using index_rel_addr [OF assms(1) that] by (simp add: nth_append okey_def)
  have ok: "hash_ok okey hkey (htable t)"
    using hash_ok_cong(1) [of "htable t" okey "\<lambda>p. skey (heap ! p)", OF same] index_relD(8) [OF assms(1)] by simp
  have m: "hash_map okey (htable t) = map_of (zip (map (\<lambda>p. skey (heap ! p)) ps) ps)"
    using hash_ok_cong(2) [of "htable t" okey "\<lambda>p. skey (heap ! p)", OF same] index_relD(9) [OF assms(1)] by simp
  have "nobjs (htable t) < 214748364" using index_rel_nobjs [OF assms(1)] assms(2) by simp
  note put = hash_client.hash_put_ok [OF slots_client ok [unfolded okey_def] this assms(3), folded okey_def]
  have "skey ((heap @ [alloc f tmpl]) ! alloc (slot_funs f (heap @ [alloc f tmpl]) (length heap)) tmpl) = skey tmpl"
    by (simp add: slot_funs_def alloc_skey)
  from put [OF this] show ?thesis
    by (cases "position (skey tmpl) (map (\<lambda>p. skey (heap ! p)) ps)")
      (auto simp: m map_of_zip_position slot_funs_def simp del: position_None)
qed

lemma index_put_old:
  assumes "index_rel skey hkey heap t ps" and "length ps < 214748364"
    and "position (skey tmpl) (map (\<lambda>p. skey (heap ! p)) ps) = Some i"
  shows "index_put_entry f heap t tmpl = Some (Some (ps ! i), heap, t)"
proof -
  have i: "i < length ps" using position_Some [OF assms(3)] by simp
  obtain b ht where put: "hash_put (slot_funs f (heap @ [alloc f tmpl]) (length heap)) (htable t) tmpl = (b, ht)" by fastforce
  from put_slots [OF assms(1,2) put] have "b = ps ! i" "ht = htable t" by (simp_all add: assms(3))
  with put index_relD(5,6) [OF assms(1) i] show ?thesis by (simp add: index_put_entry_def)
qed

text \<open>The page of the next index is there, or there is room to allocate it.\<close>

lemma pages_ok_room:
  assumes "pages_ok t" and "int ix \<le> tsize t" and "int ix < tsize t \<or> int ix < limit t"
  obtains seg sz seg' where
    "(if int ix \<ge> tsize t then map_option (\<lambda>seg. (seg, tsize t + 1024)) (seg_alloc (seg_table t) ix)
      else Some (seg_table t, tsize t)) = Some (seg, sz)"
    and "seg_store seg ix p = Some seg'" and "int ix < sz"
    and "\<And>i. i < ix \<Longrightarrow> seg_load seg' i = seg_load (seg_table t) i" and "seg_load seg' ix = Some p"
    and "\<And>h n. pages_ok (t\<lparr>htable := h, tsize := sz, seg_table := seg', entries := n\<rparr>)"
proof -
  from assms(1) obtain n where n: "n \<le> length (seg_table t)" "tsize t = 1024 * int n" "\<And>j. j < n \<Longrightarrow> seg_table t ! j \<noteq> None"
    "0 \<le> limit t" "limit t \<le> 1024 * int (length (seg_table t))"
    by (auto simp: pages_ok_def)
  show thesis
  proof (cases "int ix \<ge> tsize t")
    case True
    with assms n have ix: "ix = 1024 * n" "n < length (seg_table t)" by linarith+
    let ?seg = "(seg_table t)[n := Some Map.empty]" and ?seg' = "(seg_table t)[n := Some [0 \<mapsto> p]]"
    have a: "seg_alloc (seg_table t) ix = Some ?seg" using ix by (simp add: seg_alloc_def)
    moreover have st: "seg_store ?seg ix p = Some ?seg'" using ix by (simp add: seg_store_def)
    moreover have "seg_load ?seg' i = seg_load (seg_table t) i" if "i < ix" for i
      using seg_load_store(1) [OF st] seg_load_alloc(1) [OF a] that ix by simp
    moreover have "pages_ok (t\<lparr>htable := h, tsize := tsize t + 1024, seg_table := ?seg', entries := m\<rparr>)" for h m
      unfolding pages_ok_def using n ix by (auto intro!: bexI [of _ "Suc n"] simp: nth_list_update less_Suc_eq)
    ultimately show thesis using that [of ?seg "tsize t + 1024" ?seg'] True assms(2) seg_load_store(1) [OF st] by simp
  next
    case False
    with n have ix: "ix div 1024 < n" by linarith
    with n obtain page where "seg_table t ! (ix div 1024) = Some page" by blast
    with ix n(1) obtain seg' where st: "seg_store (seg_table t) ix p = Some seg'" by (simp add: seg_store_def)
    have "pages_ok (t\<lparr>htable := h, tsize := tsize t, seg_table := seg', entries := m\<rparr>)" for h m
      unfolding pages_ok_def using n seg_load_store(2,3) [OF st] by (auto intro!: bexI [of _ n])
    with that [of "seg_table t" "tsize t" seg'] False st seg_load_store(1) [OF st] show thesis by simp
  qed
qed

lemma index_put_new:
  assumes rel: "index_rel skey hkey heap t ps" and "length ps < 214748364"
    and new: "skey tmpl \<notin> set (map (\<lambda>p. skey (heap ! p)) ps)"
    and room: "entries t < tsize t \<or> entries t < limit t"
  defines "heap' \<equiv> heap @ [(alloc f tmpl)\<lparr>index := entries t\<rparr>]"
  shows "\<exists>t'. index_put_entry f heap t tmpl = Some (Some (length heap), heap', t')
    \<and> index_rel skey hkey heap' t' (ps @ [length heap]) \<and> limit t' = limit t"
proof -
  let ?n = "length heap" and ?okey = "\<lambda>p. skey (heap' ! p)"
  obtain b ht where put: "hash_put (slot_funs f (heap @ [alloc f tmpl]) ?n) (htable t) tmpl = (b, ht)" by fastforce
  have okey: "?okey = (\<lambda>p. skey ((heap @ [alloc f tmpl]) ! p))"
    by (auto simp: fun_eq_iff heap'_def nth_append nth_Cons skey_index split: nat.split)
  have "position (skey tmpl) (map (\<lambda>p. skey (heap ! p)) ps) = None" using new by simp
  with put_slots [OF rel assms(2) put]
  have b: "b = ?n" "hash_ok ?okey hkey ht" "hash_map ?okey ht = (map_of (zip (map (\<lambda>p. skey (heap ! p)) ps) ps))(skey tmpl \<mapsto> ?n)"
    by (simp_all add: okey del: position_None)
  note e = index_relD(1) [OF rel]
  have keys: "map ?okey ps = map (\<lambda>p. skey (heap ! p)) ps"
    using index_relD(5) [OF rel] by (auto simp: heap'_def nth_append in_set_conv_nth)
  obtain seg sz seg' where seg:
    "(if int (length ps) \<ge> tsize t then map_option (\<lambda>seg. (seg, tsize t + 1024)) (seg_alloc (seg_table t) (length ps))
      else Some (seg_table t, tsize t)) = Some (seg, sz)"
    "seg_store seg (length ps) ?n = Some seg'" "int (length ps) < sz"
    "\<And>i. i < length ps \<Longrightarrow> seg_load seg' i = seg_load (seg_table t) i" "seg_load seg' (length ps) = Some ?n"
    "\<And>h n. pages_ok (t\<lparr>htable := h, tsize := sz, seg_table := seg', entries := n\<rparr>)"
    using pages_ok_room [of t "length ps" ?n] index_relD(2,3) [OF rel] room e by metis
  let ?t = "t\<lparr>htable := ht, tsize := sz, seg_table := seg', entries := int (length ps) + 1\<rparr>"
  have "index_put_entry f heap t tmpl = Some (Some ?n, heap', ?t)"
    using put b(1) room e seg(1,2) by (auto simp: index_put_entry_def alloc_index heap'_def Let_def split: if_splits)
  moreover have "index_rel skey hkey heap' ?t (ps @ [?n])"
    unfolding index_rel_def
  proof (intro conjI allI impI)
    fix i assume "i < length (ps @ [?n])"
    then consider "i < length ps" | "i = length ps" by fastforce
    note i = this
    show "seg_load (seg_table ?t) i = Some ((ps @ [?n]) ! i)"
      using i by cases (simp_all add: seg nth_append index_relD [OF rel])
    show "(ps @ [?n]) ! i < length heap'"
      using i by cases (simp_all add: nth_append heap'_def index_relD(5) [OF rel] less_Suc_eq)
    show "index (heap' ! ((ps @ [?n]) ! i)) = int i"
      using i by cases (simp_all add: nth_append heap'_def index_relD [OF rel])
  next
    have last: "?okey ?n = skey tmpl" by (simp add: heap'_def skey_index alloc_skey)
    show "distinct (map ?okey (ps @ [?n]))" unfolding map_append keys using new index_relD(7) [OF rel] last by simp
    show "hash_map ?okey (htable ?t) = map_of (zip (map ?okey (ps @ [?n])) (ps @ [?n]))"
      unfolding map_append keys using b(3) new last by (simp add: map_upd_snoc)
  qed (use b(2) seg(3,6) in auto)
  ultimately show ?thesis by auto
qed

lemma index_put_full:
  assumes rel: "index_rel skey hkey heap t ps" and "length ps < 214748364"
    and new: "skey tmpl \<notin> set (map (\<lambda>p. skey (heap ! p)) ps)"
    and full: "entries t \<ge> tsize t" "entries t \<ge> limit t"
  shows "\<exists>heap' t'. index_put_entry f heap t tmpl = Some (None, heap', t')"
proof -
  obtain b ht where put: "hash_put (slot_funs f (heap @ [alloc f tmpl]) (length heap)) (htable t) tmpl = (b, ht)" by fastforce
  have "position (skey tmpl) (map (\<lambda>p. skey (heap ! p)) ps) = None" using new by simp
  with put_slots [OF rel assms(2) put] have "b = length heap" by (simp del: position_None)
  with put full show ?thesis by (simp add: index_put_entry_def alloc_index Let_def)
qed

lemma erase_slots_restrict:
  assumes "hash_ok (\<lambda>p. skey (heap ! p)) hkey ht" and "\<And>i. i \<in> set ixs \<Longrightarrow> seg_load seg i = Some (ps ! i)"
  shows "\<exists>ht'. erase_slots f heap seg ht ixs = Some ht' \<and> hash_ok (\<lambda>p. skey (heap ! p)) hkey ht'
    \<and> hash_map (\<lambda>p. skey (heap ! p)) ht' =
        hash_map (\<lambda>p. skey (heap ! p)) ht |` (- (\<lambda>i. skey (heap ! (ps ! i))) ` set ixs)"
  using assms
proof (induction ixs arbitrary: ht)
  case (Cons i ixs)
  let ?f = "slot_funs f heap (length heap)" and ?okey = "\<lambda>p. skey (heap ! p)"
  obtain r ht1 where rem: "hash_remove ?f ht (heap ! (ps ! i)) = (r, ht1)" by fastforce
  from hash_client.hash_remove_ok [OF slots_client Cons.prems(1) rem]
  have ht1: "hash_ok ?okey hkey ht1" "hash_map ?okey ht1 = (hash_map ?okey ht)(?okey (ps ! i) := None)" by simp_all
  have "snd (hash_erase ?f ht (heap ! (ps ! i))) = ht1"
    using rem by (simp add: hash_client.hash_erase_remove [OF slots_client])
  moreover obtain ht' where ht': "erase_slots f heap seg ht1 ixs = Some ht'" "hash_ok ?okey hkey ht'"
    "hash_map ?okey ht' = hash_map ?okey ht1 |` (- (\<lambda>i. ?okey (ps ! i)) ` set ixs)"
    using Cons.IH [OF ht1(1)] Cons.prems(2) by auto
  moreover have "hash_map ?okey ht' = hash_map ?okey ht |` (- (\<lambda>i. ?okey (ps ! i)) ` set (i # ixs))"
    unfolding ht'(3) ht1(2) by (rule ext) (simp add: restrict_map_def)
  ultimately show ?case using Cons.prems(2) by simp
qed (simp add: restrict_map_def)

lemma index_erase_take:
  assumes rel: "index_rel skey hkey heap t ps"
  shows "\<exists>t'. index_erase_latest_from f heap t n = Some t' \<and> index_rel skey hkey heap t' (take n ps) \<and> limit t' = limit t"
proof (cases "n < length ps")
  case True
  let ?okey = "\<lambda>p. skey (heap ! p)" and ?ixs = "[n ..< length ps]"
  from erase_slots_restrict [OF index_relD(8) [OF rel], of ?ixs "seg_table t" ps] index_relD(4) [OF rel]
  obtain ht where ht: "erase_slots f heap (seg_table t) (htable t) ?ixs = Some ht" "hash_ok ?okey hkey ht"
    "hash_map ?okey ht = hash_map ?okey (htable t) |` (- (\<lambda>i. ?okey (ps ! i)) ` set ?ixs)" by auto
  have "drop n (map ?okey ps) = map (\<lambda>i. ?okey (ps ! i)) ?ixs" by (rule nth_equalityI) simp_all
  then have "(\<lambda>i. ?okey (ps ! i)) ` set ?ixs = set (drop n (map ?okey ps))" by simp
  then have m: "hash_map ?okey ht = map_of (zip (map ?okey (take n ps)) (take n ps))"
    using ht(3) map_of_zip_take [of "map ?okey ps" ps n] index_relD(7,9) [OF rel] by (simp add: take_map)
  let ?t = "t\<lparr>htable := ht, entries := int n\<rparr>"
  have "index_erase_latest_from f heap t n = Some ?t"
    using True ht(1) index_relD(1) [OF rel] by (simp add: index_erase_latest_from_def)
  moreover have "index_rel skey hkey heap ?t (take n ps)"
    using True m ht(2) index_relD [OF rel] by (auto simp: index_rel_def pages_ok_def distinct_take simp flip: take_map)
  ultimately show ?thesis by simp
next
  case False
  with rel index_relD(1) [OF rel] show ?thesis by (simp add: index_erase_latest_from_def)
qed

end

text \<open>A new table is empty.\<close>

lemma index_init_rel:
  assumes "0 \<le> sint n" and "sint n \<le> 2 ^ 27" and "0 \<le> sint lim"
  shows "\<exists>t. erts_index_init n lim = Some t \<and> index_rel skey hkey heap t [] \<and> sint lim \<le> limit t"
proof -
  let ?pages = "((scast lim :: u64) + 1024 - 1) div 1024"
  have l: "uint (scast lim :: u64) = sint lim" "sint lim < 2 ^ 31"
    using uint_scast_nonneg [OF assms(3)] sint_lt [of lim] by simp_all
  have p: "uint ?pages = (sint lim + 1023) div 1024"
    using l assms(3) by (simp add: uint_div_distrib uint_word_ariths)
  have e: "uint (?pages * 1024) = (sint lim + 1023) div 1024 * 1024"
    unfolding uint_word_ariths(3) p using l assms(3) by simp
  have round: "sint lim \<le> (sint lim + 1023) div 1024 * 1024" by linarith
  have "0 \<le> sint (word_of_int (3 * sint n div 4) :: u32)" "sint (word_of_int (3 * sint n div 4) :: u32) \<le> 2 ^ 27"
    using assms(1,2) by (simp_all add: sint_sbintrunc' signed_take_bit_int_eq_self)
  from hash_init_ok [OF this, of "\<lambda>p. skey (heap ! p)" hkey] obtain h where
    "hash_init (word_of_int (3 * sint n div 4)) = Some h" "hash_ok (\<lambda>p. skey (heap ! p)) hkey h"
    "hash_map (\<lambda>p. skey (heap ! p)) h = Map.empty" by blast
  then show ?thesis using p e l assms(3) round
    by (simp add: erts_index_init_def index_rel_def pages_ok_def Let_def)
qed

end
