(* ===== verification/Erts_Unicode.thy ===== *)
theory Erts_Unicode
  imports Prelude
begin

text \<open>
  The UTF-8 routines of the emulator that work on flat buffers (\<open>erts/emulator/beam/erl_unicode.c\<close>):
  the analysis of a buffer and its conversion to a list of code points.  They are compared with an
  encoder of Unicode scalar values.
\<close>

section \<open>Definitions\<close>

datatype utf8_res = ERTS_UTF8_OK | ERTS_UTF8_INCOMPLETE | ERTS_UTF8_ERROR | ERTS_UTF8_ANALYZE_MORE
  | ERTS_UTF8_OK_MAX_CHARS

text \<open>
  One round of the loop of \<open>analyze_utf8\<close> on the remaining bytes: the result it breaks with, or the
  length of the character, whether it is counted and whether it is outside Latin-1.
\<close>

datatype utf8_step = Break utf8_res | Char nat bool bool

definition analyze_char :: "bytes \<Rightarrow> utf8_step" where
  "analyze_char s =
     (if s ! 0 AND 0x80 = 0 then Char 1 True False
      else if s ! 0 AND 0xE0 = 0xC0 then
        if length s < 2 then Break ERTS_UTF8_INCOMPLETE
        else if s ! 1 AND 0xC0 \<noteq> 0x80 \<or> s ! 0 < 0xC2 then Break ERTS_UTF8_ERROR
        else Char 2 True (s ! 0 AND 0xFC \<noteq> 0xC0)
      else if s ! 0 AND 0xF0 = 0xE0 then
        if length s < 3 then Break ERTS_UTF8_INCOMPLETE
        else if s ! 1 AND 0xC0 \<noteq> 0x80 \<or> s ! 2 AND 0xC0 \<noteq> 0x80 \<or> s ! 0 = 0xE0 \<and> s ! 1 < 0xA0 then
          Break ERTS_UTF8_ERROR
        else if s ! 0 AND 0xF = 0xD \<and> s ! 1 AND 0x20 \<noteq> 0 then Break ERTS_UTF8_ERROR
        else Char 3 False True
      else if s ! 0 AND 0xF8 = 0xF0 then
        if length s < 4 then Break ERTS_UTF8_INCOMPLETE
        else if s ! 1 AND 0xC0 \<noteq> 0x80 \<or> s ! 2 AND 0xC0 \<noteq> 0x80 \<or> s ! 3 AND 0xC0 \<noteq> 0x80
          \<or> s ! 0 = 0xF0 \<and> s ! 1 < 0x90 then Break ERTS_UTF8_ERROR
        else if s ! 0 AND 0x7 > 0x4 \<or> s ! 0 AND 0x7 = 0x4 \<and> s ! 1 AND 0x3F > 0xF then Break ERTS_UTF8_ERROR
        else Char 4 False True
      else Break ERTS_UTF8_ERROR)"

text \<open>
  The results that are stored through pointers: the offset of \<open>err_pos\<close>, the number of characters,
  the number of Latin-1 characters, and what remains of \<open>left\<close> (\<open>None\<close> for a null pointer).
\<close>

lemma analyze_char_length: "analyze_char s = Char k c l \<Longrightarrow> 0 < k"
  by (auto simp: analyze_char_def split: if_splits)

record utf8_info =
  err_pos :: nat
  num_chars :: nat
  num_latin1_chars :: int
  left :: "int option"

function analyze_loop ::
  "bytes \<Rightarrow> nat \<Rightarrow> nat \<Rightarrow> bool \<Rightarrow> nat \<Rightarrow> nat \<Rightarrow> int option \<Rightarrow> utf8_res \<times> utf8_info"
where
  "analyze_loop source pos latin1_count is_latin1 nchars max_chars lft =
     (let stop = (\<lambda>res pos cnt lat n lft.
        (res, \<lparr>err_pos = pos, num_chars = n, num_latin1_chars = (if lat then int cnt else -1), left = lft\<rparr>))
      in
      if source = [] then stop ERTS_UTF8_OK pos latin1_count is_latin1 nchars lft
      else case analyze_char source of
        Break res \<Rightarrow> stop res pos latin1_count is_latin1 nchars lft
      | Char k counted non_latin1 \<Rightarrow>
          let rest = drop k source;
              pos = pos + k;
              cnt = (if counted then latin1_count + 1 else latin1_count);
              lat = (is_latin1 \<and> \<not> non_latin1);
              n = nchars + 1
          in
          if max_chars \<noteq> 0 \<and> rest \<noteq> [] \<and> n = max_chars then stop ERTS_UTF8_OK_MAX_CHARS pos cnt lat n lft
          else
            let lft = map_option (\<lambda>l. l - 1) lft in
            if (\<exists>l \<in> set_option lft. l \<le> 0) \<and> rest \<noteq> [] then stop ERTS_UTF8_ANALYZE_MORE pos cnt lat n lft
            else analyze_loop rest pos cnt lat n max_chars lft)"
  by pat_completeness auto

termination
  by (relation "measure (\<lambda>(s, _). length s)") (auto dest!: analyze_char_length)

declare analyze_loop.simps [simp del]

definition erts_analyze_utf8_x :: "bytes \<Rightarrow> int option \<Rightarrow> nat \<Rightarrow> utf8_res \<times> utf8_info" where
  "erts_analyze_utf8_x source lft max_chars = analyze_loop source 0 0 True 0 max_chars lft"

definition erts_analyze_utf8 :: "bytes \<Rightarrow> int option \<Rightarrow> utf8_res \<times> utf8_info" where
  "erts_analyze_utf8 source lft = analyze_loop source 0 0 True 0 0 lft"

text \<open>
  The code point that starts at a position, or \<open>Some None\<close> for a continuation byte; reading outside
  the buffer is undefined.
\<close>

definition byte_at :: "bytes \<Rightarrow> nat \<Rightarrow> u64 option" where
  "byte_at b i = (if i < length b then Some (ucast (b ! i)) else None)"

definition unipoint_at :: "bytes \<Rightarrow> nat \<Rightarrow> u64 option option" where
  "unipoint_at b i = do {
     c0 \<leftarrow> byte_at b i;
     (if c0 AND 0x80 = 0 then Some (Some c0)
      else if c0 AND 0xE0 = 0xC0 then do {
        c1 \<leftarrow> byte_at b (i + 1);
        Some (Some (push_bit 6 (c0 AND 0x1F) OR (c1 AND 0x3F))) }
      else if c0 AND 0xF0 = 0xE0 then do {
        c1 \<leftarrow> byte_at b (i + 1);
        c2 \<leftarrow> byte_at b (i + 2);
        Some (Some (push_bit 12 (c0 AND 0xF) OR push_bit 6 (c1 AND 0x3F) OR (c2 AND 0x3F))) }
      else if c0 AND 0xF8 = 0xF0 then do {
        c1 \<leftarrow> byte_at b (i + 1);
        c2 \<leftarrow> byte_at b (i + 2);
        c3 \<leftarrow> byte_at b (i + 3);
        Some (Some (push_bit 18 (c0 AND 0x7) OR push_bit 12 (c1 AND 0x3F) OR push_bit 6 (c2 AND 0x3F) OR (c3 AND 0x3F))) }
      else Some None) }"

text \<open>
  The loop from the end of the buffer, with the position after \<open>source\<close>; it returns the list and the
  final \<open>source\<close>.  A list of small integers is the list of their values.
\<close>

fun utf8_buf_loop :: "bytes \<Rightarrow> nat \<Rightarrow> u64 \<Rightarrow> u64 list \<Rightarrow> (u64 list \<times> int) option" where
  "utf8_buf_loop b 0 lft ret = Some (ret, -1)"
| "utf8_buf_loop b (Suc i) lft ret = do {
     u \<leftarrow> unipoint_at b i;
     (case u of
        None \<Rightarrow> utf8_buf_loop b i lft ret
      | Some unipoint \<Rightarrow>
          if lft - 1 = 0 then Some (unipoint # ret, int i)
          else utf8_buf_loop b i (lft - 1) (unipoint # ret)) }"

text \<open>The list, \<open>num_built\<close> and \<open>num_eaten\<close>.\<close>

definition erts_make_list_from_utf8_buf :: "u64 \<Rightarrow> bytes \<Rightarrow> nat \<Rightarrow> u64 list \<Rightarrow> (u64 list \<times> u64 \<times> int) option" where
  "erts_make_list_from_utf8_buf num b sz tail = do {
     (ret, source) \<leftarrow> utf8_buf_loop b sz num tail;
     Some (ret, num, int sz - source) }"

section \<open>The encoding of Unicode scalar values\<close>

definition unicode_scalar :: "nat \<Rightarrow> bool" where
  "unicode_scalar c \<longleftrightarrow> c < 0xD800 \<or> 0xE000 \<le> c \<and> c < 0x110000"

definition utf8_enc :: "nat \<Rightarrow> bytes" where
  "utf8_enc c =
     (if c < 0x80 then [of_nat c]
      else if c < 0x800 then [of_nat (0xC0 + c div 64), of_nat (0x80 + c mod 64)]
      else if c < 0x10000 then [of_nat (0xE0 + c div 4096), of_nat (0x80 + c div 64 mod 64), of_nat (0x80 + c mod 64)]
      else [of_nat (0xF0 + c div 262144), of_nat (0x80 + c div 4096 mod 64), of_nat (0x80 + c div 64 mod 64),
            of_nat (0x80 + c mod 64)])"

definition utf8_encode :: "nat list \<Rightarrow> bytes" where
  "utf8_encode cs = concat (map utf8_enc cs)"

section \<open>Byte classes\<close>

lemma byte_unat:
  fixes b :: u8
  shows
  "numeral n \<le> unat b \<longleftrightarrow> numeral n \<le> uint b" "unat b < numeral n \<longleftrightarrow> uint b < numeral n"
  "numeral n < unat b \<longleftrightarrow> numeral n < uint b" "unat b = numeral n \<longleftrightarrow> uint b = numeral n"
proof -
  define m where "m = unat b"
  have "uint b = int m" by (simp add: m_def)
  then show "numeral n \<le> unat b \<longleftrightarrow> numeral n \<le> uint b" "unat b < numeral n \<longleftrightarrow> uint b < numeral n"
    "numeral n < unat b \<longleftrightarrow> numeral n < uint b" "unat b = numeral n \<longleftrightarrow> uint b = numeral n"
    by (simp_all flip: m_def)
qed

lemma byte_classes:
  fixes b :: u8
  shows "b AND 0x80 = 0 \<longleftrightarrow> unat b < 128" "b AND 0xE0 = 0xC0 \<longleftrightarrow> 192 \<le> unat b \<and> unat b < 224"
    and "b AND 0xF0 = 0xE0 \<longleftrightarrow> 224 \<le> unat b \<and> unat b < 240" "b AND 0xF8 = 0xF0 \<longleftrightarrow> 240 \<le> unat b \<and> unat b < 248"
    and "b AND 0xC0 = 0x80 \<longleftrightarrow> 128 \<le> unat b \<and> unat b < 192" "b AND 0xFC = 0xC0 \<longleftrightarrow> 192 \<le> unat b \<and> unat b < 196"
proof -
  have "\<forall>b::u8. (b AND 0x80 = 0 \<longleftrightarrow> uint b < 128) \<and> (b AND 0xE0 = 0xC0 \<longleftrightarrow> 192 \<le> uint b \<and> uint b < 224)
    \<and> (b AND 0xF0 = 0xE0 \<longleftrightarrow> 224 \<le> uint b \<and> uint b < 240) \<and> (b AND 0xF8 = 0xF0 \<longleftrightarrow> 240 \<le> uint b \<and> uint b < 248)
    \<and> (b AND 0xC0 = 0x80 \<longleftrightarrow> 128 \<le> uint b \<and> uint b < 192) \<and> (b AND 0xFC = 0xC0 \<longleftrightarrow> 192 \<le> uint b \<and> uint b < 196)"
    by (subst byte_all) code_simp
  then show "b AND 0x80 = 0 \<longleftrightarrow> unat b < 128" "b AND 0xE0 = 0xC0 \<longleftrightarrow> 192 \<le> unat b \<and> unat b < 224"
    and "b AND 0xF0 = 0xE0 \<longleftrightarrow> 224 \<le> unat b \<and> unat b < 240" "b AND 0xF8 = 0xF0 \<longleftrightarrow> 240 \<le> unat b \<and> unat b < 248"
    and "b AND 0xC0 = 0x80 \<longleftrightarrow> 128 \<le> unat b \<and> unat b < 192" "b AND 0xFC = 0xC0 \<longleftrightarrow> 192 \<le> unat b \<and> unat b < 196"
    unfolding byte_unat by simp_all
qed

lemma byte_tests:
  fixes b :: u8
  shows "224 \<le> unat b \<and> unat b < 240 \<Longrightarrow> b AND 0xF = 0xD \<longleftrightarrow> unat b = 237"
    and "128 \<le> unat b \<and> unat b < 192 \<Longrightarrow> b AND 0x20 = 0 \<longleftrightarrow> unat b < 160"
    and "128 \<le> unat b \<and> unat b < 192 \<Longrightarrow> b AND 0x3F > 0xF \<longleftrightarrow> 144 \<le> unat b"
    and "240 \<le> unat b \<and> unat b < 248 \<Longrightarrow> b AND 0x7 > 0x4 \<longleftrightarrow> 244 < unat b"
    and "240 \<le> unat b \<and> unat b < 248 \<Longrightarrow> b AND 0x7 = 0x4 \<longleftrightarrow> unat b = 244"
proof -
  have "\<forall>b::u8. (224 \<le> uint b \<and> uint b < 240 \<longrightarrow> (b AND 0xF = 0xD \<longleftrightarrow> uint b = 237))
    \<and> (128 \<le> uint b \<and> uint b < 192 \<longrightarrow> (b AND 0x20 = 0 \<longleftrightarrow> uint b < 160) \<and> (b AND 0x3F > 0xF \<longleftrightarrow> 144 \<le> uint b))
    \<and> (240 \<le> uint b \<and> uint b < 248 \<longrightarrow> (b AND 0x7 > 0x4 \<longleftrightarrow> 244 < uint b) \<and> (b AND 0x7 = 0x4 \<longleftrightarrow> uint b = 244))"
    by (subst byte_all) code_simp
  then show "224 \<le> unat b \<and> unat b < 240 \<Longrightarrow> b AND 0xF = 0xD \<longleftrightarrow> unat b = 237"
    and "128 \<le> unat b \<and> unat b < 192 \<Longrightarrow> b AND 0x20 = 0 \<longleftrightarrow> unat b < 160"
    and "128 \<le> unat b \<and> unat b < 192 \<Longrightarrow> b AND 0x3F > 0xF \<longleftrightarrow> 144 \<le> unat b"
    and "240 \<le> unat b \<and> unat b < 248 \<Longrightarrow> b AND 0x7 > 0x4 \<longleftrightarrow> 244 < unat b"
    and "240 \<le> unat b \<and> unat b < 248 \<Longrightarrow> b AND 0x7 = 0x4 \<longleftrightarrow> unat b = 244"
    unfolding byte_unat by simp_all
qed

text \<open>The encoding of a code point from the values of its bytes.\<close>

lemma digit64:
  fixes m n :: nat
  assumes "n < 64"
  shows "(m * 64 + n) div 64 = m" "(m * 64 + n) mod 64 = n"
  using assms by simp_all

lemma div64: "n div 4096 = n div 64 div 64" "n div 262144 = n div 64 div 64 div 64" for n :: nat
  by (simp_all flip: div_mult2_eq)

lemma utf8_enc_values:
  "a < 128 \<Longrightarrow> utf8_enc a = [of_nat a]"
  "2 \<le> a \<Longrightarrow> a < 32 \<Longrightarrow> b < 64 \<Longrightarrow> utf8_enc (a * 64 + b) = [of_nat (192 + a), of_nat (128 + b)]"
  "a < 16 \<Longrightarrow> b < 64 \<Longrightarrow> c < 64 \<Longrightarrow> 32 \<le> a * 64 + b \<Longrightarrow>
   utf8_enc ((a * 64 + b) * 64 + c) = [of_nat (224 + a), of_nat (128 + b), of_nat (128 + c)]"
  "a < 8 \<Longrightarrow> b < 64 \<Longrightarrow> c < 64 \<Longrightarrow> d < 64 \<Longrightarrow> 16 \<le> a * 64 + b \<Longrightarrow>
   utf8_enc (((a * 64 + b) * 64 + c) * 64 + d) =
     [of_nat (240 + a), of_nat (128 + b), of_nat (128 + c), of_nat (128 + d)]"
proof -
  show "a < 128 \<Longrightarrow> utf8_enc a = [of_nat a]" by (simp add: utf8_enc_def)
  show "utf8_enc (a * 64 + b) = [of_nat (192 + a), of_nat (128 + b)]" if "2 \<le> a" "a < 32" "b < 64"
  proof -
    have "\<not> a * 64 + b < 128" "a * 64 + b < 2048" using that by linarith+
    then show ?thesis unfolding utf8_enc_def digit64 [OF that(3)] by (simp only: if_True if_False)
  qed
  show "utf8_enc ((a * 64 + b) * 64 + c) = [of_nat (224 + a), of_nat (128 + b), of_nat (128 + c)]"
    if "a < 16" "b < 64" "c < 64" "32 \<le> a * 64 + b"
  proof -
    let ?n = "(a * 64 + b) * 64 + c"
    have "\<not> ?n < 128" "\<not> ?n < 2048" "?n < 65536" using that by (simp_all add: add_mult_distrib)
    then show ?thesis unfolding utf8_enc_def div64 digit64 [OF that(2)] digit64 [OF that(3)] by (simp only: if_True if_False)
  qed
  show "utf8_enc (((a * 64 + b) * 64 + c) * 64 + d) =
      [of_nat (240 + a), of_nat (128 + b), of_nat (128 + c), of_nat (128 + d)]"
    if "a < 8" "b < 64" "c < 64" "d < 64" "16 \<le> a * 64 + b"
  proof -
    let ?n = "((a * 64 + b) * 64 + c) * 64 + d"
    have "\<not> ?n < 128" "\<not> ?n < 2048" "\<not> ?n < 65536" using that by (simp_all add: add_mult_distrib)
    then show ?thesis
      unfolding utf8_enc_def div64 digit64 [OF that(2)] digit64 [OF that(3)] digit64 [OF that(4)] by (simp only: if_True if_False)
  qed
qed

text \<open>Every code point has the form of the preceding lemma.\<close>

lemma unicode_scalar_cases:
  assumes "unicode_scalar n"
  obtains "n < 128"
  | a b where "n = a * 64 + b" "2 \<le> a" "a < 32" "b < 64"
  | a b c where "n = (a * 64 + b) * 64 + c" "a < 16" "b < 64" "c < 64" "32 \<le> a * 64 + b" "a = 13 \<Longrightarrow> b < 32"
  | a b c d where "n = ((a * 64 + b) * 64 + c) * 64 + d" "a < 5" "b < 64" "c < 64" "d < 64" "16 \<le> a * 64 + b" "a = 4 \<Longrightarrow> b < 16"
proof -
  let ?m = "n div 64" and ?l = "n div 64 div 64" and ?k = "n div 64 div 64 div 64"
  have split: "n = ?m * 64 + n mod 64" "?m = ?l * 64 + ?m mod 64" "?l = ?k * 64 + ?l mod 64"
    "n mod 64 < 64" "?m mod 64 < 64" "?l mod 64 < 64"
    by (simp_all add: div_mult_mod_eq)
  consider "n < 128" | "128 \<le> n" "n < 2048" | "2048 \<le> n" "n < 65536" | "65536 \<le> n" by linarith
  then show thesis
  proof cases
    case 2
    then show thesis using that(2) [of ?m "n mod 64"] split by linarith
  next
    case 3
    then have "32 \<le> ?m" "?l < 16" by linarith+
    moreover have "?l = 13 \<Longrightarrow> ?m mod 64 < 32" using assms 3 split unfolding unicode_scalar_def by linarith
    ultimately show thesis using that(3) [of ?l "?m mod 64" "n mod 64"] split by metis
  next
    case 4
    then have "16 \<le> ?l" "?k < 5" using assms unfolding unicode_scalar_def by linarith+
    moreover have "?k = 4 \<Longrightarrow> ?l mod 64 < 16" using assms 4 split unfolding unicode_scalar_def by linarith
    ultimately show thesis using that(4) [of ?k "?l mod 64" "?m mod 64" "n mod 64"] split by metis
  qed (rule that(1))
qed

section \<open>The analysis of a buffer\<close>

text \<open>One character in terms of the values of its bytes.\<close>

lemma byte_eq: "b = 0xE0 \<longleftrightarrow> unat b = 224" "b = 0xF0 \<longleftrightarrow> unat b = 240" for b :: u8
  by (simp_all add: word_unat_eq_iff)

lemma analyze_char_values:
  "unat p < 128 \<Longrightarrow> analyze_char (p # r) = Char 1 True False"
  "194 \<le> unat p \<Longrightarrow> unat p < 224 \<Longrightarrow> 128 \<le> unat q \<Longrightarrow> unat q < 192 \<Longrightarrow>
   analyze_char (p # q # r) = Char 2 True (196 \<le> unat p)"
  "224 \<le> unat p \<Longrightarrow> unat p < 240 \<Longrightarrow> 128 \<le> unat q \<Longrightarrow> unat q < 192 \<Longrightarrow> 128 \<le> unat t \<Longrightarrow> unat t < 192 \<Longrightarrow>
   (unat p = 224 \<Longrightarrow> 160 \<le> unat q) \<Longrightarrow> (unat p = 237 \<Longrightarrow> unat q < 160) \<Longrightarrow>
   analyze_char (p # q # t # r) = Char 3 False True"
  "240 \<le> unat p \<Longrightarrow> unat p < 245 \<Longrightarrow> 128 \<le> unat q \<Longrightarrow> unat q < 192 \<Longrightarrow> 128 \<le> unat t \<Longrightarrow> unat t < 192 \<Longrightarrow>
   128 \<le> unat u \<Longrightarrow> unat u < 192 \<Longrightarrow> (unat p = 240 \<Longrightarrow> 144 \<le> unat q) \<Longrightarrow> (unat p = 244 \<Longrightarrow> unat q < 144) \<Longrightarrow>
   analyze_char (p # q # t # u # r) = Char 4 False True"
  by (simp_all add: analyze_char_def byte_classes byte_tests byte_eq [of p] word_less_nat_alt [of p] word_less_nat_alt [of q] not_less) auto

lemma unat_byte: "m < 256 \<Longrightarrow> unat (of_nat m :: u8) = m"
  by (simp add: unsigned_of_nat take_bit_nat_eq_self)

lemma analyze_char_enc:
  assumes "unicode_scalar n"
  shows "analyze_char (utf8_enc n @ r) = Char (length (utf8_enc n)) (n < 0x800) (255 < n)"
  using assms
proof (cases rule: unicode_scalar_cases)
  case 1
  then show ?thesis using unat_byte [of n] by (simp add: utf8_enc_values analyze_char_values)
next
  case (2 a b)
  then have "n < 2048" "255 < n \<longleftrightarrow> 196 \<le> 192 + a" by linarith+
  with 2 analyze_char_values(2) [of "of_nat (192 + a)" "of_nat (128 + b)" r] show ?thesis
    by (simp add: utf8_enc_values unat_byte del: of_nat_add)
next
  case (3 a b c)
  then have "\<not> n < 2048" "255 < n" by (simp_all add: add_mult_distrib)
  moreover have "utf8_enc n = [of_nat (224 + a), of_nat (128 + b), of_nat (128 + c)]"
    using 3 utf8_enc_values(3) [of a b c] by (simp only:)
  ultimately show ?thesis using 3(2-) analyze_char_values(3) [of "of_nat (224 + a)" "of_nat (128 + b)" "of_nat (128 + c)" r]
    by (simp add: unat_byte del: of_nat_add)
next
  case (4 a b c d)
  then have "\<not> n < 2048" "255 < n" by (simp_all add: add_mult_distrib)
  moreover have "utf8_enc n = [of_nat (240 + a), of_nat (128 + b), of_nat (128 + c), of_nat (128 + d)]"
    using 4 utf8_enc_values(4) [of a b c d] by (simp only:)
  ultimately show ?thesis using 4(2-) analyze_char_values(4) [of "of_nat (240 + a)" "of_nat (128 + b)" "of_nat (128 + c)" "of_nat (128 + d)" r]
    by (simp add: unat_byte del: of_nat_add)
qed

lemma analyze_char_split:
  assumes "s \<noteq> []" and "analyze_char s = Char k c l"
  obtains p r where "s = p # r" "k = 1" "unat p < 128"
  | p q r where "s = p # q # r" "k = 2" "194 \<le> unat p" "unat p < 224" "128 \<le> unat q" "unat q < 192"
  | p q t r where "s = p # q # t # r" "k = 3" "224 \<le> unat p" "unat p < 240" "128 \<le> unat q" "unat q < 192"
      "128 \<le> unat t" "unat t < 192" "unat p = 224 \<Longrightarrow> 160 \<le> unat q" "unat p = 237 \<Longrightarrow> unat q < 160"
  | p q t u r where "s = p # q # t # u # r" "k = 4" "240 \<le> unat p" "unat p < 245" "128 \<le> unat q" "unat q < 192"
      "128 \<le> unat t" "unat t < 192" "128 \<le> unat u" "unat u < 192" "unat p = 240 \<Longrightarrow> 144 \<le> unat q" "unat p = 244 \<Longrightarrow> unat q < 144"
proof -
  obtain p r where s: "s = p # r" using assms(1) by (cases s) auto
  note d = assms(2) [unfolded analyze_char_def s]
  consider "unat p < 128" | "192 \<le> unat p" "unat p < 224" | "224 \<le> unat p" "unat p < 240" | "240 \<le> unat p" "unat p < 248" | "128 \<le> unat p \<and> unat p < 192 \<or> 248 \<le> unat p"
    by linarith
  then show thesis
  proof cases
    case 1
    with d show thesis by (intro that(1) [OF s]) (simp_all add: byte_classes)
  next
    case 2
    from d 2 obtain q r' where r: "r = q # r'" by (cases r) (simp_all add: byte_classes)
    from d 2 show thesis unfolding r
      by (intro that(2) [OF s [unfolded r]]) (simp_all add: byte_classes word_less_nat_alt [of p] split: if_splits)
  next
    case 3
    from d 3 obtain q t r' where r: "r = q # t # r'" by (cases r; cases "tl r") (simp_all add: byte_classes)
    from d 3 show thesis unfolding r
      by (intro that(3) [OF s [unfolded r]])
        (simp_all add: byte_classes byte_tests byte_eq [of p] word_less_nat_alt [of q] split: if_splits)
  next
    case 4
    from d 4 obtain q t u r' where r: "r = q # t # u # r'"
      by (cases r; cases "tl r"; cases "tl (tl r)") (simp_all add: byte_classes)
    from d 4 show thesis unfolding r
      by (intro that(4) [OF s [unfolded r]])
        (simp_all add: byte_classes byte_tests byte_eq [of p] word_less_nat_alt [of q] split: if_splits)
  next
    case 5
    with d show thesis by (auto simp: byte_classes split: if_splits)
  qed
qed

lemma analyze_char_Char:
  assumes "s \<noteq> []" and "analyze_char s = Char k c l"
  shows "\<exists>n. unicode_scalar n \<and> s = utf8_enc n @ drop k s \<and> k = length (utf8_enc n) \<and> c = (n < 0x800) \<and> l = (255 < n)"
proof -
  have off: "\<exists>a. unat p = m + a \<and> p = of_nat (m + a)" if "m \<le> unat p" for m and p :: u8
  proof -
    from that obtain a where a: "unat p = m + a" using le_Suc_ex by blast
    have "p = of_nat (unat p)" by simp
    then have "p = of_nat (m + a)" unfolding a .
    with a show ?thesis by blast
  qed
  have "\<exists>n. unicode_scalar n \<and> s = utf8_enc n @ drop k s"
    using assms
  proof (cases rule: analyze_char_split)
    case (1 p r)
    then show ?thesis using utf8_enc_values(1) [of "unat p"] by (intro exI [of _ "unat p"]) (simp add: unicode_scalar_def)
  next
    case (2 p q r)
    obtain a b where v: "unat p = 192 + a" "p = of_nat (192 + a)" "unat q = 128 + b" "q = of_nat (128 + b)"
      using 2 off [of 192 p] off [of 128 q] by auto
    have ab: "2 \<le> a" "a < 32" "b < 64" using 2 v(1,3) by linarith+
    have "unicode_scalar (a * 64 + b)" using ab unfolding unicode_scalar_def by linarith
    with utf8_enc_values(2) [OF ab] 2(1,2) show ?thesis unfolding v(2) [symmetric] v(4) [symmetric] by (intro exI [of _ "a * 64 + b"]) simp
  next
    case (3 p q t r)
    obtain a b c where v: "unat p = 224 + a" "p = of_nat (224 + a)" "unat q = 128 + b" "q = of_nat (128 + b)" "unat t = 128 + c" "t = of_nat (128 + c)"
      using 3 off [of 224 p] off [of 128 q] off [of 128 t] by auto
    have abc: "a < 16" "b < 64" "c < 64" "32 \<le> a * 64 + b" "a = 13 \<Longrightarrow> b < 32" using 3 v(1,3,5) by linarith+
    have "unicode_scalar ((a * 64 + b) * 64 + c)" using abc unfolding unicode_scalar_def add_mult_distrib
      by (cases a "13 :: nat" rule: linorder_cases) (linarith, simp, linarith)
    with utf8_enc_values(3) [OF abc(1-4)] 3(1,2) show ?thesis
      unfolding v(2) [symmetric] v(4) [symmetric] v(6) [symmetric] by (intro exI [of _ "(a * 64 + b) * 64 + c"]) simp
  next
    case (4 p q t u r)
    obtain a b c d where v: "unat p = 240 + a" "p = of_nat (240 + a)" "unat q = 128 + b" "q = of_nat (128 + b)" "unat t = 128 + c" "t = of_nat (128 + c)"
      "unat u = 128 + d" "u = of_nat (128 + d)"
      using 4 off [of 240 p] off [of 128 q] off [of 128 t] off [of 128 u] by auto
    have abc: "a < 8" "b < 64" "c < 64" "d < 64" "16 \<le> a * 64 + b" "a < 5" "a = 4 \<Longrightarrow> b < 16" using 4 v(1,3,5,7) by linarith+
    have "unicode_scalar (((a * 64 + b) * 64 + c) * 64 + d)" using abc unfolding unicode_scalar_def add_mult_distrib by linarith
    with utf8_enc_values(4) [OF abc(1-5)] 4(1,2) show ?thesis
      unfolding v(2) [symmetric] v(4) [symmetric] v(6) [symmetric] v(8) [symmetric]
      by (intro exI [of _ "((a * 64 + b) * 64 + c) * 64 + d"]) simp
  qed
  then obtain n where n: "unicode_scalar n" "s = utf8_enc n @ drop k s" by blast
  from analyze_char_enc [OF n(1), of "drop k s"] n(2) assms(2) show ?thesis using n by (intro exI [of _ n]) simp
qed

lemma utf8_encode_simps [simp]:
  "utf8_encode [] = []" "utf8_encode (c # cs) = utf8_enc c @ utf8_encode cs"
  "utf8_encode (cs @ ds) = utf8_encode cs @ utf8_encode ds"
  by (simp_all add: utf8_encode_def)

text \<open>
  What the loop has found when it stops: the bytes up to \<open>err_pos\<close> are the encoding of as many scalar
  values as were counted, and why it has stopped there.  \<open>utf8_need\<close> is the number of bytes that a lead
  byte asks for; \<open>at_limits\<close> tells which of the two limits a number of characters has reached.
\<close>

definition utf8_need :: "u8 \<Rightarrow> nat" where
  "utf8_need c = (if c AND 0xE0 = 0xC0 then 2 else if c AND 0xF0 = 0xE0 then 3 else if c AND 0xF8 = 0xF0 then 4 else 1)"

definition at_limits :: "nat \<Rightarrow> int option \<Rightarrow> nat \<Rightarrow> bool \<times> bool" where
  "at_limits max_chars lft n = (max_chars \<noteq> 0 \<and> n = max_chars, case lft of None \<Rightarrow> False | Some l \<Rightarrow> int n = max 1 l)"

definition within_limits :: "nat \<Rightarrow> int option \<Rightarrow> nat \<Rightarrow> bool" where
  "within_limits max_chars lft n \<longleftrightarrow> (max_chars = 0 \<or> n \<le> max_chars) \<and> (case lft of None \<Rightarrow> True | Some l \<Rightarrow> int n \<le> max 1 l)"

definition analyzed :: "bytes \<Rightarrow> int option \<Rightarrow> nat \<Rightarrow> utf8_res \<times> utf8_info \<Rightarrow> nat list \<Rightarrow> bool" where
  "analyzed source lft max_chars r cs \<longleftrightarrow> (case r of (res, info) \<Rightarrow>
     let rest = drop (err_pos info) source; (at_max, at_left) = at_limits max_chars lft (length cs) in
     list_all unicode_scalar cs \<and> source = utf8_encode cs @ rest
     \<and> err_pos info = length (utf8_encode cs) \<and> num_chars info = length cs
     \<and> num_latin1_chars info = (if list_all (\<lambda>c. c < 256) cs then int (length cs) else -1)
     \<and> left info = map_option (\<lambda>l. l - int (length cs) + of_bool (res = ERTS_UTF8_OK_MAX_CHARS)) lft
     \<and> (if rest = [] then res = ERTS_UTF8_OK
        else within_limits max_chars lft (length cs)
          \<and> (if at_max then res = ERTS_UTF8_OK_MAX_CHARS
             else if at_left then res = ERTS_UTF8_ANALYZE_MORE
             else (\<forall>c r. unicode_scalar c \<longrightarrow> rest \<noteq> utf8_enc c @ r)
               \<and> res = (if length rest < utf8_need (hd rest) then ERTS_UTF8_INCOMPLETE else ERTS_UTF8_ERROR))))"

lemma analyze_char_Break:
  assumes "s \<noteq> []" and "analyze_char s = Break res"
  shows "res = (if length s < utf8_need (hd s) then ERTS_UTF8_INCOMPLETE else ERTS_UTF8_ERROR)"
proof -
  have hd: "hd s = s ! 0" using assms(1) by (simp add: hd_conv_nth)
  have one: "\<not> length s < 1" using assms(1) by (simp add: Suc_le_eq)
  show ?thesis using assms(2) one unfolding analyze_char_def utf8_need_def hd by (auto split: if_splits)
qed

text \<open>The invariant: while bytes are left, the limits have not been reached.\<close>

definition below_limits :: "nat \<Rightarrow> int option \<Rightarrow> nat \<Rightarrow> bool" where
  "below_limits max_chars lft n \<longleftrightarrow> (max_chars = 0 \<or> n < max_chars) \<and> (case lft of None \<Rightarrow> True | Some l \<Rightarrow> n = 0 \<or> int n < l)"

lemma below_limitsD:
  "below_limits max_chars lft n \<Longrightarrow> at_limits max_chars lft n = (False, False) \<and> within_limits max_chars lft n"
  by (auto simp: below_limits_def at_limits_def within_limits_def split: option.splits)

lemma below_limits_Suc:
  "below_limits max_chars lft n \<Longrightarrow> within_limits max_chars lft (n + 1)"
  "below_limits max_chars lft n \<Longrightarrow> below_limits max_chars lft (n + 1) \<longleftrightarrow> at_limits max_chars lft (n + 1) = (False, False)"
  "below_limits max_chars lft n \<Longrightarrow> snd (at_limits max_chars lft (n + 1)) \<longleftrightarrow> (\<exists>m \<in> set_option (map_option (\<lambda>l. l - int n - 1) lft). m \<le> 0)"
  by (auto simp: below_limits_def at_limits_def within_limits_def split: option.splits)

lemma analyze_loop_analyzed:
  assumes "list_all unicode_scalar ds" and "nchars = length ds" and "pos = length (utf8_encode ds)"
    and "is_latin1 = list_all (\<lambda>c. c < 256) ds" and "is_latin1 \<Longrightarrow> latin1_count = length ds"
    and "lft = map_option (\<lambda>l. l - int (length ds)) lft0" and "source \<noteq> [] \<Longrightarrow> below_limits max_chars lft0 (length ds)"
  shows "\<exists>cs. analyzed (utf8_encode ds @ source) lft0 max_chars
    (analyze_loop source pos latin1_count is_latin1 nchars max_chars lft) (ds @ cs)"
  using assms
proof (induction source pos latin1_count is_latin1 nchars max_chars lft arbitrary: ds rule: analyze_loop.induct)
  case (1 source pos latin1_count is_latin1 nchars max_chars lft)
  show ?case
  proof (cases "source = []")
    case True
    with 1(2-) show ?thesis by (intro exI [of _ "[]"]) (auto simp: analyzed_def analyze_loop.simps [of "[]"] case_prod_beta)
  next
    case ne: False
    note below = 1(8) [OF ne]
    show ?thesis
    proof (cases "analyze_char source")
      case (Break res)
      have "source \<noteq> utf8_enc c @ r" if "unicode_scalar c" for c r
        using analyze_char_enc [OF that, of r] Break by auto
      moreover note analyze_char_Break [OF ne Break] below_limitsD [OF below]
      ultimately show ?thesis using 1(2-7) ne Break
        by (intro exI [of _ "[]"]) (auto simp: analyzed_def analyze_loop.simps [of source] option.map_ident)
    next
      case (Char k c l)
      from analyze_char_Char [OF ne Char] obtain n where n: "unicode_scalar n" "source = utf8_enc n @ drop k source"
        "k = length (utf8_enc n)" "c = (n < 0x800)" "l = (255 < n)" by blast
      let ?ds = "ds @ [n]" and ?rest = "drop k source"
      let ?cnt = "if c then latin1_count + 1 else latin1_count" and ?lat = "is_latin1 \<and> \<not> l"
      have src: "utf8_encode ds @ source = utf8_encode ?ds @ ?rest" using n(2) by simp
      have pre: "list_all unicode_scalar ?ds" "nchars + 1 = length ?ds" "pos + k = length (utf8_encode ?ds)"
        "?lat = list_all (\<lambda>c. c < 256) ?ds" "?lat \<Longrightarrow> ?cnt = length ?ds"
        using 1(2-6) n by auto
      have lft: "map_option (\<lambda>l. l - 1) lft = map_option (\<lambda>l. l - int (length ?ds)) lft0"
        unfolding 1(7) option.map_comp by (rule option.map_cong0) simp
      obtain at_max at_left where lim: "at_limits max_chars lft0 (length ?ds) = (at_max, at_left)" by fastforce
      have am: "at_max \<longleftrightarrow> max_chars \<noteq> 0 \<and> nchars + 1 = max_chars" using lim 1(3) by (auto simp: at_limits_def)
      have al: "at_left \<longleftrightarrow> (\<exists>m \<in> set_option (map_option (\<lambda>l. l - 1) lft). m \<le> 0)"
        using below_limits_Suc(3) [OF below] lim 1(7) by (simp add: option.map_comp o_def)
      note lsuc = below_limits_Suc(1,2) [OF below, folded]
      let ?info = "\<lambda>lft. \<lparr>err_pos = pos + k, num_chars = nchars + 1, num_latin1_chars = (if ?lat then int ?cnt else -1), left = lft\<rparr>"
      have num: "(if ?lat then int ?cnt else -1) = (if list_all (\<lambda>c. c < 256) ?ds then int (length ?ds) else -1)"
        using pre(4,5) by (metis (mono_tags))
      have step: "analyze_loop source pos latin1_count is_latin1 nchars max_chars lft =
          (if max_chars \<noteq> 0 \<and> ?rest \<noteq> [] \<and> nchars + 1 = max_chars then (ERTS_UTF8_OK_MAX_CHARS, ?info lft)
           else if at_left \<and> ?rest \<noteq> [] then (ERTS_UTF8_ANALYZE_MORE, ?info (map_option (\<lambda>l. l - 1) lft))
           else analyze_loop ?rest (pos + k) ?cnt ?lat (nchars + 1) max_chars (map_option (\<lambda>l. l - 1) lft))"
        unfolding al using ne by (subst analyze_loop.simps) (simp only: Let_def if_False Char utf8_step.case)
      show ?thesis
      proof (cases "(at_max \<or> at_left) \<and> ?rest \<noteq> []")
        case True
        have "analyze_loop source pos latin1_count is_latin1 nchars max_chars lft =
            (if at_max then (ERTS_UTF8_OK_MAX_CHARS, ?info lft) else (ERTS_UTF8_ANALYZE_MORE, ?info (map_option (\<lambda>l. l - 1) lft)))"
          unfolding step using True am by auto
        moreover have "lft = map_option (\<lambda>l. l - int (length ?ds) + 1) lft0" unfolding 1(7) by (rule option.map_cong0) simp
        ultimately have "analyzed (utf8_encode ?ds @ ?rest) lft0 max_chars
            (analyze_loop source pos latin1_count is_latin1 nchars max_chars lft) ?ds"
          using True pre(1-3) lft lsuc(1) lim num unfolding analyzed_def by (cases at_max) simp_all
        then show ?thesis unfolding src by blast
      next
        case False
        then have "analyze_loop source pos latin1_count is_latin1 nchars max_chars lft =
            analyze_loop ?rest (pos + k) ?cnt ?lat (nchars + 1) max_chars (map_option (\<lambda>l. l - 1) lft)"
          unfolding step using am by auto
        moreover have "below_limits max_chars lft0 (length ?ds)" if "?rest \<noteq> []" using that False lsuc(2) lim by simp
        with 1(1) [OF refl ne Char refl refl refl refl refl _ refl _ pre lft] False am al
        obtain cs where "analyzed (utf8_encode ?ds @ ?rest) lft0 max_chars
          (analyze_loop ?rest (pos + k) ?cnt ?lat (nchars + 1) max_chars (map_option (\<lambda>l. l - 1) lft)) (?ds @ cs)" by blast
        ultimately show ?thesis unfolding src by (intro exI [of _ "n # cs"]) simp
      qed
    qed
  qed
qed

section \<open>Lists of code points\<close>

lemma or_digit:
  fixes x y :: u64
  assumes "y < 64"
  shows "push_bit 6 x OR y = x * 64 + y"
proof -
  have "uint y < 64" using assms by (simp add: word_less_def)
  then have "take_bit 6 y = y" by (intro word_uint_eqI) (simp add: unsigned_take_bit_eq take_bit_int_eq_self)
  then have "push_bit 6 x OR y = push_bit 6 x + y"
    by (intro disjunctive_add [symmetric]) (metis bit_push_bit_iff bit_take_bit_iff linorder_not_less)
  then show ?thesis by (simp add: push_bit_eq_mult)
qed

text \<open>The tests and masks on a byte that was widened to a word.\<close>

lemma wide_and: "ucast b AND ucast m = (ucast c :: u64) \<longleftrightarrow> b AND m = c" for b m c :: u8
proof -
  have "ucast b AND ucast m = (ucast (b AND m) :: u64)" by (simp add: unsigned_and_eq)
  moreover have "ucast x = (ucast y :: u64) \<longleftrightarrow> x = y" for x y :: u8
  proof
    assume "ucast x = (ucast y :: u64)"
    then have "uint (ucast x :: u64) = uint (ucast y :: u64)" by simp
    moreover have "take_bit 64 (uint z) = uint z" for z :: u8
      using uint_lt2p [of z] by (intro take_bit_int_eq_self) simp_all
    ultimately show "x = y" by (intro word_uint_eqI) (simp add: unsigned_ucast_eq)
  qed simp
  ultimately show ?thesis by simp
qed

lemma wide_byte_classes:
  fixes b :: u8
  shows "ucast b AND 0x80 = (0 :: u64) \<longleftrightarrow> unat b < 128" "ucast b AND 0xE0 = (0xC0 :: u64) \<longleftrightarrow> 192 \<le> unat b \<and> unat b < 224"
    and "ucast b AND 0xF0 = (0xE0 :: u64) \<longleftrightarrow> 224 \<le> unat b \<and> unat b < 240"
    and "ucast b AND 0xF8 = (0xF0 :: u64) \<longleftrightarrow> 240 \<le> unat b \<and> unat b < 248"
  using wide_and [of b "0x80" 0] wide_and [of b "0xE0" "0xC0"] wide_and [of b "0xF0" "0xE0"] wide_and [of b "0xF8" "0xF0"]
  by (simp_all add: byte_classes)

lemma wide_mask: "ucast b AND mask k = (of_nat (unat b mod 2 ^ k) :: u64)" for b :: u8
proof -
  have "ucast b AND mask k = take_bit k (ucast b :: u64)" by (simp only: take_bit_eq_mask)
  also have "\<dots> = ucast (take_bit k b)" by (simp add: unsigned_take_bit_eq)
  also have "\<dots> = of_nat (unat (take_bit k b))" by simp
  also have "unat (take_bit k b) = unat b mod 2 ^ k" by (subst unsigned_take_bit_eq) (simp only: take_bit_eq_mod)
  finally show ?thesis .
qed

lemma byte_bits:
  fixes b :: u8
  shows "unat b = 192 + n \<Longrightarrow> n < 32 \<Longrightarrow> ucast b AND 0x1F = (of_nat n :: u64)"
    and "unat b = 224 + n \<Longrightarrow> n < 16 \<Longrightarrow> ucast b AND 0xF = (of_nat n :: u64)"
    and "unat b = 240 + n \<Longrightarrow> n < 8 \<Longrightarrow> ucast b AND 0x7 = (of_nat n :: u64)"
    and "unat b = 128 + n \<Longrightarrow> n < 64 \<Longrightarrow> ucast b AND 0x3F = (of_nat n :: u64)"
proof -
  have "(192 + n) mod 32 = n" if "n < 32" using that mod_mult_self3 [of 6 32 n] by simp
  moreover have "(224 + n) mod 16 = n" if "n < 16" using that mod_mult_self3 [of 14 16 n] by simp
  moreover have "(240 + n) mod 8 = n" if "n < 8" using that mod_mult_self3 [of 30 8 n] by simp
  moreover have "(128 + n) mod 64 = n" if "n < 64" using that mod_mult_self3 [of 2 64 n] by simp
  ultimately show "unat b = 192 + n \<Longrightarrow> n < 32 \<Longrightarrow> ucast b AND 0x1F = (of_nat n :: u64)"
    "unat b = 224 + n \<Longrightarrow> n < 16 \<Longrightarrow> ucast b AND 0xF = (of_nat n :: u64)"
    "unat b = 240 + n \<Longrightarrow> n < 8 \<Longrightarrow> ucast b AND 0x7 = (of_nat n :: u64)"
    "unat b = 128 + n \<Longrightarrow> n < 64 \<Longrightarrow> ucast b AND 0x3F = (of_nat n :: u64)"
    using wide_mask [of b 5] wide_mask [of b 4] wide_mask [of b 3] wide_mask [of b 6]
    by (simp_all add: mask_eq_exp_minus_1)
qed

text \<open>A continuation byte is passed over, and the first byte of a character yields its code point.\<close>

lemma unipoint_cont:
  assumes "i < length b" and "128 \<le> unat (b ! i)" and "unat (b ! i) < 192"
  shows "unipoint_at b i = Some None"
  using assms by (simp add: unipoint_at_def byte_at_def wide_byte_classes)

lemma of_nat_lt_64: "n < 64 \<Longrightarrow> (of_nat n :: u64) < 64"
  by (simp add: word_less_nat_alt unsigned_of_nat take_bit_nat_eq_self)

lemma unipoint_values:
  fixes ws :: bytes
  assumes bytes: "\<forall>k < length ws. byte_at b (i + k) = Some (ucast (ws ! k))"
  shows "ws = [p] \<Longrightarrow> unat p < 128 \<Longrightarrow> unipoint_at b i = Some (Some (ucast p))"
    and "ws = [p, q] \<Longrightarrow> unat p = 192 + m \<Longrightarrow> unat q = 128 + n \<Longrightarrow> m < 32 \<Longrightarrow> n < 64 \<Longrightarrow>
      unipoint_at b i = Some (Some (of_nat (m * 64 + n)))"
    and "ws = [p, q, t] \<Longrightarrow> unat p = 224 + m \<Longrightarrow> unat q = 128 + n \<Longrightarrow> unat t = 128 + k \<Longrightarrow> m < 16 \<Longrightarrow> n < 64 \<Longrightarrow> k < 64 \<Longrightarrow>
      unipoint_at b i = Some (Some (of_nat ((m * 64 + n) * 64 + k)))"
    and "ws = [p, q, t, u] \<Longrightarrow> unat p = 240 + m \<Longrightarrow> unat q = 128 + n \<Longrightarrow> unat t = 128 + k \<Longrightarrow> unat u = 128 + l \<Longrightarrow>
      m < 8 \<Longrightarrow> n < 64 \<Longrightarrow> k < 64 \<Longrightarrow> l < 64 \<Longrightarrow>
      unipoint_at b i = Some (Some (of_nat (((m * 64 + n) * 64 + k) * 64 + l)))"
proof -
  show "ws = [p] \<Longrightarrow> unat p < 128 \<Longrightarrow> unipoint_at b i = Some (Some (ucast p))"
    using bytes [rule_format, of 0] by (simp add: unipoint_at_def wide_byte_classes)
  show "ws = [p, q] \<Longrightarrow> unat p = 192 + m \<Longrightarrow> unat q = 128 + n \<Longrightarrow> m < 32 \<Longrightarrow> n < 64 \<Longrightarrow>
      unipoint_at b i = Some (Some (of_nat (m * 64 + n)))"
    using bytes [rule_format, of 0] bytes [rule_format, of 1] by (simp add: unipoint_at_def wide_byte_classes byte_bits or_digit of_nat_lt_64)
  show "unipoint_at b i = Some (Some (of_nat ((m * 64 + n) * 64 + k)))"
    if "ws = [p, q, t]" "unat p = 224 + m" "unat q = 128 + n" "unat t = 128 + k" "m < 16" "n < 64" "k < 64"
  proof -
    have "push_bit 12 (of_nat m) OR push_bit 6 (of_nat n) OR of_nat k = push_bit 6 (push_bit 6 (of_nat m) OR of_nat n) OR (of_nat k :: u64)"
      by (simp add: push_bit_or or.assoc)
    also have "\<dots> = of_nat ((m * 64 + n) * 64 + k)" using that(6,7) by (simp add: or_digit of_nat_lt_64)
    finally show ?thesis
      using that bytes [rule_format, of 0] bytes [rule_format, of 1] bytes [rule_format, of 2] by (simp add: unipoint_at_def wide_byte_classes byte_bits or.assoc numeral_2_eq_2 del: push_bit_and)
  qed
  show "unipoint_at b i = Some (Some (of_nat (((m * 64 + n) * 64 + k) * 64 + l)))"
    if "ws = [p, q, t, u]" "unat p = 240 + m" "unat q = 128 + n" "unat t = 128 + k" "unat u = 128 + l" "m < 8" "n < 64" "k < 64" "l < 64"
  proof -
    have "push_bit 18 (of_nat m) OR push_bit 12 (of_nat n) OR push_bit 6 (of_nat k) OR of_nat l =
        push_bit 6 (push_bit 6 (push_bit 6 (of_nat m) OR of_nat n) OR of_nat k) OR (of_nat l :: u64)"
      by (simp add: push_bit_or or.assoc)
    also have "\<dots> = of_nat (((m * 64 + n) * 64 + k) * 64 + l)" using that(7-9) by (simp add: or_digit of_nat_lt_64)
    finally show ?thesis
      using that bytes [rule_format, of 0] bytes [rule_format, of 1] bytes [rule_format, of 2] bytes [rule_format, of 3]
      by (simp add: unipoint_at_def wide_byte_classes byte_bits or.assoc numeral_2_eq_2 numeral_3_eq_3 del: push_bit_and)
  qed
qed

lemma unipoint_enc:
  assumes "unicode_scalar n" and "b = pre @ utf8_enc n @ post"
  shows "unipoint_at b (length pre) = Some (Some (of_nat n))"
    and "0 < j \<Longrightarrow> j < length (utf8_enc n) \<Longrightarrow> unipoint_at b (length pre + j) = Some None"
proof -
  have "\<forall>k < length (utf8_enc n). byte_at b (length pre + k) = Some (ucast (utf8_enc n ! k))"
    by (simp add: byte_at_def assms(2) nth_append)
  note v = unipoint_values [OF this]
  show "unipoint_at b (length pre) = Some (Some (of_nat n))"
    using assms(1)
  proof (cases rule: unicode_scalar_cases)
    case 1
    have "(ucast (of_nat n :: u8) :: u64) = of_nat (unat (of_nat n :: u8))" by (rule of_nat_unat [symmetric])
    with 1 show ?thesis using v(1) [OF utf8_enc_values(1) [OF 1]] unat_byte [of n] by simp
  next
    case (2 a b)
    from v(2) [of "of_nat (192 + a)" "of_nat (128 + b)" a b] utf8_enc_values(2) [OF 2(2-4)] 2 show ?thesis
      by (simp add: unat_byte del: of_nat_add)
  next
    case (3 a b c)
    from v(3) [of "of_nat (224 + a)" "of_nat (128 + b)" "of_nat (128 + c)" a b c] utf8_enc_values(3) [OF 3(2-5)] 3(2-) show ?thesis
      unfolding 3(1) by (simp add: unat_byte del: of_nat_add)
  next
    case (4 a b c d)
    from v(4) [of "of_nat (240 + a)" "of_nat (128 + b)" "of_nat (128 + c)" "of_nat (128 + d)" a b c d] utf8_enc_values(4) [OF _ 4(3-6)] 4(2-) show ?thesis
      unfolding 4(1) by (simp add: unat_byte del: of_nat_add)
  qed
  show "unipoint_at b (length pre + j) = Some None" if "0 < j" "j < length (utf8_enc n)"
  proof (rule unipoint_cont)
    show "length pre + j < length b" using that assms(2) by simp
    have "128 \<le> unat (utf8_enc n ! j) \<and> unat (utf8_enc n ! j) < 192"
      using that by (auto simp: utf8_enc_def unat_byte nth_Cons less_Suc_eq simp del: of_nat_add split: nat.splits if_splits)
    then show "128 \<le> unat (b ! (length pre + j))" "unat (b ! (length pre + j)) < 192"
      using that by (simp_all add: assms(2) nth_append)
  qed
qed

lemma utf8_buf_char:
  assumes "unicode_scalar n" and "b = pre @ utf8_enc n @ post"
  shows "utf8_buf_loop b (length pre + length (utf8_enc n)) lft ret =
    (if lft - 1 = 0 then Some (of_nat n # ret, int (length pre)) else utf8_buf_loop b (length pre) (lft - 1) (of_nat n # ret))"
proof -
  have "utf8_enc n \<noteq> []" by (simp add: utf8_enc_def)
  then obtain k where k: "length (utf8_enc n) = Suc k" by (cases "utf8_enc n") auto
  have "utf8_buf_loop b (length pre + Suc j) lft ret =
    (if lft - 1 = 0 then Some (of_nat n # ret, int (length pre)) else utf8_buf_loop b (length pre) (lft - 1) (of_nat n # ret))"
    if "j < length (utf8_enc n)" for j
    using that
  proof (induction j)
    case 0
    then show ?case by (simp add: unipoint_enc(1) [OF assms])
  next
    case (Suc j)
    with unipoint_enc(2) [OF assms, of "Suc j"] show ?case by simp
  qed
  from this [of k] show ?thesis unfolding k by simp
qed

lemma utf8_buf_loop_encode:
  assumes "list_all unicode_scalar cs" and "cs \<noteq> []" and "length cs < 2 ^ 64"
  shows "utf8_buf_loop (utf8_encode cs @ post) (length (utf8_encode cs)) (of_nat (length cs)) ret = Some (map of_nat cs @ ret, 0)"
  using assms
proof (induction cs arbitrary: post ret rule: rev_induct)
  case (snoc n cs)
  let ?b = "utf8_encode (cs @ [n]) @ post"
  have char: "utf8_buf_loop ?b (length (utf8_encode (cs @ [n]))) lft ret =
    (if lft - 1 = 0 then Some (of_nat n # ret, int (length (utf8_encode cs)))
     else utf8_buf_loop ?b (length (utf8_encode cs)) (lft - 1) (of_nat n # ret))" for lft
    using utf8_buf_char [of n ?b "utf8_encode cs" post] snoc.prems by simp
  show ?case
  proof (cases "cs = []")
    case False
    have "(of_nat (length cs) :: u64) \<noteq> 0" using snoc.prems False
      by (simp add: word_of_nat_eq_0_iff nat_dvd_not_less)
    moreover have "utf8_buf_loop ?b (length (utf8_encode cs)) (of_nat (length cs)) (of_nat n # ret) = Some (map of_nat cs @ of_nat n # ret, 0)"
      using snoc.IH [of "utf8_enc n @ post" "of_nat n # ret"] snoc.prems False by simp
    ultimately show ?thesis unfolding char by simp
  next
    case True
    with char [of 1] show ?thesis by simp
  qed
qed simp

lemma utf8_enc_not_Nil [simp]: "utf8_enc n \<noteq> []"
  by (simp add: utf8_enc_def)

text \<open>The analysis of a valid buffer, with or without a bound on the number of characters.\<close>

lemma analyze_loop_encode:
  assumes "list_all unicode_scalar cs" and "max_chars = 0 \<or> nchars + length cs \<le> max_chars"
  shows "\<exists>lat cnt. analyze_loop (utf8_encode cs) pos latin1_count is_latin1 nchars max_chars None =
    (ERTS_UTF8_OK, \<lparr>err_pos = pos + length (utf8_encode cs), num_chars = nchars + length cs, num_latin1_chars = (if lat then int cnt else -1), left = None\<rparr>)
    \<and> lat = (is_latin1 \<and> list_all (\<lambda>c. c < 256) cs) \<and> (lat \<longrightarrow> cnt = latin1_count + length cs)"
  using assms
proof (induction cs arbitrary: pos latin1_count is_latin1 nchars)
  case Nil
  show ?case by (rule exI [of _ is_latin1], rule exI [of _ latin1_count]) (simp add: analyze_loop.simps [of "[]"])
next
  case (Cons c cs)
  let ?cnt = "if c < 0x800 then latin1_count + 1 else latin1_count" and ?lat = "is_latin1 \<and> \<not> 255 < c"
  have "utf8_encode cs = [] \<Longrightarrow> cs = []" by (cases cs) simp_all
  with Cons.prems have "analyze_loop (utf8_encode (c # cs)) pos latin1_count is_latin1 nchars max_chars None =
      analyze_loop (utf8_encode cs) (pos + length (utf8_enc c)) ?cnt ?lat (nchars + 1) max_chars None"
    by (subst analyze_loop.simps) (auto simp: analyze_char_enc Let_def)
  moreover obtain lat cnt where r: "analyze_loop (utf8_encode cs) (pos + length (utf8_enc c)) ?cnt ?lat (nchars + 1) max_chars None =
      (ERTS_UTF8_OK, \<lparr>err_pos = pos + length (utf8_enc c) + length (utf8_encode cs), num_chars = nchars + 1 + length cs,
        num_latin1_chars = (if lat then int cnt else -1), left = None\<rparr>)"
    "lat = (?lat \<and> list_all (\<lambda>c. c < 256) cs)" "lat \<Longrightarrow> cnt = ?cnt + length cs"
    using Cons.IH [of "nchars + 1" "pos + length (utf8_enc c)" ?cnt ?lat] Cons.prems by auto
  moreover have "lat = (is_latin1 \<and> list_all (\<lambda>c. c < 256) (c # cs))" using r(2) by auto
  moreover have "lat \<Longrightarrow> cnt = latin1_count + length (c # cs)" using r(2,3) by auto
  ultimately show ?case by (intro exI [of _ lat] exI [of _ cnt]) (simp add: add.assoc)
qed

lemma erts_analyze_utf8_x_encode:
  assumes "list_all unicode_scalar cs" and "max_chars = 0 \<or> length cs \<le> max_chars"
  shows "erts_analyze_utf8_x (utf8_encode cs) None max_chars =
    (ERTS_UTF8_OK, \<lparr>err_pos = length (utf8_encode cs), num_chars = length cs,
       num_latin1_chars = (if list_all (\<lambda>c. c < 256) cs then int (length cs) else -1), left = None\<rparr>)"
  using analyze_loop_encode [OF assms(1), of max_chars 0 0 0 True] assms(2)
  by (auto simp: erts_analyze_utf8_x_def)

text \<open>The analysis stops at the bound when characters remain.\<close>

lemma analyze_loop_max:
  assumes "list_all unicode_scalar (c # cs)" and "max_chars = nchars + length (c # cs)" and "r \<noteq> []"
  shows "\<exists>lat cnt. analyze_loop (utf8_encode (c # cs) @ r) pos latin1_count is_latin1 nchars max_chars None =
    (ERTS_UTF8_OK_MAX_CHARS, \<lparr>err_pos = pos + length (utf8_encode (c # cs)), num_chars = max_chars, num_latin1_chars = (if lat then int cnt else -1), left = None\<rparr>)
    \<and> lat = (is_latin1 \<and> list_all (\<lambda>c. c < 256) (c # cs)) \<and> (lat \<longrightarrow> cnt = latin1_count + length (c # cs))"
  using assms
proof (induction cs arbitrary: c pos latin1_count is_latin1 nchars)
  case Nil
  let ?cnt = "if c < 0x800 then latin1_count + 1 else latin1_count" and ?lat = "is_latin1 \<and> \<not> 255 < c"
  show ?case using Nil
    by (intro exI [of _ ?lat] exI [of _ ?cnt], subst analyze_loop.simps) (auto simp: analyze_char_enc Let_def)
next
  case (Cons d cs)
  let ?cnt = "if c < 0x800 then latin1_count + 1 else latin1_count" and ?lat = "is_latin1 \<and> \<not> 255 < c"
  have "analyze_loop (utf8_encode (c # d # cs) @ r) pos latin1_count is_latin1 nchars max_chars None =
      analyze_loop (utf8_encode (d # cs) @ r) (pos + length (utf8_enc c)) ?cnt ?lat (nchars + 1) max_chars None"
    using Cons.prems by (subst analyze_loop.simps) (auto simp: analyze_char_enc Let_def)
  moreover obtain lat cnt where r: "analyze_loop (utf8_encode (d # cs) @ r) (pos + length (utf8_enc c)) ?cnt ?lat (nchars + 1) max_chars None =
      (ERTS_UTF8_OK_MAX_CHARS, \<lparr>err_pos = pos + length (utf8_enc c) + length (utf8_encode (d # cs)), num_chars = max_chars,
        num_latin1_chars = (if lat then int cnt else -1), left = None\<rparr>)"
    "lat = (?lat \<and> list_all (\<lambda>c. c < 256) (d # cs))" "lat \<Longrightarrow> cnt = ?cnt + length (d # cs)"
    using Cons.IH [of d "nchars + 1" "pos + length (utf8_enc c)" ?cnt ?lat] Cons.prems by auto
  moreover have "lat = (is_latin1 \<and> list_all (\<lambda>c. c < 256) (c # d # cs))" using r(2) by auto
  moreover have "lat \<Longrightarrow> cnt = latin1_count + length (c # d # cs)" using r(2,3) by auto
  ultimately show ?case by (intro exI [of _ lat] exI [of _ cnt]) (simp add: add.assoc)
qed

lemma erts_analyze_utf8_x_max:
  assumes "list_all unicode_scalar cs" and "max_chars < length cs" and "0 < max_chars"
  shows "erts_analyze_utf8_x (utf8_encode cs) None max_chars =
    (ERTS_UTF8_OK_MAX_CHARS, \<lparr>err_pos = length (utf8_encode (take max_chars cs)), num_chars = max_chars,
       num_latin1_chars = (if list_all (\<lambda>c. c < 256) (take max_chars cs) then int max_chars else -1), left = None\<rparr>)"
proof -
  let ?r = "utf8_encode (drop max_chars cs)"
  have "utf8_encode cs = utf8_encode (take max_chars cs) @ ?r" by (simp flip: utf8_encode_simps(3))
  moreover obtain c ds where t: "take max_chars cs = c # ds" using assms by (cases "take max_chars cs") auto
  moreover have "?r \<noteq> []" using assms by (cases "drop max_chars cs") auto
  moreover have "list_all unicode_scalar (take max_chars cs)" using assms(1) by (metis append_take_drop_id list_all_append)
  moreover have "max_chars = length (take max_chars cs)" using assms by simp
  ultimately show ?thesis
    using analyze_loop_max [of c ds max_chars 0 ?r 0 0 True] by (auto simp: erts_analyze_utf8_x_def)
qed

text \<open>The encoding is uniquely decodable.\<close>

lemma utf8_enc_inj:
  assumes "unicode_scalar c" and "unicode_scalar d" and "utf8_enc c @ r = utf8_enc d @ s"
  shows "c = d \<and> r = s"
proof -
  have "unipoint_at (utf8_enc c @ r) 0 = Some (Some (of_nat c))" "unipoint_at (utf8_enc c @ r) 0 = Some (Some (of_nat d))"
    using unipoint_enc(1) [OF assms(1), of _ "[]" r] unipoint_enc(1) [OF assms(2), of _ "[]" s] assms(3) by simp_all
  then have "unat (of_nat c :: u64) = unat (of_nat d :: u64)" by simp
  moreover have "c < 2 ^ 64" "d < 2 ^ 64" using assms(1,2) by (auto simp: unicode_scalar_def)
  ultimately have "c = d" by (simp add: unsigned_of_nat take_bit_nat_eq_self)
  with assms(3) show ?thesis by simp
qed

lemma utf8_encode_inj:
  assumes "list_all unicode_scalar cs" and "list_all unicode_scalar ds" and "utf8_encode cs = utf8_encode ds"
  shows "cs = ds"
  using assms
proof (induction cs arbitrary: ds)
  case Nil
  then show ?case by (cases ds) simp_all
next
  case (Cons c cs)
  then obtain d ds' where "ds = d # ds'" by (cases ds) simp_all
  with Cons utf8_enc_inj [of c d] show ?case by auto
qed

lemma length_utf8_encode: "length cs \<le> length (utf8_encode cs) \<and> length (utf8_encode cs) \<le> 4 * length cs"
proof -
  have "1 \<le> length (utf8_enc c) \<and> length (utf8_enc c) \<le> 4" for c by (simp add: utf8_enc_def)
  note enc = this
  show ?thesis
  proof (induction cs)
    case (Cons c cs)
    with enc [of c] show ?case by (simp del: utf8_enc_not_Nil length_greater_0_conv)
  qed simp
qed

section \<open>Properties\<close>

text \<open>
  C34. The analysis of any buffer, with a maximal number of characters (zero for none) and a budget \<open>left\<close> (or none):
  the bytes up to the returned position are the UTF-8 encoding of Unicode scalar values, these are counted, and
  it is told how many they are when all of them are Latin-1 characters and -1 otherwise.  If nothing follows,
  the result is \<open>ERTS_UTF8_OK\<close>.  Otherwise the count is within both limits, and the result is
  \<open>ERTS_UTF8_OK_MAX_CHARS\<close> when the maximum is reached; else \<open>ERTS_UTF8_ANALYZE_MORE\<close> when the budget
  (at least one character) is used up; else no encoded character follows, and the result is
  \<open>ERTS_UTF8_INCOMPLETE\<close> when there are fewer bytes than the lead byte asks for and \<open>ERTS_UTF8_ERROR\<close> if not.
\<close>

theorem erts_analyze_utf8_exact:
  "\<exists>cs. analyzed source lft max_chars (erts_analyze_utf8_x source lft max_chars) cs"
proof -
  have "below_limits max_chars lft 0" by (auto simp: below_limits_def split: option.splits)
  then show ?thesis
    using analyze_loop_analyzed [of "[]" 0 0 True 0 lft lft source max_chars] by (simp add: erts_analyze_utf8_x_def option.map_ident)
qed

text \<open>
  C35. The list of characters that \<open>erts_make_list_from_utf8_buf\<close> builds from an encoded text, with the
  number of characters \<open>erts_analyze_utf8\<close> has counted, is the text, in front of the given tail; all
  bytes are consumed.
\<close>

theorem utf8_to_list_round_trip:
  assumes "list_all unicode_scalar cs" and "cs \<noteq> []" and "length cs < 2 ^ 64"
  shows "\<exists>info. erts_analyze_utf8 (utf8_encode cs) None = (ERTS_UTF8_OK, info)
    \<and> erts_make_list_from_utf8_buf (of_nat (num_chars info)) (utf8_encode cs) (length (utf8_encode cs)) tail =
        Some (map of_nat cs @ tail, of_nat (length cs), int (length (utf8_encode cs)))"
  using erts_analyze_utf8_x_encode [OF assms(1), of 0] utf8_buf_loop_encode [OF assms, of "[]" tail]
  by (simp add: erts_analyze_utf8_def erts_analyze_utf8_x_def erts_make_list_from_utf8_buf_def)

theorem utf8_to_list_round_trip_witness:
  "\<exists>info. erts_analyze_utf8 (utf8_encode [0x20AC, 0x41]) None = (ERTS_UTF8_OK, info)
    \<and> erts_make_list_from_utf8_buf (of_nat (num_chars info)) (utf8_encode [0x20AC, 0x41]) (length (utf8_encode [0x20AC, 0x41])) [] =
        Some (map of_nat [0x20AC, 0x41] @ [], of_nat (length [0x20AC, 0x41 :: nat]), int (length (utf8_encode [0x20AC, 0x41])))"
  by (rule utf8_to_list_round_trip) (simp_all add: unicode_scalar_def)

end
