(* ===== verification/Erts_Atom.thy ===== *)
theory Erts_Atom
  imports Erts_Index Erts_Unicode "HOL-Library.List_Lexorder" "HOL-Library.Char_ord"
begin

text \<open>
  The atom table of the emulator (\<open>erts/emulator/beam/atom.c\<close> and \<open>atom.h\<close>), the comparison of atoms
  in \<open>erl_utils.h\<close> and their conversion to lists.  Atoms are interned in an index table under their
  names, which are kept in UTF-8.
\<close>

section \<open>Definitions\<close>

abbreviation MAX_ATOM_CHARACTERS :: nat where "MAX_ATOM_CHARACTERS \<equiv> 255"
abbreviation MAX_ATOM_SZ_LIMIT :: nat where "MAX_ATOM_SZ_LIMIT \<equiv> 1020"
abbreviation ERTS_SINT16_MAX :: nat where "ERTS_SINT16_MAX \<equiv> 32767"
abbreviation ATOM_BAD_ENCODING_ERROR :: int where "ATOM_BAD_ENCODING_ERROR \<equiv> -1"
abbreviation ATOM_MAX_CHARS_ERROR :: int where "ATOM_MAX_CHARS_ERROR \<equiv> -2"

definition Sint16 :: "int \<Rightarrow> int" where
  "Sint16 n = sint (word_of_int n :: u16)"

text \<open>
  An atom.  The union of the name of a template and the binary of an atom in the table is the bytes
  of either; those of a template go on behind its length.
\<close>

record Atom = IndexSlot +
  len :: int
  latin1_chars :: int
  ord0 :: int
  name :: bytes

definition erts_atom_get_name :: "Atom \<Rightarrow> bytes" where
  "erts_atom_get_name a = name a"

text \<open>The hash function; a Latin-1 character in two bytes counts as one.\<close>

definition hashpjw_step :: "u8 \<Rightarrow> u64 \<Rightarrow> u64" where
  "hashpjw_step v h =
     (let h = push_bit 4 h + ucast v; g = h AND 0xf0000000 in
      if g \<noteq> 0 then h XOR drop_bit 24 g XOR g else h)"

fun hashpjw :: "bytes \<Rightarrow> u64 \<Rightarrow> u64" where
  "hashpjw [] h = h"
| "hashpjw [v] h = hashpjw_step v h"
| "hashpjw (v # c # p) h =
     (if v AND 0xFE = 0xC2 \<and> c AND 0xC0 = 0x80
      then hashpjw p (hashpjw_step (push_bit 6 v OR (c AND 0x3F)) h)
      else hashpjw (c # p) (hashpjw_step v h))"

definition atom_hash :: "Atom \<Rightarrow> u64" where
  "atom_hash obj = hashpjw (take (nat (len obj)) (name obj)) 0"

definition atom_cmp :: "Atom \<Rightarrow> Atom \<Rightarrow> int" where
  "atom_cmp tmpl obj =
     (if len tmpl = len obj
        \<and> take (nat (len tmpl)) (name tmpl) = take (nat (len tmpl)) (erts_atom_get_name obj) then 0
      else 1)"

text \<open>The first three bytes and seven bits of the name, padded with zeros.\<close>

definition atom_ord0 :: "bytes \<Rightarrow> int \<Rightarrow> int" where
  "atom_ord0 nm n =
     (let c = (\<lambda>i. if int i < n then uint (nm ! i) else 0) in
      c 0 * 2 ^ 23 + c 1 * 2 ^ 15 + c 2 * 2 ^ 7 + c 3 div 2)"

definition atom_alloc :: "Atom \<Rightarrow> Atom" where
  "atom_alloc tmpl =
     \<lparr>index = -1, len = len tmpl, latin1_chars = latin1_chars tmpl, ord0 = atom_ord0 (name tmpl) (len tmpl),
      name = take (nat (len tmpl)) (name tmpl)\<rparr>"

definition atom_functions :: "(Atom, Atom) HashFunctions" where
  "atom_functions = \<lparr>hash = atom_hash, cmp = atom_cmp, alloc = atom_alloc\<rparr>"

text \<open>
  The conversion of a Latin-1 name: a name without high bits is kept, and the part before the first
  high bit is copied.
\<close>

definition latin1_conv :: "u8 \<Rightarrow> bytes" where
  "latin1_conv chr = (if chr AND 0x80 = 0 then [chr] else [0xC0 OR drop_bit 6 chr, 0x80 OR (chr AND 0x3F)])"

definition latin1_to_utf8 :: "bytes \<Rightarrow> bytes" where
  "latin1_to_utf8 src =
     (if list_all (\<lambda>chr. chr AND 0x80 = 0) src then src
      else takeWhile (\<lambda>chr. chr AND 0x80 = 0) src
             @ concat (map latin1_conv (dropWhile (\<lambda>chr. chr AND 0x80 = 0) src)))"

text \<open>The objects of the table, the table and the space for the names.\<close>

record atom_state =
  atoms :: "Atom list"
  erts_atom_table :: IndexTable
  atom_space :: int

datatype ErtsAtomEncoding = ERTS_ATOM_ENC_7BIT_ASCII | ERTS_ATOM_ENC_LATIN1 | ERTS_ATOM_ENC_UTF8

text \<open>The \<open>len\<close> bytes at a pointer to an object of the given bytes.\<close>

definition text_at :: "bytes \<Rightarrow> nat \<Rightarrow> bytes option" where
  "text_at nm n = (if n \<le> length nm then Some (take n nm) else None)"

text \<open>A template; its index and ordinal are not used.\<close>

definition atom_template :: "bytes \<Rightarrow> int \<Rightarrow> Atom" where
  "atom_template text no_latin1_chars =
     \<lparr>index = 0, len = Sint16 (int (length text)), latin1_chars = Sint16 no_latin1_chars, ord0 = 0, name = text\<rparr>"

text \<open>
  The switch on the encoding: an error, or the text to look up and the number of its Latin-1
  characters, which is not yet known for UTF-8.
\<close>

definition atom_text :: "bytes \<Rightarrow> nat \<Rightarrow> ErtsAtomEncoding \<Rightarrow> bool \<Rightarrow> (int + bytes \<times> int) option" where
  "atom_text nm tlen enc trunc = (case enc of
     ERTS_ATOM_ENC_7BIT_ASCII \<Rightarrow>
       if tlen > MAX_ATOM_CHARACTERS \<and> \<not> trunc then Some (Inl ATOM_MAX_CHARS_ERROR)
       else do {
         let tlen = min tlen MAX_ATOM_CHARACTERS;
         text \<leftarrow> text_at nm tlen;
         Some (Inr (text, int tlen)) }
   | ERTS_ATOM_ENC_LATIN1 \<Rightarrow>
       if tlen > MAX_ATOM_CHARACTERS \<and> \<not> trunc then Some (Inl ATOM_MAX_CHARS_ERROR)
       else do {
         let tlen = min tlen MAX_ATOM_CHARACTERS;
         text \<leftarrow> text_at nm tlen;
         Some (Inr (latin1_to_utf8 text, int tlen)) }
   | ERTS_ATOM_ENC_UTF8 \<Rightarrow>
       if tlen > MAX_ATOM_SZ_LIMIT \<and> \<not> trunc then Some (Inl ATOM_MAX_CHARS_ERROR)
       else if tlen > ERTS_SINT16_MAX then Some (Inl ATOM_MAX_CHARS_ERROR)
       else do {
         text \<leftarrow> text_at nm tlen;
         Some (Inr (text, -1)) })"

text \<open>The verification of a UTF-8 name that is not in the table.\<close>

definition atom_verify :: "ErtsAtomEncoding \<Rightarrow> bool \<Rightarrow> bytes \<Rightarrow> int \<Rightarrow> int + bytes \<times> int" where
  "atom_verify enc trunc text no_latin1_chars =
     (if enc = ERTS_ATOM_ENC_UTF8 then
        case erts_analyze_utf8_x text None MAX_ATOM_CHARACTERS of (res, info) \<Rightarrow>
          (case res of
             ERTS_UTF8_OK \<Rightarrow> Inr (text, num_latin1_chars info)
           | ERTS_UTF8_OK_MAX_CHARS \<Rightarrow>
               if \<not> trunc then Inl ATOM_MAX_CHARS_ERROR else Inr (take (err_pos info) text, num_latin1_chars info)
           | _ \<Rightarrow> Inl ATOM_BAD_ENCODING_ERROR)
      else Inr (text, no_latin1_chars))"

text \<open>Adding a template to the table; an allocation counts the space for the name.\<close>

definition atom_table_put :: "Atom \<Rightarrow> atom_state \<Rightarrow> (int option \<times> atom_state) option" where
  "atom_table_put a st = do {
     (aix, heap, t) \<leftarrow> index_put atom_functions (atoms st) (erts_atom_table st) a;
     Some (aix, \<lparr>atoms = heap, erts_atom_table = t,
       atom_space = atom_space st + (if length heap > length (atoms st) then len a else 0)\<rparr>) }"

text \<open>
  The index of an atom or a negative error; \<open>None\<close> for the index when the table is full and the
  emulator exits.
\<close>

definition erts_atom_put_index ::
  "bytes \<Rightarrow> int \<Rightarrow> ErtsAtomEncoding \<Rightarrow> bool \<Rightarrow> atom_state \<Rightarrow> (int option \<times> atom_state) option"
where
  "erts_atom_put_index nm n enc trunc st =
     (if n < 0 \<and> \<not> trunc then Some (Some ATOM_MAX_CHARS_ERROR, st)
      else do {
        let tlen = nat n;
        t \<leftarrow> atom_text nm tlen enc trunc;
        (case t of
           Inl e \<Rightarrow> Some (Some e, st)
         | Inr (text, no_latin1_chars) \<Rightarrow>
             let aix = index_get atom_functions (atoms st) (erts_atom_table st) (atom_template text no_latin1_chars) in
             if aix \<ge> 0 then Some (Some aix, st)
             else (case atom_verify enc trunc text no_latin1_chars of
                 Inl e \<Rightarrow> Some (Some e, st)
               | Inr (text, no_latin1_chars) \<Rightarrow> atom_table_put (atom_template text no_latin1_chars) st)) })"

definition erts_atom_get :: "bytes \<Rightarrow> nat \<Rightarrow> ErtsAtomEncoding \<Rightarrow> atom_state \<Rightarrow> int option option" where
  "erts_atom_get nm n enc st = do {
     t \<leftarrow> (case enc of
        ERTS_ATOM_ENC_LATIN1 \<Rightarrow>
          if n > MAX_ATOM_CHARACTERS then Some None
          else map_option (\<lambda>text. Some (latin1_to_utf8 text)) (text_at nm n)
      | ERTS_ATOM_ENC_7BIT_ASCII \<Rightarrow>
          if n > MAX_ATOM_CHARACTERS then Some None
          else map_option (\<lambda>text. if list_all (\<lambda>c. c AND 0x80 = 0) text then Some text else None) (text_at nm n)
      | ERTS_ATOM_ENC_UTF8 \<Rightarrow>
          if n > MAX_ATOM_SZ_LIMIT then Some None
          else map_option Some (text_at nm n));
     (case t of
        None \<Rightarrow> Some None
      | Some text \<Rightarrow>
          let i = index_get atom_functions (atoms st) (erts_atom_table st) (atom_template text (-1)) in
          Some (if i < 0 then None else Some i)) }"

definition atom_tab :: "atom_state \<Rightarrow> nat \<Rightarrow> Atom option" where
  "atom_tab st i = map_option (\<lambda>p. atoms st ! p) (erts_index_lookup (erts_atom_table st) i)"

definition erts_is_atom_index_ok :: "atom_state \<Rightarrow> nat \<Rightarrow> bool" where
  "erts_is_atom_index_ok st ix = (int ix < entries (erts_atom_table st))"

definition atom_table_size :: "atom_state \<Rightarrow> int" where
  "atom_table_size st = entries (erts_atom_table st)"

definition erts_is_atom_utf8_bytes :: "bytes \<Rightarrow> atom_state \<Rightarrow> nat \<Rightarrow> bool option" where
  "erts_is_atom_utf8_bytes text st i = do {
     a \<leftarrow> atom_tab st i;
     Some (int (length text) = len a \<and> take (length text) (erts_atom_get_name a) = text) }"

text \<open>The initial table with the predefined atoms.\<close>

fun put_names :: "bytes list \<Rightarrow> atom_state \<Rightarrow> atom_state option" where
  "put_names [] st = Some st"
| "put_names (nm # nms) st = do {
     (aix, st) \<leftarrow> atom_table_put (atom_template nm (int (length nm))) st;
     _ \<leftarrow> aix;
     put_names nms st }"

definition init_atom_table :: "u32 \<Rightarrow> bytes list \<Rightarrow> atom_state option" where
  "init_atom_table erts_atom_table_size erl_atom_names = do {
     t \<leftarrow> erts_index_init 3000 erts_atom_table_size;
     put_names erl_atom_names \<lparr>atoms = [], erts_atom_table = t, atom_space = 0\<rparr> }"

text \<open>The comparison of two atoms of the table; \<open>memcmp\<close> is a number of the sign of the first difference.\<close>

fun memcmp :: "bytes \<Rightarrow> bytes \<Rightarrow> nat \<Rightarrow> int" where
  "memcmp (x # xs) (y # ys) (Suc n) = (if x = y then memcmp xs ys n else uint x - uint y)"
| "memcmp _ _ _ = 0"

definition erts_cmp_atoms :: "Atom \<Rightarrow> Atom \<Rightarrow> int" where
  "erts_cmp_atoms aa bb =
     (let diff = ord0 aa - ord0 bb in
      if diff \<noteq> 0 then diff
      else
        let name_a = drop 3 (erts_atom_get_name aa);
            name_b = drop 3 (erts_atom_get_name bb);
            len_a = len aa - 3;
            len_b = len bb - 3;
            diff = (if len_a > 0 \<and> len_b > 0 then memcmp name_a name_b (nat (min len_a len_b)) else 0)
        in if diff \<noteq> 0 then diff else len_a - len_b)"

text \<open>The conversions of an atom to a list of characters.\<close>

definition buf_to_intlist :: "bytes \<Rightarrow> u64 list \<Rightarrow> u64 list" where
  "buf_to_intlist buf tail = map ucast buf @ tail"

definition erts_atom_to_string_length :: "Atom \<Rightarrow> nat" where
  "erts_atom_to_string_length ap =
     (if latin1_chars ap \<ge> 0 then nat (len ap)
      else num_chars (snd (erts_analyze_utf8 (take (nat (len ap)) (erts_atom_get_name ap)) None)))"

definition erts_atom_to_string :: "Atom \<Rightarrow> u64 list \<Rightarrow> u64 list option" where
  "erts_atom_to_string ap tail =
     (let text = take (nat (len ap)) (erts_atom_get_name ap) in
      if latin1_chars ap \<ge> 0 then Some (buf_to_intlist text tail)
      else
        let n = num_chars (snd (erts_analyze_utf8 text None)) in
        map_option fst (erts_make_list_from_utf8_buf (of_nat n) text (nat (len ap)) tail))"

text \<open>The body of the BIF \<open>atom_to_list/1\<close>; \<open>do_utf8_to_list\<close> builds at least one and at most \<open>left\<close> elements.\<close>

definition erts_utf8_to_list :: "u64 \<Rightarrow> bytes \<Rightarrow> nat \<Rightarrow> u64 \<Rightarrow> u64 list \<Rightarrow> (u64 list \<times> u64 \<times> int) option" where
  "erts_utf8_to_list num b sz lft tail =
     erts_make_list_from_utf8_buf (if lft < num then if lft > 0 then lft else 1 else num) b sz tail"

definition atom_to_list_1 :: "Atom \<Rightarrow> u64 list option" where
  "atom_to_list_1 ap =
     (if len ap = 0 then Some []
      else
        let text = take (nat (len ap)) (erts_atom_get_name ap);
            n = num_chars (snd (erts_analyze_utf8 text None))
        in map_option fst (erts_utf8_to_list (of_nat n) text (nat (len ap)) (of_int (len ap)) []))"

section \<open>Atoms as objects of an index table\<close>

definition atom_key :: "Atom \<Rightarrow> int \<times> bytes" where
  "atom_key a = (len a, take (nat (len a)) (name a))"

definition atom_hkey :: "int \<times> bytes \<Rightarrow> u64" where
  "atom_hkey k = hashpjw (snd k) 0"

interpretation atom_index: index_client atom_functions atom_key atom_hkey
  by unfold_locales (auto simp: atom_functions_def atom_hash_def atom_cmp_def atom_alloc_def atom_key_def atom_hkey_def
    erts_atom_get_name_def)

interpretation atom_slots: hash_client "slot_funs atom_functions heap p" atom_key "\<lambda>p. atom_key (heap ! p)" atom_hkey
  for heap p
  by (rule atom_index.slots_client)

text \<open>
  What is stored about an atom: its name is the encoding of at most 255 characters, and the numbers
  kept with it are those of the name.
\<close>

definition atom_wf :: "Atom \<Rightarrow> nat list \<Rightarrow> bool" where
  "atom_wf a cs \<longleftrightarrow> list_all unicode_scalar cs \<and> length cs \<le> MAX_ATOM_CHARACTERS
     \<and> name a = utf8_encode cs \<and> len a = int (length (name a))
     \<and> latin1_chars a = (if list_all (\<lambda>c. c < 256) cs then int (length cs) else -1)
     \<and> ord0 a = atom_ord0 (name a) (len a)"

text \<open>
  The invariant of the atom table, with the addresses of the atoms in the order of their indices and
  their texts as characters.
\<close>

definition atom_ok :: "atom_state \<Rightarrow> nat list \<Rightarrow> nat list list \<Rightarrow> bool" where
  "atom_ok st ps css \<longleftrightarrow> index_rel atom_key atom_hkey (atoms st) (erts_atom_table st) ps
     \<and> list_all2 (\<lambda>p cs. atom_wf (atoms st ! p) cs) ps css
     \<and> atom_space st = sum_list (map (\<lambda>cs. int (length (utf8_encode cs))) css)"

definition text_key :: "nat list \<Rightarrow> int \<times> bytes" where
  "text_key cs = (int (length (utf8_encode cs)), utf8_encode cs)"

lemma atom_wf_key: "atom_wf a cs \<Longrightarrow> atom_key a = text_key cs"
  by (simp add: atom_wf_def atom_key_def text_key_def)

lemma Sint16_id [simp]: "-32768 \<le> n \<Longrightarrow> n < 32768 \<Longrightarrow> Sint16 n = n"
  by (simp add: Sint16_def sint_sbintrunc' signed_take_bit_int_eq_self)

lemma atom_template_key:
  "length text \<le> 32767 \<Longrightarrow> atom_key (atom_template text l) = (int (length text), text)"
  by (simp add: atom_key_def atom_template_def)

lemma atom_ok_keys:
  assumes "atom_ok st ps css"
  shows "map (\<lambda>p. atom_key (atoms st ! p)) ps = map text_key css" and "length ps = length css"
    and "\<And>cs. cs \<in> set css \<Longrightarrow> list_all unicode_scalar cs \<and> length cs \<le> 255"
proof -
  have a: "list_all2 (\<lambda>p cs. atom_wf (atoms st ! p) cs) ps css" using assms by (simp add: atom_ok_def)
  then show "map (\<lambda>p. atom_key (atoms st ! p)) ps = map text_key css" "length ps = length css"
    by (induction rule: list_all2_induct) (simp_all add: atom_wf_key)
  show "list_all unicode_scalar cs \<and> length cs \<le> 255" if "cs \<in> set css" for cs
    using a that by (auto simp: list_all2_conv_all_nth in_set_conv_nth atom_wf_def)
qed

text \<open>The position of a text among the atoms.\<close>

lemma position_map_inj:
  "(\<And>x. x \<in> set xs \<Longrightarrow> g x = g y \<longleftrightarrow> x = y) \<Longrightarrow> position (g y) (map g xs) = position y xs"
  by (induction xs) auto

lemma atom_position:
  assumes "atom_ok st ps css" and "list_all unicode_scalar cs"
  shows "position (text_key cs) (map (\<lambda>p. atom_key (atoms st ! p)) ps) = position cs css"
  unfolding atom_ok_keys(1) [OF assms(1)]
  by (rule position_map_inj) (use atom_ok_keys(3) [OF assms(1)] assms(2) utf8_encode_inj in \<open>auto simp: text_key_def\<close>)

lemma atom_index_get:
  assumes "atom_ok st ps css" and "list_all unicode_scalar cs" and "length (utf8_encode cs) \<le> 32767"
  shows "index_get atom_functions (atoms st) (erts_atom_table st) (atom_template (utf8_encode cs) l) =
    (case position cs css of Some i \<Rightarrow> int i | None \<Rightarrow> -1)"
  using atom_index.index_get_position [of "atoms st" "erts_atom_table st" ps "atom_template (utf8_encode cs) l"] assms
    atom_position [OF assms(1,2)] atom_template_key [OF assms(3), of l]
  by (simp add: atom_ok_def text_key_def)

text \<open>Putting a text of at most 255 characters.\<close>

lemma atom_table_put_ok:
  assumes ok: "atom_ok st ps css" and small: "length css < 214748364"
    and cs: "list_all unicode_scalar cs" "length cs \<le> 255"
    and l: "l = (if list_all (\<lambda>c. c < 256) cs then int (length cs) else -1)"
  shows "case position cs css of
      Some i \<Rightarrow> atom_table_put (atom_template (utf8_encode cs) l) st = Some (Some (int i), st)
    | None \<Rightarrow> entries (erts_atom_table st) < limit (erts_atom_table st) \<longrightarrow>
        (\<exists>st'. atom_table_put (atom_template (utf8_encode cs) l) st = Some (Some (int (length css)), st')
          \<and> atom_ok st' (ps @ [length (atoms st)]) (css @ [cs]) \<and> limit (erts_atom_table st') = limit (erts_atom_table st))"
proof -
  let ?t = "atom_template (utf8_encode cs) l" and ?tab = "erts_atom_table st" and ?heap = "atoms st"
  have n: "length (utf8_encode cs) \<le> 32767" using length_utf8_encode [of cs] cs(2) by linarith
  have rel: "index_rel atom_key atom_hkey ?heap ?tab ps" using ok by (simp add: atom_ok_def)
  have len: "length ps = length css" by (rule atom_ok_keys(2) [OF ok])
  have key: "atom_key ?t = text_key cs" using n by (simp add: atom_template_key text_key_def)
  have pos: "position (atom_key ?t) (map (\<lambda>p. atom_key (?heap ! p)) ps) = position cs css"
    unfolding key by (rule atom_position [OF ok cs(1)])
  show ?thesis
  proof (cases "position cs css")
    case (Some i)
    with atom_index.index_put_old [OF rel _, of ?t i] small pos len
    have "index_put_entry atom_functions ?heap ?tab ?t = Some (Some (ps ! i), ?heap, ?tab)" by simp
    moreover have "index (?heap ! (ps ! i)) = int i" using index_relD(6) [OF rel] position_Some [OF Some] len by simp
    ultimately show ?thesis using Some by (simp add: atom_table_put_def index_put_def)
  next
    case None
    show ?thesis
    proof (cases "entries ?tab < limit ?tab")
      case room: True
      let ?new = "(alloc atom_functions ?t)\<lparr>index := entries ?tab\<rparr>" and ?p = "length ?heap"
      have "atom_key ?t \<notin> set (map (\<lambda>p. atom_key (?heap ! p)) ps)" using pos None position_None by metis
      from atom_index.index_put_new [OF rel _ this] small len room obtain t' where
        put: "index_put_entry atom_functions ?heap ?tab ?t = Some (Some ?p, ?heap @ [?new], t')"
        and rel': "index_rel atom_key atom_hkey (?heap @ [?new]) t' (ps @ [?p])" and "limit t' = limit ?tab" by auto
      define st' where "st' = \<lparr>atoms = ?heap @ [?new], erts_atom_table = t', atom_space = atom_space st + len ?t\<rparr>"
      have "atom_table_put ?t st = Some (Some (int (length css)), st')"
        using put index_relD(1) [OF rel] len by (simp add: atom_table_put_def index_put_def st'_def)
      moreover have "atom_wf ?new cs" using n cs l
        by (auto simp: atom_wf_def atom_functions_def atom_alloc_def atom_template_def)
      moreover have "list_all2 (\<lambda>p cs. atom_wf ((?heap @ [?new]) ! p) cs) ps css"
        using ok index_relD(5) [OF rel] by (auto simp: atom_ok_def list_all2_conv_all_nth nth_append)
      moreover have "len ?t = int (length (utf8_encode cs))" using n by (simp add: atom_template_def)
      ultimately have "atom_ok st' (ps @ [?p]) (css @ [cs])" using ok rel'
        by (simp add: atom_ok_def st'_def list_all2_appendI)
      with None \<open>atom_table_put ?t st = _\<close> \<open>limit t' = limit ?tab\<close> show ?thesis by (auto simp: st'_def simp del: position_None)
    qed (simp add: None)
  qed
qed

section \<open>The text of a name\<close>

text \<open>A name in one of the encodings, and the characters it stands for.\<close>

definition encodes :: "ErtsAtomEncoding \<Rightarrow> bytes \<Rightarrow> nat list \<Rightarrow> bool" where
  "encodes enc text cs \<longleftrightarrow> list_all unicode_scalar cs \<and> (case enc of
     ERTS_ATOM_ENC_7BIT_ASCII \<Rightarrow> list_all (\<lambda>c. c < 128) cs \<and> text = map of_nat cs
   | ERTS_ATOM_ENC_LATIN1 \<Rightarrow> list_all (\<lambda>c. c < 256) cs \<and> text = map of_nat cs
   | ERTS_ATOM_ENC_UTF8 \<Rightarrow> text = utf8_encode cs)"

lemma ascii_utf8: "list_all (\<lambda>c. c < 128) cs \<Longrightarrow> map of_nat cs = utf8_encode cs"
  by (induction cs) (simp_all add: utf8_enc_values)

lemma latin1_conv_enc:
  assumes "c < 256"
  shows "latin1_conv (of_nat c) = utf8_enc c"
proof -
  have "\<forall>b::u8. 128 \<le> uint b \<longrightarrow> 0xC0 OR drop_bit 6 b = word_of_int (192 + uint b div 64)
    \<and> 0x80 OR (b AND 0x3F) = word_of_int (128 + uint b mod 64)"
    by (subst byte_all) code_simp
  moreover have "int c div 64 = int (c div 64)" "int c mod 64 = int (c mod 64)" by (simp_all add: zdiv_int zmod_int)
  ultimately
  have "128 \<le> c \<Longrightarrow> 0xC0 OR drop_bit 6 (of_nat c :: u8) = of_nat (192 + c div 64) \<and> 0x80 OR (of_nat c AND 0x3F :: u8) = of_nat (128 + c mod 64)"
    using assms by (auto dest!: spec [of _ "of_nat c"] simp: unsigned_of_nat take_bit_nat_eq_self)
  then show ?thesis using assms by (auto simp: latin1_conv_def utf8_enc_def byte_classes unat_byte not_less)
qed

lemma latin1_to_utf8_concat: "latin1_to_utf8 src = concat (map latin1_conv src)"
proof -
  have keep: "concat (map latin1_conv xs) = xs" if "list_all (\<lambda>chr. chr AND 0x80 = 0) xs" for xs
    using that by (induction xs) (simp_all add: latin1_conv_def)
  have "concat (map latin1_conv src) = concat (map latin1_conv (takeWhile (\<lambda>chr. chr AND 0x80 = 0) src))
      @ concat (map latin1_conv (dropWhile (\<lambda>chr. chr AND 0x80 = 0) src))"
    by (metis concat_append map_append takeWhile_dropWhile_id)
  also have "concat (map latin1_conv (takeWhile (\<lambda>chr. chr AND 0x80 = 0) src)) = takeWhile (\<lambda>chr. chr AND 0x80 = 0) src"
    by (rule keep) (auto simp: list_all_iff dest: set_takeWhileD)
  finally show ?thesis using keep [of src] by (simp add: latin1_to_utf8_def)
qed

lemma latin1_utf8: "list_all (\<lambda>c. c < 256) cs \<Longrightarrow> latin1_to_utf8 (map of_nat cs) = utf8_encode cs"
  unfolding latin1_to_utf8_concat by (induction cs) (simp_all add: latin1_conv_enc)

section \<open>Interning\<close>

lemma put_interns:
  assumes ok: "atom_ok st ps css" and small: "length css < 214748364"
    and room: "entries (erts_atom_table st) < limit (erts_atom_table st)"
    and cs: "list_all unicode_scalar cs" "length cs \<le> 255"
    and l: "l = (if list_all (\<lambda>c. c < 256) cs then int (length cs) else -1)"
  shows "\<exists>st' ps'. atom_table_put (atom_template (utf8_encode cs) l) st = Some (Some (int (fst (intern cs css))), st')
    \<and> atom_ok st' ps' (snd (intern cs css))"
proof (cases "position cs css")
  case (Some i)
  with atom_table_put_ok [OF ok small cs l] ok show ?thesis by (auto simp: intern_def)
next
  case None
  with atom_table_put_ok [OF ok small cs l] room show ?thesis
    by (auto simp: intern_def simp del: position_None)
qed

lemma get_interns:
  assumes ok: "atom_ok st ps css" and cs: "list_all unicode_scalar cs" "length (utf8_encode cs) \<le> 32767"
    and aix: "aix = index_get atom_functions (atoms st) (erts_atom_table st) (atom_template (utf8_encode cs) l)"
  shows "aix \<ge> 0 \<Longrightarrow> int (fst (intern cs css)) = aix \<and> snd (intern cs css) = css" and "aix \<ge> 0 \<longleftrightarrow> cs \<in> set css"
  using atom_index_get [OF ok cs, of l] position_Some [of cs css] nth_mem [of _ css]
  by (auto simp: aix intern_def split: option.splits simp flip: position_None)

text \<open>The text that the encodings with one byte for a character look up.\<close>

lemma atom_text_bytes:
  assumes "encodes enc (take n nm) cs" and "n \<le> length nm" and "enc \<noteq> ERTS_ATOM_ENC_UTF8"
  shows "length cs = n" and "list_all (\<lambda>c. c < 256) (take 255 cs)"
    and "atom_text nm n enc trunc =
      Some (if n > 255 \<and> \<not> trunc then Inl ATOM_MAX_CHARS_ERROR else Inr (utf8_encode (take 255 cs), int (length (take 255 cs))))"
proof -
  from assms(1,3) have bytes: "take n nm = map of_nat cs" by (cases enc) (auto simp: encodes_def)
  from assms(2) arg_cong [OF this, of length] show n: "length cs = n" by simp
  have small: "list_all (\<lambda>c. c < 256) cs" using assms(1,3) by (cases enc) (auto simp: encodes_def list_all_iff)
  then show "list_all (\<lambda>c. c < 256) (take 255 cs)" by (auto simp: list_all_iff dest: in_set_takeD)
  moreover have "list_all (\<lambda>c. c < 128) (take 255 cs)" if "enc = ERTS_ATOM_ENC_7BIT_ASCII"
    using assms(1) that by (auto simp: encodes_def list_all_iff dest: in_set_takeD)
  moreover have "text_at nm (min n 255) = Some (map of_nat (take 255 cs))"
    using assms(2) by (simp add: text_at_def min.commute flip: bytes take_map)
  ultimately show "atom_text nm n enc trunc =
      Some (if n > 255 \<and> \<not> trunc then Inl ATOM_MAX_CHARS_ERROR else Inr (utf8_encode (take 255 cs), int (length (take 255 cs))))"
    using assms(3) n by (cases enc) (auto simp: atom_text_def ascii_utf8 latin1_utf8 min.commute)
qed

lemma put_index_utf8:
  assumes ok: "atom_ok st ps css" and small: "length css < 214748364"
    and room: "entries (erts_atom_table st) < limit (erts_atom_table st)"
    and n: "0 \<le> n" "n \<le> 32767" "nat n \<le> length nm"
    and bytes: "take (nat n) nm = utf8_encode cs" and cs: "list_all unicode_scalar cs"
    and fit: "\<not> (length cs > 255 \<and> \<not> trunc)"
  shows "\<exists>st' ps'. erts_atom_put_index nm n ERTS_ATOM_ENC_UTF8 trunc st = Some (Some (int (fst (intern (take 255 cs) css))), st')
    \<and> atom_ok st' ps' (snd (intern (take 255 cs) css))"
proof -
  let ?cs = "take 255 cs" and ?get = "index_get atom_functions (atoms st) (erts_atom_table st) (atom_template (utf8_encode cs) (-1))"
  have scalars: "list_all unicode_scalar ?cs" "length ?cs \<le> 255" using cs by (auto simp: list_all_iff dest: in_set_takeD)
  have len: "length (utf8_encode cs) = nat n" using n(3) by (simp flip: bytes)
  have "trunc \<or> nat n \<le> 1020" using length_utf8_encode [of cs] fit len by linarith
  then have t: "atom_text nm (nat n) ERTS_ATOM_ENC_UTF8 trunc = Some (Inr (utf8_encode cs, -1))"
    using n bytes by (auto simp: atom_text_def text_at_def)
  have "length (utf8_encode cs) \<le> 32767" using len n by simp
  note get = get_interns [OF ok cs this refl, of "-1"]
  define l where "l = (if list_all (\<lambda>c. c < 256) ?cs then int (length ?cs) else -1)"
  have v: "atom_verify ERTS_ATOM_ENC_UTF8 trunc (utf8_encode cs) (-1) = Inr (utf8_encode ?cs, l)"
  proof (cases "length cs \<le> 255")
    case True
    then show ?thesis using erts_analyze_utf8_x_encode [OF cs, of 255] by (simp add: atom_verify_def l_def)
  next
    case False
    have "take (length (utf8_encode ?cs)) (utf8_encode cs) = utf8_encode ?cs"
      by (metis append_eq_conv_conj append_take_drop_id utf8_encode_simps(3))
    with False fit show ?thesis using erts_analyze_utf8_x_max [OF cs, of 255] by (simp add: atom_verify_def l_def)
  qed
  have put: "erts_atom_put_index nm n ERTS_ATOM_ENC_UTF8 trunc st =
      (if ?get \<ge> 0 then Some (Some ?get, st) else atom_table_put (atom_template (utf8_encode ?cs) l) st)"
    using n(1) t v by (simp add: erts_atom_put_index_def Let_def)
  show ?thesis
  proof (cases "?get \<ge> 0")
    case True
    with get(2) atom_ok_keys(3) [OF ok] have "?cs = cs" by auto
    with True get(1) put ok show ?thesis by auto
  next
    case False
    with put put_interns [OF ok small room scalars l_def] show ?thesis by auto
  qed
qed

lemma put_index_utf8_long:
  assumes ok: "atom_ok st ps css" and n: "0 \<le> n" "n \<le> 32767" "nat n \<le> length nm"
    and bytes: "take (nat n) nm = utf8_encode cs" and cs: "list_all unicode_scalar cs" and long: "length cs > 255"
  shows "erts_atom_put_index nm n ERTS_ATOM_ENC_UTF8 False st = Some (Some ATOM_MAX_CHARS_ERROR, st)"
proof (cases "nat n > 1020")
  case True
  then show ?thesis using n by (simp add: erts_atom_put_index_def atom_text_def)
next
  case False
  have "length (utf8_encode cs) = nat n" using n(3) by (simp flip: bytes)
  with n have "length (utf8_encode cs) \<le> 32767" by simp
  from get_interns(2) [OF ok cs this refl, of "-1"] atom_ok_keys(3) [OF ok] long
  have "\<not> index_get atom_functions (atoms st) (erts_atom_table st) (atom_template (utf8_encode cs) (-1)) \<ge> 0" by fastforce
  moreover have "atom_text nm (nat n) ERTS_ATOM_ENC_UTF8 False = Some (Inr (utf8_encode cs, -1))"
    using n bytes False by (auto simp: atom_text_def text_at_def)
  moreover have "atom_verify ERTS_ATOM_ENC_UTF8 False (utf8_encode cs) (-1) = Inl ATOM_MAX_CHARS_ERROR"
    using erts_analyze_utf8_x_max [OF cs, of 255] long by (simp add: atom_verify_def)
  ultimately show ?thesis using n(1) by (simp add: erts_atom_put_index_def Let_def)
qed

lemma put_index_bytes:
  assumes ok: "atom_ok st ps css" and small: "length css < 214748364"
    and room: "entries (erts_atom_table st) < limit (erts_atom_table st)"
    and n: "0 \<le> n" "nat n \<le> length nm" and enc: "encodes enc (take (nat n) nm) cs" "enc \<noteq> ERTS_ATOM_ENC_UTF8"
  shows "if length cs > 255 \<and> \<not> trunc then erts_atom_put_index nm n enc trunc st = Some (Some ATOM_MAX_CHARS_ERROR, st)
    else \<exists>st' ps'. erts_atom_put_index nm n enc trunc st = Some (Some (int (fst (intern (take 255 cs) css))), st')
      \<and> atom_ok st' ps' (snd (intern (take 255 cs) css))"
proof (cases "length cs > 255 \<and> \<not> trunc")
  case True
  then show ?thesis using atom_text_bytes(1,3) [OF enc(1) n(2) enc(2)] n(1) by (simp add: erts_atom_put_index_def)
next
  case False
  let ?cs = "take 255 cs" and ?l = "int (length (take 255 cs))"
  let ?get = "index_get atom_functions (atoms st) (erts_atom_table st) (atom_template (utf8_encode ?cs) ?l)"
  have cs: "list_all unicode_scalar ?cs" "length ?cs \<le> 255"
    using enc(1) by (auto simp: encodes_def list_all_iff dest: in_set_takeD)
  have l: "?l = (if list_all (\<lambda>c. c < 256) ?cs then int (length ?cs) else -1)" using atom_text_bytes(2) [OF enc(1) n(2) enc(2)] by simp
  have "length (utf8_encode ?cs) \<le> 32767" using length_utf8_encode [of ?cs] cs(2) by linarith
  note get = get_interns [OF ok cs(1) this refl, of ?l]
  have "erts_atom_put_index nm n enc trunc st =
      (if ?get \<ge> 0 then Some (Some ?get, st) else atom_table_put (atom_template (utf8_encode ?cs) ?l) st)"
    using atom_text_bytes(1,3) [OF enc(1) n(2) enc(2)] False n(1) enc(2)
    by (auto simp: erts_atom_put_index_def atom_verify_def Let_def)
  with False get ok put_interns [OF ok small room cs l] show ?thesis by auto
qed

section \<open>Lookup and conversion\<close>

lemma atom_ok_distinct: "atom_ok st ps css \<Longrightarrow> distinct css"
  using index_relD(7) [of atom_key atom_hkey "atoms st" "erts_atom_table st" ps] atom_ok_keys(1) [of st ps css]
  by (auto simp: atom_ok_def distinct_map)

lemma atom_tab_nth:
  assumes "atom_ok st ps css" and "i < length css"
  shows "\<exists>a. atom_tab st i = Some a \<and> atom_wf a (css ! i)"
  using assms atom_ok_keys(2) [OF assms(1)] index_relD(4) [of atom_key atom_hkey "atoms st" "erts_atom_table st" ps i]
  by (auto simp: atom_tab_def erts_index_lookup_def atom_ok_def list_all2_conv_all_nth)

text \<open>The decoding of the name of an atom.\<close>

lemma atom_name_list:
  assumes "atom_wf a cs" and "cs \<noteq> []"
  shows "erts_make_list_from_utf8_buf (of_nat (num_chars (snd (erts_analyze_utf8 (take (nat (len a)) (erts_atom_get_name a)) None))))
      (take (nat (len a)) (erts_atom_get_name a)) (nat (len a)) tail =
    Some (map of_nat cs @ tail, of_nat (length cs), int (length (utf8_encode cs)))"
    and "num_chars (snd (erts_analyze_utf8 (take (nat (len a)) (erts_atom_get_name a)) None)) = length cs"
proof -
  have wf: "list_all unicode_scalar cs" "length cs < 2 ^ 64" and name: "take (nat (len a)) (erts_atom_get_name a) = utf8_encode cs"
    "nat (len a) = length (utf8_encode cs)"
    using assms(1) by (auto simp: atom_wf_def erts_atom_get_name_def)
  have info: "erts_analyze_utf8 (utf8_encode cs) None = erts_analyze_utf8_x (utf8_encode cs) None 0"
    by (simp add: erts_analyze_utf8_def erts_analyze_utf8_x_def)
  show "erts_make_list_from_utf8_buf (of_nat (num_chars (snd (erts_analyze_utf8 (take (nat (len a)) (erts_atom_get_name a)) None))))
      (take (nat (len a)) (erts_atom_get_name a)) (nat (len a)) tail =
    Some (map of_nat cs @ tail, of_nat (length cs), int (length (utf8_encode cs)))"
    unfolding name(1) unfolding name(2) info erts_analyze_utf8_x_encode [OF wf(1) disjI1 [OF refl]]
    using utf8_buf_loop_encode [OF wf(1) assms(2) wf(2), of "[]" tail] by (simp add: erts_make_list_from_utf8_buf_def)
  show "num_chars (snd (erts_analyze_utf8 (take (nat (len a)) (erts_atom_get_name a)) None)) = length cs"
    unfolding name(1) unfolding name(2) info erts_analyze_utf8_x_encode [OF wf(1) disjI1 [OF refl]] by simp
qed

lemma atom_to_list_chars:
  assumes "atom_wf a cs"
  shows "atom_to_list_1 a = Some (map of_nat cs)"
proof (cases "cs = []")
  case True
  with assms show ?thesis by (simp add: atom_wf_def atom_to_list_1_def)
next
  case False
  have len: "len a = int (length (utf8_encode cs))" "length cs \<le> 255" using assms by (simp_all add: atom_wf_def)
  with length_utf8_encode [of cs] False have "\<not> (of_int (len a) :: u64) < of_nat (length cs)" "len a \<noteq> 0"
    by (auto simp: word_less_nat_alt unsigned_of_nat take_bit_nat_eq_self simp flip: length_greater_0_conv)
  then show ?thesis using atom_name_list(1) [OF assms False, of "[]"] atom_name_list(2) [OF assms False]
    by (simp add: atom_to_list_1_def erts_utf8_to_list_def Let_def)
qed

lemma atom_get_nth:
  assumes ok: "atom_ok st ps css" and i: "i < length css" and "encodes enc (take n nm) (css ! i)" and "n \<le> length nm"
  shows "erts_atom_get nm n enc st = Some (Some (int i))"
proof -
  let ?cs = "css ! i"
  have cs: "list_all unicode_scalar ?cs" "length ?cs \<le> 255" using atom_ok_keys(3) [OF ok nth_mem [OF i]] by simp_all
  have n: "length (utf8_encode ?cs) \<le> 1020" using length_utf8_encode [of ?cs] cs(2) by linarith
  have get: "index_get atom_functions (atoms st) (erts_atom_table st) (atom_template (utf8_encode ?cs) (-1)) = int i"
    using atom_index_get [OF ok cs(1), of "-1"] n position_nth [OF atom_ok_distinct [OF ok] i] by simp
  have len: "length (take n nm) = n" using assms(4) by simp
  show ?thesis
  proof (cases enc)
    case ERTS_ATOM_ENC_7BIT_ASCII
    with assms(3) have "list_all (\<lambda>c. c < 128) ?cs" "take n nm = map of_nat ?cs" by (simp_all add: encodes_def)
    moreover from this have "list_all (\<lambda>c. c AND 0x80 = 0) (take n nm)" "length ?cs = n"
      using len by (auto simp: list_all_iff byte_classes unat_byte)
    ultimately show ?thesis using ERTS_ATOM_ENC_7BIT_ASCII len cs(2) assms(4) get ascii_utf8 [of ?cs]
      by (simp add: erts_atom_get_def text_at_def)
  next
    case ERTS_ATOM_ENC_LATIN1
    with assms(3) have "list_all (\<lambda>c. c < 256) ?cs" "take n nm = map of_nat ?cs" by (simp_all add: encodes_def)
    then show ?thesis using ERTS_ATOM_ENC_LATIN1 len cs(2) assms(4) get latin1_utf8 [of ?cs]
      by (simp add: erts_atom_get_def text_at_def)
  next
    case ERTS_ATOM_ENC_UTF8
    with assms(3) have "take n nm = utf8_encode ?cs" by (simp add: encodes_def)
    then show ?thesis using ERTS_ATOM_ENC_UTF8 len n assms(4) get by (simp add: erts_atom_get_def text_at_def)
  qed
qed

section \<open>Comparison\<close>

text \<open>The comparison of two byte strings from the first byte on.\<close>

definition bytes_cmp :: "bytes \<Rightarrow> bytes \<Rightarrow> int" where
  "bytes_cmp a b =
     (let diff = memcmp a b (min (length a) (length b)) in if diff \<noteq> 0 then diff else int (length a) - int (length b))"

lemma bytes_cmp_simps [simp]:
  "bytes_cmp [] b = - int (length b)" "bytes_cmp a [] = int (length a)"
  "bytes_cmp (x # a) (y # b) = (if x = y then bytes_cmp a b else uint x - uint y)"
  by (auto simp: bytes_cmp_def Let_def dest: word_uint_eqI)

lemma bytes_cmp_lex: "(bytes_cmp a b < 0 \<longleftrightarrow> a < b) \<and> (bytes_cmp a b = 0 \<longleftrightarrow> a = b)"
proof (induction a arbitrary: b)
  case Nil
  then show ?case by (cases b) auto
next
  case (Cons x a)
  then show ?case by (cases b) (auto simp: word_less_def dest: word_uint_eqI)
qed

text \<open>The ordinal of the first \<open>k\<close> bytes and seven bits, and the comparison that starts with it.\<close>

fun ord_part :: "nat \<Rightarrow> bytes \<Rightarrow> int" where
  "ord_part k [] = 0"
| "ord_part 0 (x # a) = uint x div 2"
| "ord_part (Suc k) (x # a) = uint x * 2 ^ (7 + 8 * k) + ord_part k a"

definition ord_cmp :: "nat \<Rightarrow> bytes \<Rightarrow> bytes \<Rightarrow> int" where
  "ord_cmp k a b =
     (if ord_part k a \<noteq> ord_part k b then ord_part k a - ord_part k b
      else
        let diff = (if k < length a \<and> k < length b then memcmp (drop k a) (drop k b) (min (length a) (length b) - k) else 0)
        in if diff \<noteq> 0 then diff else int (length a) - int (length b))"

lemma ord_part_bounds: "0 \<le> ord_part k a \<and> ord_part k a < 2 ^ (7 + 8 * k)"
proof (induction k a rule: ord_part.induct)
  case (2 x a)
  then show ?case using uint_lt2p [of x] by auto
next
  case (3 k x a)
  have "uint x * 2 ^ (7 + 8 * k) \<le> 255 * 2 ^ (7 + 8 * k)" using uint_lt2p [of x] by simp
  moreover have "(2 :: int) ^ (7 + 8 * Suc k) = 256 * 2 ^ (7 + 8 * k)" by (simp add: power_add)
  moreover have "0 \<le> uint x * 2 ^ (7 + 8 * k)" by simp
  ultimately show ?case using 3 unfolding ord_part.simps by (intro conjI; linarith)
qed simp

lemma ord_cmp_sgn: "sgn (ord_cmp k a b) = sgn (bytes_cmp a b)"
proof (induction k arbitrary: a b)
  case 0
  show ?case
  proof (cases "a = [] \<or> b = []")
    case True
    then show ?thesis using ord_part_bounds [of 0 a] ord_part_bounds [of 0 b] by (auto simp: ord_cmp_def sgn_if)
  next
    case False
    then obtain x a' y b' where ab: "a = x # a'" "b = y # b'" by (cases a; cases b) auto
    have "ord_cmp 0 a b = bytes_cmp a b" if "uint x div 2 = uint y div 2" using that ab by (simp add: ord_cmp_def bytes_cmp_def)
    moreover have "sgn (uint x div 2 - uint y div 2) = sgn (uint x - uint y)" if "uint x div 2 \<noteq> uint y div 2"
      using that by (auto simp: sgn_if)
    ultimately show ?thesis using ab by (cases "uint x div 2 = uint y div 2") (auto simp: ord_cmp_def)
  qed
next
  case (Suc k)
  show ?case
  proof (cases "a = [] \<or> b = []")
    case True
    then show ?thesis using ord_part_bounds [of "Suc k" a] ord_part_bounds [of "Suc k" b] by (auto simp: ord_cmp_def sgn_if)
  next
    case False
    then obtain x a' y b' where ab: "a = x # a'" "b = y # b'" by (cases a; cases b) auto
    show ?thesis
    proof (cases "x = y")
      case True
      then have "ord_cmp (Suc k) a b = ord_cmp k a' b'" unfolding ab by (simp add: ord_cmp_def Let_def)
      with Suc [of a' b'] True ab show ?thesis by simp
    next
      case ne: False
      let ?p = "2 ^ (7 + 8 * k) :: int"
      have b: "0 \<le> ord_part k a'" "ord_part k a' < ?p" "0 \<le> ord_part k b'" "ord_part k b' < ?p"
        using ord_part_bounds [of k a'] ord_part_bounds [of k b'] by simp_all
      have "sgn (uint x * ?p + ord_part k a' - (uint y * ?p + ord_part k b')) = sgn (uint x - uint y)"
      proof (cases "uint x < uint y")
        case True
        then have "(uint x + 1) * ?p \<le> uint y * ?p" by (intro mult_right_mono) simp_all
        with b True show ?thesis by (simp add: distrib_right)
      next
        case False
        with ne have "uint y < uint x" by (metis word_uint_eqI linorder_neqE)
        then have "(uint y + 1) * ?p \<le> uint x * ?p" by (intro mult_right_mono) simp_all
        with b \<open>uint y < uint x\<close> show ?thesis by (simp add: distrib_right)
      qed
      moreover have "uint x \<noteq> uint y" using ne by (metis word_uint_eqI)
      ultimately show ?thesis using ne ab by (auto simp: ord_cmp_def sgn_0_0)
    qed
  qed
qed

lemma atom_ord0_part: "atom_ord0 nm (int (length nm)) = ord_part 3 nm"
proof -
  consider "nm = []" | x where "nm = [x]" | x y where "nm = [x, y]" | x y z where "nm = [x, y, z]" | x y z u r where "nm = x # y # z # u # r"
    by (metis list.exhaust)
  then show ?thesis by cases (simp_all add: atom_ord0_def numeral_3_eq_3 numeral_2_eq_2)
qed

lemma erts_cmp_atoms_ord:
  assumes "atom_wf aa cs" and "atom_wf bb ds"
  shows "erts_cmp_atoms aa bb = ord_cmp 3 (name aa) (name bb)"
proof -
  have "ord0 aa = ord_part 3 (name aa)" "ord0 bb = ord_part 3 (name bb)" "len aa = int (length (name aa))" "len bb = int (length (name bb))"
    using assms by (auto simp: atom_wf_def atom_ord0_part)
  then show ?thesis
    by (simp add: erts_cmp_atoms_def ord_cmp_def Let_def erts_atom_get_name_def nat_diff_distrib' min_def)
qed

section \<open>Properties\<close>

text \<open>
  C8. The atom table interns texts.  In a sound table that is not full and has fewer than 214748364 atoms,
  \<open>erts_atom_put_index\<close> with a name in any of the three encodings returns the position of its first 255
  characters in the list of the texts of all atoms, which is extended by them when they are new, and leaves
  a sound table.  A name of more than 255 characters that may not be truncated, and a UTF-8 name of more than 32767
  bytes in any case, is refused and nothing changes.
\<close>

theorem erts_atom_put_index_interns:
  assumes "atom_ok st ps css" and "length css < 214748364"
    and "entries (erts_atom_table st) < limit (erts_atom_table st)"
    and "0 \<le> n" and "nat n \<le> length nm" and "encodes enc (take (nat n) nm) cs"
  shows "if length cs > 255 \<and> \<not> trunc \<or> enc = ERTS_ATOM_ENC_UTF8 \<and> n > 32767
    then erts_atom_put_index nm n enc trunc st = Some (Some ATOM_MAX_CHARS_ERROR, st)
    else \<exists>st' ps'. erts_atom_put_index nm n enc trunc st = Some (Some (int (fst (intern (take 255 cs) css))), st')
      \<and> atom_ok st' ps' (snd (intern (take 255 cs) css))"
proof (cases "enc = ERTS_ATOM_ENC_UTF8")
  case True
  then have u: "take (nat n) nm = utf8_encode cs" "list_all unicode_scalar cs" using assms(6) by (simp_all add: encodes_def)
  show ?thesis
  proof (cases "n > 32767")
    case n: True
    then have "32767 < nat n" by simp
    then show ?thesis using True n assms(4) by (simp add: erts_atom_put_index_def atom_text_def Let_def)
  next
    case False
    then have n: "n \<le> 32767" by simp
    show ?thesis
      using put_index_utf8 [OF assms(1-4) n assms(5) u, of trunc] put_index_utf8_long [OF assms(1,4) n assms(5) u] False
      unfolding True by (cases "length cs > 255 \<and> \<not> trunc") (simp_all only: if_True if_False simp_thms)
  qed
next
  case False
  then show ?thesis using put_index_bytes [OF assms(1-6) False, of trunc] by simp
qed

theorem erts_atom_put_index_interns_witness:
  "\<exists>t. erts_index_init 8 1024 = Some t
    \<and> (\<exists>st' ps'. erts_atom_put_index [97, 98] 2 ERTS_ATOM_ENC_LATIN1 False \<lparr>atoms = [], erts_atom_table = t, atom_space = 0\<rparr> =
          Some (Some 0, st') \<and> atom_ok st' ps' [[97, 98]])"
proof -
  obtain t where t: "erts_index_init 8 1024 = Some t" "index_rel atom_key atom_hkey [] t []" "1024 \<le> limit t"
    using index_init_rel [of 8 1024 atom_key atom_hkey "[]"] by auto
  let ?st = "\<lparr>atoms = [], erts_atom_table = t, atom_space = 0\<rparr>"
  have "atom_ok ?st [] []" "entries t = 0" using t(2) index_relD(1) [OF t(2)] by (simp_all add: atom_ok_def)
  with erts_atom_put_index_interns [of ?st "[]" "[]" 2 "[97, 98]" ERTS_ATOM_ENC_LATIN1 "[97, 98]" False] t(1,3)
  show ?thesis by (auto simp: encodes_def unicode_scalar_def intern_def)
qed

text \<open>
  C36. A text in a sound atom table is found again: \<open>erts_atom_get\<close> with the text in any encoding that
  can represent it returns its index, and \<open>atom_to_list/1\<close> on the atom with this index returns its
  characters.
\<close>

theorem atom_round_trip:
  assumes "atom_ok st ps css" and "i < length css" and "encodes enc (take n nm) (css ! i)" and "n \<le> length nm"
  shows "erts_atom_get nm n enc st = Some (Some (int i))
    \<and> (\<exists>a. atom_tab st i = Some a \<and> atom_to_list_1 a = Some (map of_nat (css ! i)))"
  using atom_get_nth [OF assms] atom_tab_nth [OF assms(1,2)] atom_to_list_chars by blast

theorem atom_round_trip_witness:
  "\<exists>st ps. atom_ok st ps [[0xE5]] \<and> erts_atom_get [0xE5] 1 ERTS_ATOM_ENC_LATIN1 st = Some (Some 0)
    \<and> erts_atom_get [0xC3, 0xA5] 2 ERTS_ATOM_ENC_UTF8 st = Some (Some 0)
    \<and> (\<exists>a. atom_tab st 0 = Some a \<and> atom_to_list_1 a = Some [0xE5])"
proof -
  obtain t where t: "erts_index_init 8 1024 = Some t" "index_rel atom_key atom_hkey [] t []" "1024 \<le> limit t"
    using index_init_rel [of 8 1024 atom_key atom_hkey "[]"] by auto
  have "atom_ok \<lparr>atoms = [], erts_atom_table = t, atom_space = 0\<rparr> [] []" "entries t = 0"
    using t(2) index_relD(1) [OF t(2)] by (simp_all add: atom_ok_def)
  with put_interns [of _ "[]" "[]" "[0xE5]" 1] t(3) obtain st ps where ok: "atom_ok st ps [[0xE5]]"
    by (force simp: unicode_scalar_def intern_def)
  have "encodes ERTS_ATOM_ENC_LATIN1 (take 1 [0xE5]) ([[0xE5]] ! 0)" "encodes ERTS_ATOM_ENC_UTF8 (take 2 [0xC3, 0xA5]) ([[0xE5]] ! 0)"
    by (simp_all add: encodes_def unicode_scalar_def utf8_enc_def)
  from atom_round_trip [OF ok _ this(1)] atom_round_trip [OF ok _ this(2)] ok show ?thesis by auto
qed

text \<open>
  C37. \<open>erts_cmp_atoms\<close>, which first compares 31 bits of the names kept with the atoms, orders atoms as
  the byte strings of their names.
\<close>

theorem erts_cmp_atoms_order:
  assumes "atom_wf aa cs" and "atom_wf bb ds"
  shows "(erts_cmp_atoms aa bb < 0 \<longleftrightarrow> name aa < name bb) \<and> (erts_cmp_atoms aa bb = 0 \<longleftrightarrow> name aa = name bb)"
  using ord_cmp_sgn [of 3 "name aa" "name bb"] bytes_cmp_lex [of "name aa" "name bb"]
  unfolding erts_cmp_atoms_ord [OF assms] by (metis sgn_0_0 sgn_less)

theorem erts_cmp_atoms_order_witness:
  "erts_cmp_atoms \<lparr>index = 0, len = 2, latin1_chars = 1, ord0 = 0x61D28000, name = [0xC3, 0xA5]\<rparr>
     \<lparr>index = 1, len = 1, latin1_chars = 1, ord0 = 0x30800000, name = [97]\<rparr> > 0"
proof -
  have "atom_wf \<lparr>index = 0, len = 2, latin1_chars = 1, ord0 = 0x61D28000, name = [0xC3, 0xA5]\<rparr> [0xE5]"
    "atom_wf \<lparr>index = 1, len = 1, latin1_chars = 1, ord0 = 0x30800000, name = [97]\<rparr> [97]"
    by (simp_all add: atom_wf_def unicode_scalar_def utf8_enc_def atom_ord0_def)
  from erts_cmp_atoms_order [OF this] show ?thesis by (auto simp: linorder_neq_iff)
qed

lemma utf8_encode_ascii: "length (utf8_encode cs) = length cs \<longleftrightarrow> list_all (\<lambda>c. c < 128) cs"
proof (induction cs)
  case (Cons c cs)
  have "length (utf8_enc c) = 1 \<longleftrightarrow> c < 128" "1 \<le> length (utf8_enc c)" by (simp_all add: utf8_enc_def)
  with Cons length_utf8_encode [of cs] show ?case by (auto simp del: utf8_enc_not_Nil)
qed simp

text \<open>
  \<open>erts_atom_to_string\<close> gives the characters of an atom when not all of them are Latin-1, and the bytes of the
  UTF-8 name when they are; so it gives the characters exactly when all of them are ASCII or one of them is not Latin-1.
\<close>

theorem erts_atom_to_string_chars:
  assumes "atom_wf a cs"
  shows "erts_atom_to_string a rest =
      Some ((if list_all (\<lambda>c. c < 256) cs then map ucast (utf8_encode cs) else map of_nat cs) @ rest)
    \<and> (erts_atom_to_string a rest = Some (map of_nat cs @ rest) \<longleftrightarrow> list_all (\<lambda>c. c < 128) cs \<or> \<not> list_all (\<lambda>c. c < 256) cs)"
proof (cases "list_all (\<lambda>c. c < 256) cs")
  case True
  then have r: "erts_atom_to_string a rest = Some (map ucast (utf8_encode cs) @ rest)"
    using assms by (simp add: atom_wf_def erts_atom_to_string_def buf_to_intlist_def erts_atom_get_name_def)
  have "map ucast (utf8_encode cs) = (map of_nat cs :: u64 list)" if "list_all (\<lambda>c. c < 128) cs"
    using that by (auto simp flip: ascii_utf8 simp: list_all_iff unsigned_of_nat take_bit_nat_eq_self word_unat_eq_iff)
  moreover have "length (utf8_encode cs) = length cs" if "map ucast (utf8_encode cs) = (map of_nat cs :: u64 list)"
    using arg_cong [OF that, of length] by simp
  ultimately show ?thesis using True r utf8_encode_ascii [of cs] by auto
next
  case False
  then have "cs \<noteq> []" "\<not> latin1_chars a \<ge> 0" using assms by (auto simp: atom_wf_def)
  with False atom_name_list(1) [OF assms, of rest] show ?thesis by (auto simp: erts_atom_to_string_def Let_def)
qed

theorem erts_atom_to_string_chars_witness:
  "erts_atom_to_string \<lparr>index = 0, len = 2, latin1_chars = 1, ord0 = 0x61D28000, name = [0xC3, 0xA5]\<rparr> [] \<noteq> Some [0xE5]"
proof -
  have "atom_wf \<lparr>index = 0, len = 2, latin1_chars = 1, ord0 = 0x61D28000, name = [0xC3, 0xA5]\<rparr> [0xE5]"
    by (simp add: atom_wf_def unicode_scalar_def utf8_enc_def atom_ord0_def)
  from conjunct2 [OF erts_atom_to_string_chars [OF this, of "[]"]] show ?thesis by simp
qed

end
