(* ===== verification/Erts_Register.thy ===== *)
theory Erts_Register
  imports Erts_Hash
begin

text \<open>
  The registry of process and port names: \<open>erts/emulator/beam/register.c\<close>, a client of the hash table.
  Each operation holds the write lock of the table while it works, so operations are atomic.
  \<open>erts_unregister_name\<close> gives the lock up and starts again when the lock of a port is busy; what other
  operations do to the registry meanwhile is an argument.  Other waiting for process and port locks is left out.
\<close>

section \<open>Definitions\<close>

text \<open>The terms the registry deals with: atoms, local process and port identifiers, and others.\<close>

datatype Eterm = Atom_term nat | Pid_term nat | Port_term nat | Other_term nat

text \<open>
  Processes and ports are referred to by the numbers of their identifiers.  The pointer from a process
  or port to its entry is the name in the entry.
\<close>

record RegProc =
  p :: "nat option"
  pt :: "nat option"
  rname :: Eterm

record Process =
  reg :: "Eterm option"
  exiting :: bool

record reg_state =
  process_reg :: "RegProc Hash"
  procs :: "nat \<rightharpoonup> Process"
  ports :: "nat \<rightharpoonup> Eterm option"
  write_locked :: bool

fun atom_val :: "Eterm \<Rightarrow> u64" where
  "atom_val (Atom_term n) = of_nat n"
| "atom_val _ = 0"

definition reg_hash :: "RegProc \<Rightarrow> u64" where
  "reg_hash obj = atom_val (rname obj)"

definition reg_cmp :: "RegProc \<Rightarrow> RegProc \<Rightarrow> int" where
  "reg_cmp tmpl obj = (if rname tmpl \<noteq> rname obj then 1 else 0)"

definition reg_alloc :: "RegProc \<Rightarrow> RegProc" where
  "reg_alloc tmpl = \<lparr>p = p tmpl, pt = pt tmpl, rname = rname tmpl\<rparr>"

definition reg_functions :: "(RegProc, RegProc) HashFunctions" where
  "reg_functions = \<lparr>hash = reg_hash, cmp = reg_cmp, alloc = reg_alloc\<rparr>"

text \<open>The registry is set up before there are processes and ports.\<close>

definition init_register_table :: "reg_state option" where
  "init_register_table = map_option
     (\<lambda>h. \<lparr>process_reg = h, procs = Map.empty, ports = Map.empty, write_locked = False\<rparr>) (hash_init 10)"

text \<open>Unlocking a lock that is not held, and locking it twice, is undefined.\<close>

definition reg_write_lock :: "reg_state \<Rightarrow> reg_state option" where
  "reg_write_lock st = (if write_locked st then None else Some (st\<lparr>write_locked := True\<rparr>))"

definition reg_write_unlock :: "reg_state \<Rightarrow> reg_state option" where
  "reg_write_unlock st = (if write_locked st then Some (st\<lparr>write_locked := False\<rparr>) else None)"

datatype fvalue = am_none | am_notalive | am_registered_name

fun is_atom :: "Eterm \<Rightarrow> bool" where
  "is_atom (Atom_term n) = True"
| "is_atom _ = False"

text \<open>The process with an identifier, unless it is exiting.\<close>

definition erts_pid2proc :: "reg_state \<Rightarrow> nat \<Rightarrow> Process option" where
  "erts_pid2proc st k = (case procs st k of None \<Rightarrow> None | Some proc \<Rightarrow> if exiting proc then None else Some proc)"

text \<open>The part of \<open>erts_register_name\<close> under the lock, up to the label \<open>done\<close>.\<close>

definition register_locked :: "nat \<Rightarrow> Eterm \<Rightarrow> Eterm \<Rightarrow> reg_state \<Rightarrow> bool \<times> fvalue \<times> reg_state" where
  "register_locked c_p name ident st = (case ident of
     Pid_term k \<Rightarrow>
       (case (if c_p = k then procs st k else erts_pid2proc st k) of
          None \<Rightarrow> (False, am_notalive, st)
        | Some proc \<Rightarrow>
            if reg proc \<noteq> None then (False, am_registered_name, st)
            else
              let (rp, h) = hash_put reg_functions (process_reg st) \<lparr>p = Some k, pt = None, rname = name\<rparr>;
                  st = st\<lparr>process_reg := h\<rparr>;
                  st = (if p rp = Some k then st\<lparr>procs := (procs st)(k \<mapsto> proc\<lparr>reg := Some (rname rp)\<rparr>)\<rparr> else st)
              in (p rp = Some k, am_none, st))
   | Port_term k \<Rightarrow>
       (case ports st k of
          Some None \<Rightarrow>
            let (rp, h) = hash_put reg_functions (process_reg st) \<lparr>p = None, pt = Some k, rname = name\<rparr>;
                st = st\<lparr>process_reg := h\<rparr>;
                st = (if pt rp = Some k then st\<lparr>ports := (ports st)(k \<mapsto> Some (rname rp))\<rparr> else st)
            in (pt rp = Some k, am_none, st)
        | _ \<Rightarrow> (False, am_registered_name, st))
   | _ \<Rightarrow> (False, am_none, st))"

text \<open>The result, the value left in \<open>c_p->fvalue\<close> and the state.\<close>

definition erts_register_name :: "Eterm \<Rightarrow> nat \<Rightarrow> Eterm \<Rightarrow> Eterm \<Rightarrow> reg_state \<Rightarrow> (bool \<times> fvalue \<times> reg_state) option" where
  "erts_register_name am_undefined c_p name ident st =
     (if \<not> is_atom name \<or> name = am_undefined then Some (False, am_none, st)
      else (case ident of
         Pid_term k \<Rightarrow> do {
           st \<leftarrow> reg_write_lock st;
           let (res, fv, st) = register_locked c_p name ident st;
           st \<leftarrow> reg_write_unlock st;
           Some (res, fv, st) }
       | Port_term k \<Rightarrow>
           if ports st k = None then do {
             st \<leftarrow> reg_write_unlock st;
             Some (False, am_none, st) }
           else do {
             st \<leftarrow> reg_write_lock st;
             let (res, fv, st) = register_locked c_p name ident st;
             st \<leftarrow> reg_write_unlock st;
             Some (res, fv, st) }
       | _ \<Rightarrow> Some (False, am_none, st)))"

definition erts_whereis_name_to_id :: "Eterm \<Rightarrow> reg_state \<Rightarrow> Eterm \<Rightarrow> Eterm" where
  "erts_whereis_name_to_id am_undefined st name =
     (case hash_fetch reg_functions (process_reg st) \<lparr>p = None, pt = None, rname = name\<rparr> of
        None \<Rightarrow> am_undefined
      | Some rp \<Rightarrow>
          (case p rp of
             Some k \<Rightarrow> Pid_term k
           | None \<Rightarrow> (case pt rp of Some k \<Rightarrow> Port_term k | None \<Rightarrow> am_undefined)))"

text \<open>The process and the port that are found; \<open>allow_other_x\<close> is the flag to return exiting processes.\<close>

definition erts_whereis_name :: "reg_state \<Rightarrow> Eterm \<Rightarrow> bool \<Rightarrow> nat option \<times> nat option" where
  "erts_whereis_name st name allow_other_x =
     (case hash_fetch reg_functions (process_reg st) \<lparr>p = None, pt = None, rname = name\<rparr> of
        None \<Rightarrow> (None, None)
      | Some rp \<Rightarrow>
          ((case p rp of
              None \<Rightarrow> None
            | Some k \<Rightarrow>
                if allow_other_x \<or> (\<exists>proc \<in> set_option (procs st k). \<not> exiting proc) then Some k else None),
           pt rp))"

definition erts_whereis_process :: "reg_state \<Rightarrow> Eterm \<Rightarrow> bool \<Rightarrow> nat option" where
  "erts_whereis_process st name allow_other_x = fst (erts_whereis_name st name allow_other_x)"

text \<open>The name to unregister; no name stands for the name of the caller.\<close>

definition unregister_target :: "nat option \<Rightarrow> Eterm option \<Rightarrow> reg_state \<Rightarrow> Eterm option option" where
  "unregister_target c_p name st = (case name of
     Some nm \<Rightarrow> Some (Some nm)
   | None \<Rightarrow> do { k \<leftarrow> c_p; proc \<leftarrow> procs st k; Some (reg proc) })"

text \<open>The part of \<open>erts_unregister_name\<close> under the lock, up to the label \<open>done\<close>, with the port locked.\<close>

definition unregister_locked :: "nat option \<Rightarrow> Eterm option \<Rightarrow> reg_state \<Rightarrow> (bool \<times> reg_state) option" where
  "unregister_locked c_p name st = do {
     nm \<leftarrow> unregister_target c_p name st;
     (case nm of
        None \<Rightarrow> Some (False, st)
      | Some nm \<Rightarrow>
          let r = \<lparr>p = None, pt = None, rname = nm\<rparr> in
          (case hash_get reg_functions (process_reg st) r of
             None \<Rightarrow> Some (False, st)
           | Some rp \<Rightarrow>
               let st = (case pt rp of
                     Some k \<Rightarrow> st\<lparr>ports := (ports st)(k \<mapsto> None)\<rparr>
                   | None \<Rightarrow>
                       (case p rp of
                          Some k \<Rightarrow> st\<lparr>procs := (procs st)(k := map_option (\<lambda>proc. proc\<lparr>reg := None\<rparr>) (procs st k))\<rparr>
                        | None \<Rightarrow> st))
               in Some (True, st\<lparr>process_reg := snd (hash_erase reg_functions (process_reg st) r)\<rparr>))) }"

text \<open>The port whose lock must be taken: the one with the name, unless its lock is held as \<open>port\<close>.\<close>

definition port_to_lock :: "nat option \<Rightarrow> nat option \<Rightarrow> Eterm option \<Rightarrow> reg_state \<Rightarrow> nat option option" where
  "port_to_lock c_p port name st = do {
     nm \<leftarrow> unregister_target c_p name st;
     Some (case nm of
        None \<Rightarrow> None
      | Some nm \<Rightarrow>
          (case hash_get reg_functions (process_reg st) \<lparr>p = None, pt = None, rname = nm\<rparr> of
             None \<Rightarrow> None
           | Some rp \<Rightarrow> if pt rp = port then None else pt rp)) }"

definition unregister_try :: "nat option \<Rightarrow> Eterm option \<Rightarrow> reg_state \<Rightarrow> (bool \<times> reg_state) option" where
  "unregister_try c_p name st = do {
     st \<leftarrow> reg_write_lock st;
     (res, st) \<leftarrow> unregister_locked c_p name st;
     st \<leftarrow> reg_write_unlock st;
     Some (res, st) }"

text \<open>
  Each try to lock a port takes the next element of \<open>waits\<close>: the lock is busy, and when \<open>erts_id2port\<close> has
  waited for it, the registry is in that state.  When there is none the lock is free.  \<open>port\<close> is the port whose
  lock is held, at first \<open>c_prt\<close>.
\<close>

fun erts_unregister_name ::
  "nat option \<Rightarrow> nat option \<Rightarrow> Eterm option \<Rightarrow> reg_state list \<Rightarrow> reg_state \<Rightarrow> (bool \<times> reg_state) option"
where
  "erts_unregister_name c_p port name [] st = unregister_try c_p name st"
| "erts_unregister_name c_p port name (st' # waits) st = do {
     locked \<leftarrow> reg_write_lock st;
     pt \<leftarrow> port_to_lock c_p port name locked;
     (case pt of
        None \<Rightarrow> unregister_try c_p name st
      | Some k \<Rightarrow> do {
          _ \<leftarrow> reg_write_unlock locked;
          erts_unregister_name c_p (map_option (\<lambda>_. k) (ports st' k)) name waits st' }) }"

text \<open>The BIF \<open>registered/0\<close>: the names, the last one that is met first.\<close>

definition registered_0 :: "reg_state \<Rightarrow> Eterm list" where
  "registered_0 st =
     (if nobjs (process_reg st) * 2 = 0 then []
      else hash_foreach (process_reg st) (\<lambda>reg res. rname reg # res) [])"

section \<open>The life of a system\<close>

text \<open>
  What happens to the registry: names are registered and unregistered, processes and ports come into
  being, processes begin to exit, and those without a name go away.  A registration happens by a
  living process, and the number of names is below the size of the largest hash table.
\<close>

inductive reg_reach :: "Eterm \<Rightarrow> reg_state \<Rightarrow> bool" for am_undefined where
  init: "init_register_table = Some st \<Longrightarrow> reg_reach am_undefined st"
| register: "reg_reach am_undefined st \<Longrightarrow> procs st c_p \<noteq> None \<Longrightarrow> nobjs (process_reg st) < 214748364 \<Longrightarrow>
    erts_register_name am_undefined c_p name ident st = Some (res, fv, st') \<Longrightarrow> reg_reach am_undefined st'"
| unregister: "reg_reach am_undefined st \<Longrightarrow> (\<And>s. s \<in> set waits \<Longrightarrow> reg_reach am_undefined s) \<Longrightarrow>
    erts_unregister_name c_p port name waits st = Some (res, st') \<Longrightarrow> reg_reach am_undefined st'"
| spawn: "reg_reach am_undefined st \<Longrightarrow> procs st k = None \<Longrightarrow>
    reg_reach am_undefined (st\<lparr>procs := (procs st)(k \<mapsto> \<lparr>reg = None, exiting = False\<rparr>)\<rparr>)"
| open_port: "reg_reach am_undefined st \<Longrightarrow> ports st k = None \<Longrightarrow> reg_reach am_undefined (st\<lparr>ports := (ports st)(k \<mapsto> None)\<rparr>)"
| exit: "reg_reach am_undefined st \<Longrightarrow> procs st k = Some proc \<Longrightarrow>
    reg_reach am_undefined (st\<lparr>procs := (procs st)(k \<mapsto> proc\<lparr>exiting := True\<rparr>)\<rparr>)"
| free_process: "reg_reach am_undefined st \<Longrightarrow> procs st k = Some proc \<Longrightarrow> reg proc = None \<Longrightarrow>
    reg_reach am_undefined (st\<lparr>procs := (procs st)(k := None)\<rparr>)"
| free_port: "reg_reach am_undefined st \<Longrightarrow> ports st k = Some None \<Longrightarrow> reg_reach am_undefined (st\<lparr>ports := (ports st)(k := None)\<rparr>)"

section \<open>The invariant\<close>

interpretation reg_table: hash_client reg_functions rname rname atom_val
  by unfold_locales (auto simp: reg_functions_def reg_hash_def reg_cmp_def)

abbreviation names :: "reg_state \<Rightarrow> Eterm \<rightharpoonup> RegProc" where
  "names st \<equiv> hash_map rname (process_reg st)"

text \<open>The entries of the table and the pointers from processes and ports to them agree.\<close>

definition reg_inv :: "(Eterm \<rightharpoonup> RegProc) \<Rightarrow> (nat \<rightharpoonup> Process) \<Rightarrow> (nat \<rightharpoonup> Eterm option) \<Rightarrow> bool" where
  "reg_inv M P Q \<longleftrightarrow>
     (\<forall>nm rp. M nm = Some rp \<longrightarrow>
        (\<exists>k proc. rp = \<lparr>p = Some k, pt = None, rname = nm\<rparr> \<and> P k = Some proc \<and> reg proc = Some nm)
        \<or> (\<exists>k. rp = \<lparr>p = None, pt = Some k, rname = nm\<rparr> \<and> Q k = Some (Some nm)))
     \<and> (\<forall>k proc nm. P k = Some proc \<and> reg proc = Some nm \<longrightarrow> M nm = Some \<lparr>p = Some k, pt = None, rname = nm\<rparr>)
     \<and> (\<forall>k nm. Q k = Some (Some nm) \<longrightarrow> M nm = Some \<lparr>p = None, pt = Some k, rname = nm\<rparr>)"

definition reg_ok :: "reg_state \<Rightarrow> bool" where
  "reg_ok st \<longleftrightarrow> hash_ok rname atom_val (process_reg st) \<and> \<not> write_locked st \<and> reg_inv (names st) (procs st) (ports st)"

lemma reg_invI:
  assumes "\<And>nm rp. M nm = Some rp \<Longrightarrow>
      (\<exists>k proc. rp = \<lparr>p = Some k, pt = None, rname = nm\<rparr> \<and> P k = Some proc \<and> reg proc = Some nm)
      \<or> (\<exists>k. rp = \<lparr>p = None, pt = Some k, rname = nm\<rparr> \<and> Q k = Some (Some nm))"
    and "\<And>k proc nm. P k = Some proc \<Longrightarrow> reg proc = Some nm \<Longrightarrow> M nm = Some \<lparr>p = Some k, pt = None, rname = nm\<rparr>"
    and "\<And>k nm. Q k = Some (Some nm) \<Longrightarrow> M nm = Some \<lparr>p = None, pt = Some k, rname = nm\<rparr>"
  shows "reg_inv M P Q"
  using assms unfolding reg_inv_def by blast

lemma reg_invD:
  assumes "reg_inv M P Q"
  shows "M nm = Some rp \<Longrightarrow>
      (\<exists>k proc. rp = \<lparr>p = Some k, pt = None, rname = nm\<rparr> \<and> P k = Some proc \<and> reg proc = Some nm)
      \<or> (\<exists>k. rp = \<lparr>p = None, pt = Some k, rname = nm\<rparr> \<and> Q k = Some (Some nm))"
    and "P k = Some proc \<Longrightarrow> reg proc = Some nm \<Longrightarrow> M nm = Some \<lparr>p = Some k, pt = None, rname = nm\<rparr>"
    and "Q k = Some (Some nm) \<Longrightarrow> M nm = Some \<lparr>p = None, pt = Some k, rname = nm\<rparr>"
  using assms unfolding reg_inv_def by blast+

lemma reg_inv_put_proc:
  assumes inv: "reg_inv M P Q" and new: "M nm = None" "P k = Some proc" "reg proc = None"
  shows "reg_inv (M(nm \<mapsto> \<lparr>p = Some k, pt = None, rname = nm\<rparr>)) (P(k \<mapsto> proc\<lparr>reg := Some nm\<rparr>)) Q"
proof (rule reg_invI)
  fix nm' rp assume a: "(M(nm \<mapsto> \<lparr>p = Some k, pt = None, rname = nm\<rparr>)) nm' = Some rp"
  show "(\<exists>k' proc'. rp = \<lparr>p = Some k', pt = None, rname = nm'\<rparr> \<and> (P(k \<mapsto> proc\<lparr>reg := Some nm\<rparr>)) k' = Some proc' \<and> reg proc' = Some nm')
    \<or> (\<exists>k. rp = \<lparr>p = None, pt = Some k, rname = nm'\<rparr> \<and> Q k = Some (Some nm'))"
  proof (cases "nm' = nm")
    case False
    with a reg_invD(1) [OF inv, of nm' rp] new(2,3) show ?thesis by fastforce
  qed (use a in auto)
next
  fix k' proc' nm' assume "(P(k \<mapsto> proc\<lparr>reg := Some nm\<rparr>)) k' = Some proc'" "reg proc' = Some nm'"
  with reg_invD(2) [OF inv, of k' proc' nm'] new(1) show "(M(nm \<mapsto> \<lparr>p = Some k, pt = None, rname = nm\<rparr>)) nm' = Some \<lparr>p = Some k', pt = None, rname = nm'\<rparr>"
    by (auto split: if_splits)
next
  fix k' nm' assume "Q k' = Some (Some nm')"
  with reg_invD(3) [OF inv, of k' nm'] new(1) show "(M(nm \<mapsto> \<lparr>p = Some k, pt = None, rname = nm\<rparr>)) nm' = Some \<lparr>p = None, pt = Some k', rname = nm'\<rparr>"
    by auto
qed

lemma reg_inv_put_port:
  assumes inv: "reg_inv M P Q" and new: "M nm = None" "Q k = Some None"
  shows "reg_inv (M(nm \<mapsto> \<lparr>p = None, pt = Some k, rname = nm\<rparr>)) P (Q(k \<mapsto> Some nm))"
proof (rule reg_invI)
  fix nm' rp assume a: "(M(nm \<mapsto> \<lparr>p = None, pt = Some k, rname = nm\<rparr>)) nm' = Some rp"
  show "(\<exists>k proc. rp = \<lparr>p = Some k, pt = None, rname = nm'\<rparr> \<and> P k = Some proc \<and> reg proc = Some nm')
    \<or> (\<exists>k'. rp = \<lparr>p = None, pt = Some k', rname = nm'\<rparr> \<and> (Q(k \<mapsto> Some nm)) k' = Some (Some nm'))"
  proof (cases "nm' = nm")
    case False
    with a reg_invD(1) [OF inv, of nm' rp] new(2) show ?thesis by fastforce
  qed (use a in auto)
next
  fix k' proc nm' assume "P k' = Some proc" "reg proc = Some nm'"
  with reg_invD(2) [OF inv, of k' proc nm'] new(1) show "(M(nm \<mapsto> \<lparr>p = None, pt = Some k, rname = nm\<rparr>)) nm' = Some \<lparr>p = Some k', pt = None, rname = nm'\<rparr>"
    by auto
next
  fix k' nm' assume "(Q(k \<mapsto> Some nm)) k' = Some (Some nm')"
  with reg_invD(3) [OF inv, of k' nm'] new(1) show "(M(nm \<mapsto> \<lparr>p = None, pt = Some k, rname = nm\<rparr>)) nm' = Some \<lparr>p = None, pt = Some k', rname = nm'\<rparr>"
    by (auto split: if_splits)
qed

lemma reg_inv_del_proc:
  assumes inv: "reg_inv M P Q" and old: "M nm = Some \<lparr>p = Some k, pt = None, rname = nm\<rparr>"
  shows "reg_inv (M(nm := None)) (P(k := map_option (\<lambda>proc. proc\<lparr>reg := None\<rparr>) (P k))) Q"
proof (rule reg_invI)
  from reg_invD(1) [OF inv old] obtain proc where k: "P k = Some proc" "reg proc = Some nm" by auto
  fix nm' rp assume "(M(nm := None)) nm' = Some rp"
  then have ne: "nm' \<noteq> nm" and "M nm' = Some rp" by (auto split: if_splits)
  from reg_invD(1) [OF inv this(2)]
  show "(\<exists>k' proc'. rp = \<lparr>p = Some k', pt = None, rname = nm'\<rparr>
      \<and> (P(k := map_option (\<lambda>proc. proc\<lparr>reg := None\<rparr>) (P k))) k' = Some proc' \<and> reg proc' = Some nm')
    \<or> (\<exists>k. rp = \<lparr>p = None, pt = Some k, rname = nm'\<rparr> \<and> Q k = Some (Some nm'))"
  proof (elim disjE exE conjE)
    fix k' proc' assume a: "rp = \<lparr>p = Some k', pt = None, rname = nm'\<rparr>" "P k' = Some proc'" "reg proc' = Some nm'"
    with k ne have "k' \<noteq> k" by auto
    with a show ?thesis by auto
  qed auto
next
  fix k' proc' nm' assume a: "(P(k := map_option (\<lambda>proc. proc\<lparr>reg := None\<rparr>) (P k))) k' = Some proc'" "reg proc' = Some nm'"
  then have "k' \<noteq> k" "P k' = Some proc'" by (auto split: if_splits)
  from reg_invD(2) [OF inv this(2) a(2)] this(1) old show "(M(nm := None)) nm' = Some \<lparr>p = Some k', pt = None, rname = nm'\<rparr>" by auto
next
  fix k' nm' assume "Q k' = Some (Some nm')"
  from reg_invD(3) [OF inv this] old show "(M(nm := None)) nm' = Some \<lparr>p = None, pt = Some k', rname = nm'\<rparr>" by auto
qed

lemma reg_inv_del_port:
  assumes inv: "reg_inv M P Q" and old: "M nm = Some \<lparr>p = None, pt = Some k, rname = nm\<rparr>"
  shows "reg_inv (M(nm := None)) P (Q(k \<mapsto> None))"
proof (rule reg_invI)
  from reg_invD(1) [OF inv old] have k: "Q k = Some (Some nm)" by auto
  fix nm' rp assume "(M(nm := None)) nm' = Some rp"
  then have ne: "nm' \<noteq> nm" and "M nm' = Some rp" by (auto split: if_splits)
  from reg_invD(1) [OF inv this(2)]
  show "(\<exists>k proc. rp = \<lparr>p = Some k, pt = None, rname = nm'\<rparr> \<and> P k = Some proc \<and> reg proc = Some nm')
    \<or> (\<exists>k'. rp = \<lparr>p = None, pt = Some k', rname = nm'\<rparr> \<and> (Q(k \<mapsto> None)) k' = Some (Some nm'))"
  proof (elim disjE exE conjE)
    fix k' assume a: "rp = \<lparr>p = None, pt = Some k', rname = nm'\<rparr>" "Q k' = Some (Some nm')"
    with k ne have "k' \<noteq> k" by auto
    with a show ?thesis by auto
  qed auto
next
  fix k' proc nm' assume "P k' = Some proc" "reg proc = Some nm'"
  from reg_invD(2) [OF inv this] old show "(M(nm := None)) nm' = Some \<lparr>p = Some k', pt = None, rname = nm'\<rparr>" by auto
next
  fix k' nm' assume "(Q(k \<mapsto> None)) k' = Some (Some nm')"
  then have "k' \<noteq> k" "Q k' = Some (Some nm')" by (auto split: if_splits)
  from reg_invD(3) [OF inv this(2)] this(1) old show "(M(nm := None)) nm' = Some \<lparr>p = None, pt = Some k', rname = nm'\<rparr>" by auto
qed

text \<open>The entry of a name.\<close>

lemma reg_inv_entry:
  assumes "reg_inv M P Q" and "M nm = Some rp"
  obtains k where "rp = \<lparr>p = Some k, pt = None, rname = nm\<rparr>" | k where "rp = \<lparr>p = None, pt = Some k, rname = nm\<rparr>"
  using reg_invD(1) [OF assms] by blast

lemma reg_ok_init: "init_register_table = Some st \<Longrightarrow> reg_ok st"
  using hash_init_ok [of 10 "rname :: RegProc \<Rightarrow> Eterm" atom_val] by (auto simp: init_register_table_def reg_ok_def reg_inv_def)

lemma reg_alloc_id [simp]: "reg_alloc r = r"
  by (cases r) (simp add: reg_alloc_def)

lemma reg_put:
  assumes "reg_ok st" and "nobjs (process_reg st) < 214748364" and "hash_put reg_functions (process_reg st) r = (rp, h)"
  shows "hash_ok rname atom_val h \<and> (case names st (rname r) of
      None \<Rightarrow> rp = r \<and> hash_map rname h = (names st)(rname r \<mapsto> r)
    | Some rp' \<Rightarrow> rp = rp' \<and> h = process_reg st)"
  using reg_table.hash_put_ok [OF _ assms(2,3)] assms(1)
  by (auto simp: reg_ok_def reg_functions_def split: option.splits)

text \<open>Registration, under the lock.\<close>

lemma register_proc_ok:
  assumes ok: "reg_ok st" and "nobjs (process_reg st) < 214748364" and k: "procs st k = Some proc" "reg proc = None"
    and put: "hash_put reg_functions (process_reg st) \<lparr>p = Some k, pt = None, rname = nm\<rparr> = (rp, h)"
  shows "reg_ok (if p rp = Some k then st\<lparr>process_reg := h, procs := (procs st)(k \<mapsto> proc\<lparr>reg := Some (rname rp)\<rparr>)\<rparr>
    else st\<lparr>process_reg := h\<rparr>)
    \<and> (p rp = Some k \<longleftrightarrow> names st nm = None)
    \<and> hash_map rname h = (if names st nm = None then (names st)(nm \<mapsto> \<lparr>p = Some k, pt = None, rname = nm\<rparr>) else names st)"
proof (cases "names st nm")
  case None
  with reg_put [OF assms(1,2) put] reg_inv_put_proc [of "names st" "procs st" "ports st" nm k proc] ok k show ?thesis
    by (simp add: reg_ok_def)
next
  case (Some rp')
  have "p rp' \<noteq> Some k"
  proof
    assume "p rp' = Some k"
    with Some ok have "\<exists>proc'. procs st k = Some proc' \<and> reg proc' = Some nm" by (fastforce simp: reg_ok_def reg_inv_def)
    with k show False by simp
  qed
  with reg_put [OF assms(1,2) put] Some ok show ?thesis by (simp add: reg_ok_def)
qed

lemma register_port_ok:
  assumes ok: "reg_ok st" and "nobjs (process_reg st) < 214748364" and k: "ports st k = Some None"
    and put: "hash_put reg_functions (process_reg st) \<lparr>p = None, pt = Some k, rname = nm\<rparr> = (rp, h)"
  shows "reg_ok (if pt rp = Some k then st\<lparr>process_reg := h, ports := (ports st)(k \<mapsto> Some (rname rp))\<rparr>
    else st\<lparr>process_reg := h\<rparr>)
    \<and> (pt rp = Some k \<longleftrightarrow> names st nm = None)
    \<and> hash_map rname h = (if names st nm = None then (names st)(nm \<mapsto> \<lparr>p = None, pt = Some k, rname = nm\<rparr>) else names st)"
proof (cases "names st nm")
  case None
  with reg_put [OF assms(1,2) put] reg_inv_put_port [of "names st" "procs st" "ports st" nm k] ok k show ?thesis
    by (simp add: reg_ok_def)
next
  case (Some rp')
  have "pt rp' \<noteq> Some k"
  proof
    assume "pt rp' = Some k"
    with Some ok have "ports st k = Some (Some nm)" by (fastforce simp: reg_ok_def reg_inv_def)
    with k show False by simp
  qed
  with reg_put [OF assms(1,2) put] Some ok show ?thesis by (simp add: reg_ok_def)
qed


lemma reg_ok_lock [simp]:
  "reg_ok st \<Longrightarrow> reg_write_lock st = Some (st\<lparr>write_locked := True\<rparr>)"
  by (simp add: reg_ok_def reg_write_lock_def)

text \<open>The name of a process or port.\<close>

definition reg_name :: "reg_state \<Rightarrow> Eterm \<Rightarrow> Eterm option" where
  "reg_name st ident = (case ident of
     Pid_term k \<Rightarrow> (case procs st k of None \<Rightarrow> None | Some proc \<Rightarrow> reg proc)
   | Port_term k \<Rightarrow> (case ports st k of None \<Rightarrow> None | Some nm \<Rightarrow> nm)
   | _ \<Rightarrow> None)"

text \<open>The process or port a name stands for, as a partial function.\<close>

definition reg_id :: "RegProc \<Rightarrow> Eterm" where
  "reg_id rp = (case p rp of Some k \<Rightarrow> Pid_term k | None \<Rightarrow> Port_term (the (pt rp)))"

definition registry :: "reg_state \<Rightarrow> Eterm \<rightharpoonup> Eterm" where
  "registry st nm = map_option reg_id (names st nm)"

lemma registry_iff:
  assumes "reg_ok st"
  shows "registry st nm = Some ident \<longleftrightarrow> reg_name st ident = Some nm"
proof
  have inv: "reg_inv (names st) (procs st) (ports st)" using assms by (simp add: reg_ok_def)
  assume "registry st nm = Some ident"
  then obtain rp where rp: "names st nm = Some rp" "ident = reg_id rp" by (auto simp: registry_def)
  from reg_invD(1) [OF inv rp(1)] rp(2) show "reg_name st ident = Some nm" by (auto simp: reg_id_def reg_name_def)
next
  have inv: "reg_inv (names st) (procs st) (ports st)" using assms by (simp add: reg_ok_def)
  assume "reg_name st ident = Some nm"
  then have "names st nm = Some (case ident of Pid_term k \<Rightarrow> \<lparr>p = Some k, pt = None, rname = nm\<rparr>
      | Port_term k \<Rightarrow> \<lparr>p = None, pt = Some k, rname = nm\<rparr>) \<and> (\<exists>k. ident = Pid_term k \<or> ident = Port_term k)"
    using reg_invD(2) [OF inv] reg_invD(3) [OF inv] by (auto simp: reg_name_def split: Eterm.splits option.splits)
  then show "registry st nm = Some ident" by (auto simp: registry_def reg_id_def)
qed

lemma whereis_registry:
  assumes "reg_ok st"
  shows "erts_whereis_name_to_id am_undefined st nm = (case registry st nm of None \<Rightarrow> am_undefined | Some ident \<Rightarrow> ident)"
proof (cases "names st nm")
  case (Some rp)
  have inv: "reg_inv (names st) (procs st) (ports st)" using assms by (simp add: reg_ok_def)
  have "hash_get reg_functions (process_reg st) \<lparr>p = None, pt = None, rname = nm\<rparr> = names st nm"
    using assms reg_table.hash_get_map by (simp add: reg_ok_def)
  with Some show ?thesis
    by (cases rule: reg_inv_entry [OF inv Some]) (simp_all add: erts_whereis_name_to_id_def hash_get_def registry_def reg_id_def)
next
  case None
  have "hash_get reg_functions (process_reg st) \<lparr>p = None, pt = None, rname = nm\<rparr> = names st nm"
    using assms reg_table.hash_get_map by (simp add: reg_ok_def)
  with None show ?thesis by (simp add: erts_whereis_name_to_id_def hash_get_def registry_def)
qed


lemma hash_get_names:
  "reg_ok st \<Longrightarrow> hash_get reg_functions (process_reg st) \<lparr>p = None, pt = None, rname = nm\<rparr> = names st nm"
  using reg_table.hash_get_map by (simp add: reg_ok_def)

text \<open>A process or port that can be registered by \<open>c_p\<close>.\<close>

definition live :: "reg_state \<Rightarrow> nat \<Rightarrow> Eterm \<Rightarrow> bool" where
  "live st c_p ident = (case ident of
     Pid_term k \<Rightarrow> (case procs st k of None \<Rightarrow> False | Some proc \<Rightarrow> c_p = k \<or> \<not> exiting proc)
   | Port_term k \<Rightarrow> ports st k \<noteq> None
   | _ \<Rightarrow> False)"

lemma reg_ok_locked [simp]:
  "names (st\<lparr>write_locked := b\<rparr>) = names st" "registry (st\<lparr>write_locked := b\<rparr>) = registry st"
  "registry (st\<lparr>procs := P\<rparr>) = registry st" "registry (st\<lparr>ports := Q\<rparr>) = registry st"
  by (simp_all add: registry_def fun_eq_iff)

lemma register_locked_ok:
  assumes ok: "reg_ok st" and room: "nobjs (process_reg st) < 214748364"
    and run: "register_locked c_p name ident (st\<lparr>write_locked := True\<rparr>) = (res, fv, st')"
    and port: "\<forall>k. ident = Port_term k \<longrightarrow> ports st k \<noteq> None"
  shows "write_locked st' \<and> reg_ok (st'\<lparr>write_locked := False\<rparr>)
    \<and> (res \<longleftrightarrow> live st c_p ident \<and> reg_name st ident = None \<and> registry st name = None)
    \<and> registry st' = (if res then (registry st)(name \<mapsto> ident) else registry st)"
proof (cases "live st c_p ident \<and> reg_name st ident = None")
  case False
  with run ok port have "\<not> res \<and> st' = st\<lparr>write_locked := True\<rparr>"
    by (auto simp: register_locked_def live_def reg_name_def erts_pid2proc_def Let_def split: Eterm.splits option.splits if_splits prod.splits)
  with ok False show ?thesis by (auto simp: reg_ok_def)
next
  case True
  then consider (proc) k proc where "ident = Pid_term k" "procs st k = Some proc" "reg proc = None" "c_p = k \<or> \<not> exiting proc"
    | (port) k where "ident = Port_term k" "ports st k = Some None"
    by (auto simp: live_def reg_name_def split: Eterm.splits option.splits)
  then show ?thesis
  proof cases
    case proc
    obtain rp h where put: "hash_put reg_functions (process_reg st) \<lparr>p = Some k, pt = None, rname = name\<rparr> = (rp, h)" by fastforce
    have "(if c_p = k then procs (st\<lparr>write_locked := True\<rparr>) k else erts_pid2proc (st\<lparr>write_locked := True\<rparr>) k) = Some proc"
      using proc by (auto simp: erts_pid2proc_def)
    then have st': "res = (p rp = Some k)" "st' = (if p rp = Some k then st\<lparr>process_reg := h, procs := (procs st)(k \<mapsto> proc\<lparr>reg := Some (rname rp)\<rparr>)\<rparr>
        else st\<lparr>process_reg := h\<rparr>)\<lparr>write_locked := True\<rparr>"
      using run proc put by (auto simp: register_locked_def Let_def)
    from register_proc_ok [OF ok room proc(2,3) put] True proc(1) show ?thesis
      unfolding st' by (auto simp: reg_ok_def registry_def fun_eq_iff reg_id_def)
  next
    case port
    obtain rp h where put: "hash_put reg_functions (process_reg st) \<lparr>p = None, pt = Some k, rname = name\<rparr> = (rp, h)" by fastforce
    then have st': "res = (pt rp = Some k)" "st' = (if pt rp = Some k then st\<lparr>process_reg := h, ports := (ports st)(k \<mapsto> Some (rname rp))\<rparr>
        else st\<lparr>process_reg := h\<rparr>)\<lparr>write_locked := True\<rparr>"
      using run port by (auto simp: register_locked_def Let_def)
    from register_port_ok [OF ok room port(2) put] True port(1) show ?thesis
      unfolding st' by (auto simp: reg_ok_def registry_def fun_eq_iff reg_id_def)
  qed
qed


lemma register_name_ok:
  assumes ok: "reg_ok st" and room: "nobjs (process_reg st) < 214748364"
    and port: "\<forall>k. ident = Port_term k \<longrightarrow> ports st k \<noteq> None"
  shows "\<exists>res fv st'. erts_register_name am_undefined c_p name ident st = Some (res, fv, st') \<and> reg_ok st'
    \<and> (res \<longleftrightarrow> is_atom name \<and> name \<noteq> am_undefined \<and> live st c_p ident \<and> reg_name st ident = None \<and> registry st name = None)
    \<and> registry st' = (if res then (registry st)(name \<mapsto> ident) else registry st)"
proof (cases "is_atom name \<and> name \<noteq> am_undefined \<and> (\<exists>k. ident = Pid_term k \<or> ident = Port_term k)")
  case True
  obtain res fv st' where run: "register_locked c_p name ident (st\<lparr>write_locked := True\<rparr>) = (res, fv, st')" by (metis prod_cases3)
  note r = register_locked_ok [OF ok room run port]
  have "erts_register_name am_undefined c_p name ident st = Some (res, fv, st'\<lparr>write_locked := False\<rparr>)"
    using True port r run ok by (auto simp: erts_register_name_def reg_write_unlock_def)
  with r True show ?thesis by simp
next
  case False
  then have "erts_register_name am_undefined c_p name ident st = Some (False, am_none, st)"
    by (auto simp: erts_register_name_def split: Eterm.splits)
  with False ok show ?thesis by (auto simp: live_def split: Eterm.splits)
qed

lemma unregister_try_ok:
  assumes ok: "reg_ok st" and nm: "name = Some nm \<or> name = None \<and> c_p = Some k \<and> reg_name st (Pid_term k) = Some nm"
  shows "\<exists>st'. unregister_try c_p name st = Some (registry st nm \<noteq> None, st') \<and> reg_ok st'
    \<and> registry st' = (registry st)(nm := None)"
proof -
  let ?r = "\<lparr>p = None, pt = None, rname = nm\<rparr>"
  obtain r h where rem: "hash_remove reg_functions (process_reg st) ?r = (r, h)" by fastforce
  note rm = reg_table.hash_remove_ok [OF _ this]
  have er: "snd (hash_erase reg_functions (process_reg st) ?r) = h"
    using rem by (simp add: reg_table.hash_erase_remove)
  have get: "hash_get reg_functions (process_reg st) ?r = names st nm" by (rule hash_get_names [OF ok])
  have inv: "reg_inv (names st) (procs st) (ports st)" and hok: "hash_ok rname atom_val (process_reg st)"
    using ok by (simp_all add: reg_ok_def)
  have sel: "unregister_target c_p name (st\<lparr>write_locked := True\<rparr>) = Some (Some nm)"
    using nm by (auto simp: unregister_target_def reg_name_def split: option.splits)
  show ?thesis
  proof (cases "names st nm")
    case None
    then have "unregister_try c_p name st = Some (False, st)"
      using ok get sel by (simp add: unregister_try_def unregister_locked_def reg_write_unlock_def Let_def reg_ok_def)
    moreover have "(registry st)(nm := None) = registry st" using None by (auto simp: registry_def)
    ultimately show ?thesis using ok None by (simp add: registry_def)
  next
    case (Some rp)
    from inv Some show ?thesis
    proof (cases rule: reg_inv_entry)
      case (1 k)
      let ?st = "st\<lparr>procs := (procs st)(k := map_option (\<lambda>proc. proc\<lparr>reg := None\<rparr>) (procs st k)), process_reg := h\<rparr>"
      have "unregister_try c_p name st = Some (True, ?st)"
        using ok get sel Some 1 er by (simp add: unregister_try_def unregister_locked_def reg_write_unlock_def Let_def reg_ok_def)
      moreover have "reg_ok ?st" using rm hok ok reg_inv_del_proc [OF inv] Some 1 by (simp add: reg_ok_def)
      ultimately show ?thesis using rm hok Some by (auto simp: registry_def)
    next
      case (2 k)
      let ?st = "st\<lparr>ports := (ports st)(k \<mapsto> None), process_reg := h\<rparr>"
      have "unregister_try c_p name st = Some (True, ?st)"
        using ok get sel Some 2 er by (simp add: unregister_try_def unregister_locked_def reg_write_unlock_def Let_def reg_ok_def)
      moreover have "reg_ok ?st" using rm hok ok reg_inv_del_port [OF inv] Some 2 by (simp add: reg_ok_def)
      ultimately show ?thesis using rm hok Some by (auto simp: registry_def)
    qed
  qed
qed


lemma unregister_none:
  assumes "reg_ok st" and "reg_name st (Pid_term k) = None" and "unregister_try (Some k) None st = Some (res, st')"
  shows "\<not> res \<and> st' = st"
  using assms
  by (auto simp: unregister_try_def unregister_locked_def unregister_target_def reg_write_unlock_def reg_ok_def reg_name_def
      split: bind_splits option.splits if_splits)

lemma unregister_try_reg_ok:
  assumes ok: "reg_ok st" and run: "unregister_try c_p name st = Some (res, st')"
  shows "reg_ok st'"
proof -
  consider nm where "name = Some nm" | k nm where "name = None" "c_p = Some k" "reg_name st (Pid_term k) = Some nm"
    | k where "name = None" "c_p = Some k" "reg_name st (Pid_term k) = None" | "name = None" "c_p = None"
    by (cases name; cases c_p) auto
  then show ?thesis
  proof cases
    case (1 nm)
    with unregister_try_ok [OF ok, of name nm c_p] run show ?thesis by auto
  next
    case (2 k nm)
    with unregister_try_ok [OF ok, of name nm c_p k] run show ?thesis by auto
  next
    case (3 k)
    with unregister_none [OF ok, of k] ok run show ?thesis by auto
  next
    case 4
    with run show ?thesis by (simp add: unregister_try_def unregister_locked_def unregister_target_def)
  qed
qed

text \<open>The loop ends with a try in the state it was called in or in one of those it has waited for.\<close>

lemma unregister_name_try:
  assumes "\<And>s. s \<in> set (st # waits) \<Longrightarrow> \<not> write_locked s"
  shows "\<exists>s \<in> set (st # waits). erts_unregister_name c_p port name waits st = unregister_try c_p name s"
  using assms
proof (induction waits arbitrary: st port)
  case (Cons st' waits)
  then have free: "\<not> write_locked st" by simp
  let ?l = "st\<lparr>write_locked := True\<rparr>"
  show ?case
  proof (cases "port_to_lock c_p port name ?l")
    case None
    then have "unregister_target c_p name ?l = None" by (cases "unregister_target c_p name ?l") (simp_all add: port_to_lock_def)
    then have "unregister_try c_p name st = None" using free by (simp add: unregister_try_def unregister_locked_def reg_write_lock_def)
    then show ?thesis using None free by (intro bexI [of _ st]) (simp_all add: reg_write_lock_def)
  next
    case (Some q)
    show ?thesis
    proof (cases q)
      case None
      then show ?thesis using Some free by (intro bexI [of _ st]) (simp_all add: reg_write_lock_def)
    next
      case (Some k)
      obtain s where "s \<in> set (st' # waits)"
        "erts_unregister_name c_p (map_option (\<lambda>_. k) (ports st' k)) name waits st' = unregister_try c_p name s"
        using Cons.IH [of st' "map_option (\<lambda>_. k) (ports st' k)"] Cons.prems by auto
      then show ?thesis using Some \<open>port_to_lock c_p port name ?l = Some q\<close> free
        by (intro bexI [of _ s]) (simp_all add: reg_write_lock_def reg_write_unlock_def)
    qed
  qed
qed simp

text \<open>The other steps change no pointer to an entry.\<close>

lemma reg_inv_step:
  assumes inv: "reg_inv M P Q"
    and P: "\<And>k. (case P' k of None \<Rightarrow> None | Some proc \<Rightarrow> reg proc) = (case P k of None \<Rightarrow> None | Some proc \<Rightarrow> reg proc)"
    and Q: "\<And>k. (case Q' k of None \<Rightarrow> None | Some nm \<Rightarrow> nm) = (case Q k of None \<Rightarrow> None | Some nm \<Rightarrow> nm)"
  shows "reg_inv M P' Q'"
proof -
  have P2: "(\<exists>proc. P' k = Some proc \<and> reg proc = Some nm) \<longleftrightarrow> (\<exists>proc. P k = Some proc \<and> reg proc = Some nm)" for k nm
    using P [of k] by (auto split: option.splits)
  have Q2: "Q' k = Some (Some nm) \<longleftrightarrow> Q k = Some (Some nm)" for k nm
    using Q [of k] by (auto split: option.splits)
  show ?thesis
  proof (rule reg_invI)
    fix nm rp assume "M nm = Some rp"
    from reg_invD(1) [OF inv this] P2 Q2
    show "(\<exists>k proc. rp = \<lparr>p = Some k, pt = None, rname = nm\<rparr> \<and> P' k = Some proc \<and> reg proc = Some nm)
      \<or> (\<exists>k. rp = \<lparr>p = None, pt = Some k, rname = nm\<rparr> \<and> Q' k = Some (Some nm))" by blast
  next
    fix k proc nm assume "P' k = Some proc" "reg proc = Some nm"
    with P2 reg_invD(2) [OF inv] show "M nm = Some \<lparr>p = Some k, pt = None, rname = nm\<rparr>" by blast
  next
    fix k nm assume "Q' k = Some (Some nm)"
    with Q2 reg_invD(3) [OF inv] show "M nm = Some \<lparr>p = None, pt = Some k, rname = nm\<rparr>" by blast
  qed
qed

lemma reg_ok_procs:
  assumes "reg_ok st"
    and "\<And>k. (case P k of None \<Rightarrow> None | Some proc \<Rightarrow> reg proc) = (case procs st k of None \<Rightarrow> None | Some proc \<Rightarrow> reg proc)"
  shows "reg_ok (st\<lparr>procs := P\<rparr>)"
  using assms reg_inv_step [of "names st" "procs st" "ports st" P "ports st"] by (simp add: reg_ok_def)

lemma reg_ok_ports:
  assumes "reg_ok st"
    and "\<And>k. (case Q k of None \<Rightarrow> None | Some nm \<Rightarrow> nm) = (case ports st k of None \<Rightarrow> None | Some nm \<Rightarrow> nm)"
  shows "reg_ok (st\<lparr>ports := Q\<rparr>)"
  using assms reg_inv_step [of "names st" "procs st" "ports st" "procs st" Q] by (simp add: reg_ok_def)

lemma register_closed_port:
  assumes "\<not> write_locked st" and "is_atom name" and "name \<noteq> am_undefined" and "ports st k = None"
  shows "erts_register_name am_undefined c_p name (Port_term k) st = None"
  using assms by (simp add: erts_register_name_def reg_write_unlock_def)

lemma reg_reach_ok: "reg_reach am_undefined st \<Longrightarrow> reg_ok st"
proof (induction rule: reg_reach.induct)
  case (init st)
  then show ?case by (rule reg_ok_init)
next
  case (register st c_p name ident res fv st')
  show ?case
  proof (cases "\<forall>k. ident = Port_term k \<longrightarrow> ports st k \<noteq> None")
    case True
    with register_name_ok [OF register.IH register(3), of ident am_undefined c_p name] register(4) show ?thesis by auto
  next
    case False
    then obtain k where "ident = Port_term k" "ports st k = None" by blast
    with register.IH register(4) show ?thesis
      by (auto simp: erts_register_name_def reg_write_unlock_def reg_ok_def split: if_splits)
  qed
next
  case (unregister st waits c_p port name res st')
  then have "\<not> write_locked s" if "s \<in> set (st # waits)" for s using that by (auto simp: reg_ok_def)
  from unregister_name_try [OF this, where c_p = c_p and port = port and name = name] obtain s where
    s: "s \<in> set (st # waits)" "erts_unregister_name c_p port name waits st = unregister_try c_p name s" by blast
  with unregister have "reg_ok s" "unregister_try c_p name s = Some (res, st')" by auto
  then show ?case by (rule unregister_try_reg_ok)
next
  case (spawn st k)
  then show ?case by (intro reg_ok_procs) auto
next
  case (open_port st k)
  then show ?case by (intro reg_ok_ports) auto
next
  case (exit st k proc)
  then show ?case by (intro reg_ok_procs) auto
next
  case (free_process st k proc)
  then show ?case by (intro reg_ok_procs) auto
next
  case (free_port st k)
  then show ?case by (intro reg_ok_ports) auto
qed


lemma registered_entries: "registered_0 st = rev (map fst (hash_entries rname (concat (bucket (process_reg st)))))"
  if "reg_ok st"
proof -
  have "fold (\<lambda>r res. f r # res) rs acc = rev (map f rs) @ acc" for f :: "RegProc \<Rightarrow> Eterm" and rs acc
    by (induction rs arbitrary: acc) auto
  then have "hash_foreach (process_reg st) (\<lambda>reg res. rname reg # res) []
      = rev (map fst (hash_entries rname (concat (bucket (process_reg st)))))"
    by (simp add: hash_foreach_def hash_entries_def o_def case_prod_beta)
  moreover have "concat (bucket (process_reg st)) = []" if "nobjs (process_reg st) = 0"
    using that \<open>reg_ok st\<close> by (simp add: reg_ok_def hash_ok_def)
  ultimately show ?thesis by (auto simp: registered_0_def hash_entries_def)
qed

lemma registered_registry:
  assumes "reg_ok st"
  shows "distinct (registered_0 st) \<and> set (registered_0 st) = dom (registry st)"
proof -
  have "distinct (registered_0 st)" using assms by (simp add: registered_entries reg_ok_def hash_ok_def chains_ok_def)
  moreover have "set (registered_0 st) = dom (names st)"
    using registered_entries [OF assms] by (simp add: hash_map_def dom_map_of_conv_image_fst)
  ultimately show ?thesis by (auto simp: registry_def dom_def)
qed

lemma whereis_name_registry:
  assumes "reg_ok st"
  shows "erts_whereis_name st nm allow_other_x = (case registry st nm of
      Some (Pid_term k) \<Rightarrow> (if allow_other_x \<or> \<not> exiting (the (procs st k)) then Some k else None, None)
    | Some (Port_term k) \<Rightarrow> (None, Some k)
    | _ \<Rightarrow> (None, None))"
proof (cases "names st nm")
  case None
  with hash_get_names [OF assms, of nm] show ?thesis by (simp add: erts_whereis_name_def hash_get_def registry_def)
next
  case (Some rp)
  have inv: "reg_inv (names st) (procs st) (ports st)" using assms by (simp add: reg_ok_def)
  from reg_invD(1) [OF inv Some] hash_get_names [OF assms, of nm] Some show ?thesis
    by (auto simp: erts_whereis_name_def hash_get_def registry_def reg_id_def)
qed

lemma nobjs_registry: "reg_ok st \<Longrightarrow> nobjs (process_reg st) = int (card (dom (registry st)))"
  using hash_map_card [of rname atom_val "process_reg st"] by (simp add: reg_ok_def registry_def dom_def)

lemma finite_registry: "finite (dom (registry st))"
proof -
  have "dom (registry st) = dom (names st)" by (auto simp: registry_def)
  then show ?thesis by (simp add: hash_map_def finite_dom_map_of)
qed

section \<open>Properties\<close>

text \<open>
  C9.  In every reachable state the table and the pointers agree: \<open>erts_whereis_name_to_id\<close> finds a process
  or port under a name exactly if that process or port has that name; \<open>registered/0\<close> lists the names that
  are found, each once; and the lock is free.
\<close>

theorem reg_reach_whereis:
  assumes "reg_reach (Atom_term u) st"
  shows "\<not> write_locked st \<and> distinct (registered_0 st)
    \<and> (\<forall>nm ident. ident \<noteq> Atom_term u \<longrightarrow>
        (erts_whereis_name_to_id (Atom_term u) st nm = ident \<longleftrightarrow> reg_name st ident = Some nm))
    \<and> (\<forall>nm. nm \<in> set (registered_0 st) \<longleftrightarrow> erts_whereis_name_to_id (Atom_term u) st nm \<noteq> Atom_term u)"
proof -
  note ok = reg_reach_ok [OF assms]
  have no: "registry st nm \<noteq> Some (Atom_term u)" for nm by (simp add: registry_iff [OF ok] reg_name_def)
  have "erts_whereis_name_to_id (Atom_term u) st nm = ident \<longleftrightarrow> registry st nm = Some ident" if "ident \<noteq> Atom_term u" for nm ident
    using that by (auto simp: whereis_registry [OF ok] split: option.splits)
  moreover have "erts_whereis_name_to_id (Atom_term u) st nm \<noteq> Atom_term u \<longleftrightarrow> nm \<in> dom (registry st)" for nm
    using no [of nm] by (auto simp: whereis_registry [OF ok] split: option.splits)
  ultimately show ?thesis
    using ok registered_registry [OF ok] registry_iff [OF ok] by (simp add: reg_ok_def)
qed

text \<open>The history of a small system: a process and a port with names, and a process without.\<close>

definition demo_start :: reg_state where
  "demo_start = (the init_register_table)\<lparr>procs := [7 \<mapsto> \<lparr>reg = None, exiting = False\<rparr>, 8 \<mapsto> \<lparr>reg = None, exiting = False\<rparr>],
     ports := [3 \<mapsto> None]\<rparr>"

definition demo_register :: "Eterm \<Rightarrow> Eterm \<Rightarrow> reg_state \<Rightarrow> reg_state" where
  "demo_register name ident st = snd (snd (the (erts_register_name (Atom_term 0) 7 name ident st)))"

definition demo_reg :: reg_state where
  "demo_reg = demo_register (Atom_term 6) (Port_term 3) (demo_register (Atom_term 5) (Pid_term 7) demo_start)"

lemma demo_start_reach: "reg_reach (Atom_term 0) demo_start"
proof -
  have "\<not> Option.is_none init_register_table" by code_simp
  then obtain st where st: "init_register_table = Some st" by (cases init_register_table) auto
  then have "procs st = Map.empty" "ports st = Map.empty" by (auto simp: init_register_table_def)
  with reg_reach.open_port [OF reg_reach.spawn [OF reg_reach.spawn [OF reg_reach.init [OF st], of 7], of 8], of 3 "Atom_term 0"]
  show ?thesis by (simp add: demo_start_def st)
qed

lemma demo_register_reach:
  assumes "reg_reach (Atom_term 0) st" and "\<not> Option.is_none (procs st 7)" and "nobjs (process_reg st) < 214748364"
    and "\<not> Option.is_none (erts_register_name (Atom_term 0) 7 name ident st)"
  shows "reg_reach (Atom_term 0) (demo_register name ident st)"
  using reg_reach.register [OF assms(1) _ assms(3), of 7 name ident] assms(2,4)
  by (cases "erts_register_name (Atom_term 0) 7 name ident st") (auto simp: demo_register_def is_none_simps Option.is_none_def)

lemma demo_reach: "reg_reach (Atom_term 0) demo_reg"
  unfolding demo_reg_def
  by (rule demo_register_reach [OF demo_register_reach [OF demo_start_reach]]) code_simp+

theorem reg_reach_whereis_witness:
  "reg_reach (Atom_term 0) demo_reg \<and> reg_name demo_reg (Port_term 3) = Some (Atom_term 6)
   \<and> erts_whereis_name_to_id (Atom_term 0) demo_reg (Atom_term 6) = Port_term 3"
proof -
  have "reg_name demo_reg (Port_term 3) = Some (Atom_term 6)" by code_simp
  with reg_reach_whereis [OF demo_reach] demo_reach show ?thesis by simp
qed


text \<open>
  C31.  Registration implements the update of a partial injection from names to processes and ports, in every
  reachable state with fewer than 214748364 names.  For a valid name and the identifier of a port that is not open
  it is undefined.  In all other cases it returns; it succeeds exactly if the name is an atom other
  than \<open>undefined\<close> that is not taken, and the identifier is that of the calling process, of another process that is not exiting, or of
  an open port, and has no name; then the name stands for it, and otherwise nothing changes.
\<close>

theorem erts_register_name_registry:
  assumes "reg_reach am_undefined st" and "nobjs (process_reg st) < 214748364"
  shows "if is_atom name \<and> name \<noteq> am_undefined \<and> (\<exists>k. ident = Port_term k \<and> ports st k = None)
    then erts_register_name am_undefined c_p name ident st = None
    else \<exists>res fv st'. erts_register_name am_undefined c_p name ident st = Some (res, fv, st')
      \<and> (res \<longleftrightarrow> is_atom name \<and> name \<noteq> am_undefined \<and> live st c_p ident \<and> reg_name st ident = None \<and> registry st name = None)
      \<and> registry st' = (if res then (registry st)(name \<mapsto> ident) else registry st)"
proof -
  note ok = reg_reach_ok [OF assms(1)]
  show ?thesis
  proof (cases "\<exists>k. ident = Port_term k \<and> ports st k = None")
    case True
    then obtain k where k: "ident = Port_term k" "ports st k = None" by blast
    show ?thesis
    proof (cases "is_atom name \<and> name \<noteq> am_undefined")
      case True
      with register_closed_port [of st name am_undefined k c_p] k ok show ?thesis by (simp add: reg_ok_def)
    next
      case False
      then show ?thesis by (auto simp: erts_register_name_def)
    qed
  next
    case False
    then have "\<forall>k. ident = Port_term k \<longrightarrow> ports st k \<noteq> None" by auto
    from register_name_ok [OF ok assms(2) this, of am_undefined c_p name] False show ?thesis by (simp only: simp_thms if_False) blast
  qed
qed

theorem erts_register_name_registry_witness:
  "\<exists>st'. (\<exists>fv. erts_register_name (Atom_term 0) 7 (Atom_term 9) (Pid_term 8) demo_reg = Some (True, fv, st'))
     \<and> registry st' = (registry demo_reg)(Atom_term 9 \<mapsto> Pid_term 8)"
proof -
  have n: "nobjs (process_reg demo_reg) < 214748364" by code_simp
  have "live demo_reg 7 (Pid_term 8) \<and> reg_name demo_reg (Pid_term 8) = None \<and> registry demo_reg (Atom_term 9) = None"
    by code_simp
  with erts_register_name_registry [OF demo_reach n, where ident = "Pid_term 8" and c_p = 7 and name = "Atom_term 9"] show ?thesis by auto
qed

text \<open>
  C32.  A name can be given away again.  However often the lock of a port is busy and whatever reachable states the
  registry is in when \<open>erts_unregister_name\<close> starts again, it returns once a lock is free: for one of these
  states it tells whether there was such a name, and changes the registry of this state in no other way than by removing the
  name; if that state has fewer than 214748364 names, a process without a name can then take the name.
\<close>

theorem erts_unregister_name_free:
  assumes "\<forall>s \<in> set (st # waits). reg_reach am_undefined s" and "is_atom nm" and "nm \<noteq> am_undefined"
  shows "\<exists>s st'. s \<in> set (st # waits) \<and> erts_unregister_name c_p c_prt (Some nm) waits st = Some (registry s nm \<noteq> None, st')
    \<and> registry st' = (registry s)(nm := None)
    \<and> (nobjs (process_reg s) < 214748364 \<longrightarrow> (\<forall>k proc. procs st' k = Some proc \<and> reg proc = None \<longrightarrow>
        (\<exists>fv st''. erts_register_name am_undefined k nm (Pid_term k) st' = Some (True, fv, st'')
           \<and> registry st'' = (registry s)(nm \<mapsto> Pid_term k))))"
proof -
  have "\<not> write_locked s" if "s \<in> set (st # waits)" for s
    using that reg_reach_ok [of am_undefined s] assms(1) by (auto simp: reg_ok_def)
  from unregister_name_try [OF this, where c_p = c_p and port = c_prt and name = "Some nm"] obtain s where
    s: "s \<in> set (st # waits)" "erts_unregister_name c_p c_prt (Some nm) waits st = unregister_try c_p (Some nm) s" by blast
  with assms(1) have ok: "reg_ok s" using reg_reach_ok by blast
  obtain st' where st': "unregister_try c_p (Some nm) s = Some (registry s nm \<noteq> None, st')" "reg_ok st'"
      "registry st' = (registry s)(nm := None)"
    using unregister_try_ok [OF ok, of "Some nm" nm c_p] by blast
  have "\<exists>fv st''. erts_register_name am_undefined k nm (Pid_term k) st' = Some (True, fv, st'')
      \<and> registry st'' = (registry s)(nm \<mapsto> Pid_term k)"
    if "nobjs (process_reg s) < 214748364" "procs st' k = Some proc" "reg proc = None" for k proc
  proof -
    have "dom (registry st') \<subseteq> dom (registry s)" using st'(3) by auto
    with card_mono [OF finite_registry this] nobjs_registry [OF ok] nobjs_registry [OF st'(2)] that(1)
    have room: "nobjs (process_reg st') < 214748364" by linarith
    show ?thesis using register_name_ok [OF st'(2) room, of "Pid_term k" am_undefined k nm] that assms(2,3) st'(3)
      by (auto simp: live_def reg_name_def)
  qed
  then show ?thesis using s st' by (intro exI [of _ s] exI [of _ st']) simp
qed

theorem erts_unregister_name_free_witness:
  "\<exists>s st'. s \<in> {demo_reg, demo_start} \<and> erts_unregister_name (Some 8) None (Some (Atom_term 6)) [demo_start] demo_reg =
      Some (registry s (Atom_term 6) \<noteq> None, st')
     \<and> registry st' = (registry s)(Atom_term 6 := None)"
proof -
  have "\<forall>s \<in> set (demo_reg # [demo_start]). reg_reach (Atom_term 0) s" using demo_reach demo_start_reach by simp
  from erts_unregister_name_free [OF this, of "Atom_term 6" "Some 8" None] show ?thesis by auto
qed



end
