(* ===== verification/Erts_Digits.thy ===== *)
theory Erts_Digits
  imports Prelude
begin

text \<open>
  Digit arithmetic of the emulator's big integers: the macros at the head of \<open>erts/emulator/beam/big.c\<close>
  on 64-bit digits, in the form for compilers with a 128-bit type and in the portable form with half
  digits, and the operations on digit vectors that go through the digits once.
\<close>

section \<open>Definitions\<close>

type_synonym digits = "u64 list"

subsection \<open>Digits\<close>

text \<open>Sum with carry out; the sum comes first.\<close>

definition DSUM :: "u64 \<Rightarrow> u64 \<Rightarrow> u64 \<times> u64" where
  "DSUM a b = (let s = b + a in (s, if s < b then 1 else 0))"

definition DSUBb :: "u64 \<Rightarrow> u64 \<Rightarrow> u64 \<Rightarrow> u64 \<times> u64" where
  "DSUBb a b r = (let yr = b + r; cr = (if yr < r then 1 else 0); d = a - yr in (d, cr + (if d > a then 1 else 0)))"

definition DSUB :: "u64 \<Rightarrow> u64 \<Rightarrow> u64 \<times> u64" where
  "DSUB a b = (let d = a - b in (d, if d > a then 1 else 0))"

text \<open>The macros of builds with double digits.\<close>

definition DLOW :: "128 word \<Rightarrow> u64" where
  "DLOW x = ucast x"

definition DHIGH :: "128 word \<Rightarrow> u64" where
  "DHIGH x = ucast (drop_bit 64 x)"

definition DDIGIT :: "u64 \<Rightarrow> u64 \<Rightarrow> 128 word" where
  "DDIGIT a1 a0 = push_bit 64 (ucast a1) + ucast a0"

text \<open>Product plus carry, and sum with carry: the low digit and the new carry.\<close>

definition DMULc :: "u64 \<Rightarrow> u64 \<Rightarrow> u64 \<Rightarrow> u64 \<times> u64" where
  "DMULc a b c = (let t = ucast a * ucast b + ucast c in (DLOW t, DHIGH t))"

definition DMUL :: "u64 \<Rightarrow> u64 \<Rightarrow> u64 \<times> u64" where
  "DMUL a b = (let t = ucast a * ucast b in (DLOW t, DHIGH t))"

definition DSUMc :: "u64 \<Rightarrow> u64 \<Rightarrow> u64 \<Rightarrow> u64 \<times> u64" where
  "DSUMc a b c = (let t = ucast a + ucast b + ucast c in (DLOW t, DHIGH t))"

definition DDIV :: "u64 \<Rightarrow> u64 \<Rightarrow> u64 \<Rightarrow> u64" where
  "DDIV a1 a0 b = ucast (DDIGIT a1 a0 div ucast b)"

definition DDIV2 :: "u64 \<Rightarrow> u64 \<Rightarrow> u64 \<Rightarrow> u64 \<Rightarrow> u64" where
  "DDIV2 a1 a0 b1 b0 = ucast (DDIGIT a1 a0 div DDIGIT b1 b0)"

text \<open>The macros of builds without double digits, with halves of 32 bits.\<close>

abbreviation H_EXP :: nat where "H_EXP \<equiv> 32"
abbreviation LO_MASK :: u64 where "LO_MASK \<equiv> 0xFFFFFFFF"
abbreviation HI_MASK :: u64 where "HI_MASK \<equiv> 0xFFFFFFFF00000000"

definition DSUMc_portable :: "u64 \<Rightarrow> u64 \<Rightarrow> u64 \<Rightarrow> u64 \<times> u64" where
  "DSUMc_portable a b c = (let xr = a + c; cr = (if xr < c then 1 else 0); s = b + xr in (s, cr + (if s < b then 1 else 0)))"

definition DMULc_portable :: "u64 \<Rightarrow> u64 \<Rightarrow> u64 \<Rightarrow> u64 \<times> u64" where
  "DMULc_portable a b d1 =
     (let a0 = ucast a :: u32; a1 = ucast (drop_bit H_EXP a) :: u32;
          b0 = ucast b :: u32; b1 = ucast (drop_bit H_EXP b) :: u32;
          a0b0 = ucast a0 * ucast b0; a0b1 = ucast a0 * ucast b1;
          a1b0 = ucast a1 * ucast b0; a1b1 = ucast a1 * ucast b1;
          (p0, c0) = DSUM a0b0 d1;
          (p1, p2) = DSUM (push_bit H_EXP c0) (drop_bit H_EXP p0);
          (p1, c0) = DSUM p1 a0b1;
          p2 = p2 + c0;
          (p1, c0) = DSUM p1 a1b0;
          p2 = p2 + c0;
          (p1, c0) = DSUM p1 (push_bit H_EXP a1b1);
          p2 = p2 + c0;
          (p2, c0) = DSUM a1b1 (push_bit H_EXP p2)
      in (push_bit H_EXP p1 OR (p0 AND LO_MASK), (p2 AND HI_MASK) OR drop_bit H_EXP p1))"

section \<open>Values\<close>

abbreviation D_BASE :: int where "D_BASE \<equiv> 18446744073709551616"

lemma uint_DLOW: "uint (DLOW t) = uint t mod D_BASE"
  by (simp add: DLOW_def unsigned_ucast_eq take_bit_eq_mod)

lemma uint_DHIGH: "uint (DHIGH t) = uint t div D_BASE"
proof -
  have "uint t < 2 ^ 128" using uint_lt2p [of t] by simp
  then have "0 \<le> uint t div D_BASE" "uint t div D_BASE < D_BASE" by (simp_all add: pos_imp_zdiv_nonneg_iff)
  note mod_pos_pos_trivial [OF this]
  then show ?thesis
    by (simp add: DHIGH_def unsigned_ucast_eq drop_bit_eq_div uint_div take_bit_eq_mod unsigned_drop_bit_eq)
qed

lemma u64_bounds: "0 \<le> uint (a :: u64)" "uint a < D_BASE" "uint a \<le> D_BASE - 1"
  using uint_lt2p [of a] by simp_all

lemma uint_wide [simp]: "uint (ucast (a :: u64) :: 128 word) = uint a"
  by (simp add: unsigned_ucast_eq take_bit_int_eq_self_iff u64_bounds order.strict_trans [OF u64_bounds(2)])

lemma uint_plus_small: "uint a + uint b < 2 ^ LENGTH('a) \<Longrightarrow> uint (a + b :: 'a :: len word) = uint a + uint b"
  by (simp add: uint_word_ariths mod_pos_pos_trivial)

lemma uint_mult_small: "uint a * uint b < 2 ^ LENGTH('a) \<Longrightarrow> uint (a * b :: 'a :: len word) = uint a * uint b"
  by (simp add: uint_word_ariths mod_pos_pos_trivial)

lemma digit_split: "uint (DLOW t) + D_BASE * uint (DHIGH t) = uint t"
  unfolding uint_DLOW uint_DHIGH by simp

lemma digit_product: "uint (a :: u64) * uint (b :: u64) \<le> (D_BASE - 1) * (D_BASE - 1)"
  by (intro mult_mono) (use u64_bounds in simp_all)

lemma DMULc_val: "DMULc a b c = (p, c') \<Longrightarrow> uint p + D_BASE * uint c' = uint a * uint b + uint c"
proof -
  let ?t = "ucast a * ucast b + ucast c :: 128 word"
  assume "DMULc a b c = (p, c')"
  then have "uint p + D_BASE * uint c' = uint ?t" using digit_split [of ?t] by (auto simp: DMULc_def Let_def)
  moreover have "uint (ucast a * ucast b :: 128 word) = uint a * uint b"
    using digit_product [of a b] by (subst uint_mult_small) simp_all
  moreover from this have "uint ?t = uint a * uint b + uint c"
    using digit_product [of a b] u64_bounds [of c] by (subst uint_plus_small) simp_all
  ultimately show ?thesis by simp
qed

lemma DMUL_val: "DMUL a b = (p, c) \<Longrightarrow> uint p + D_BASE * uint c = uint a * uint b"
  using DMULc_val [of a b 0] by (simp add: DMUL_def DMULc_def)

lemma DSUMc_val: "DSUMc a b c = (s, c') \<Longrightarrow> uint s + D_BASE * uint c' = uint a + uint b + uint c"
proof -
  let ?t = "ucast a + ucast b + ucast c :: 128 word"
  assume "DSUMc a b c = (s, c')"
  then have "uint s + D_BASE * uint c' = uint ?t" using digit_split [of ?t] by (auto simp: DSUMc_def Let_def)
  moreover have "uint ?t = uint a + uint b + uint c"
    using u64_bounds [of a] u64_bounds [of b] u64_bounds [of c] by (simp add: uint_plus_small)
  ultimately show ?thesis by simp
qed

lemma carry_cases: "uint (s :: u64) + D_BASE * uint (c :: u64) \<le> 2 * D_BASE - 1 \<Longrightarrow> c = 0 \<or> c = 1"
proof -
  assume "uint s + D_BASE * uint c \<le> 2 * D_BASE - 1"
  with u64_bounds [of s] u64_bounds [of c] have "uint c < 2" by linarith
  with u64_bounds(1) [of c] have "uint c = 0 \<or> uint c = 1" by linarith
  then show ?thesis by (auto simp: word_uint_eq_iff)
qed

lemma uint_sum_wrap: "uint (a + b :: u64) = (if uint a + uint b < D_BASE then uint a + uint b else uint a + uint b - D_BASE)"
  using u64_bounds [of a] u64_bounds [of b] by (simp add: uint_plus_if_size word_size)

lemma uint_diff_wrap: "uint (a - b :: u64) = (if uint b \<le> uint a then uint a - uint b else uint a - uint b + D_BASE)"
  using u64_bounds [of a] u64_bounds [of b] by (simp add: uint_sub_if_size word_size)

lemma DSUM_val: "DSUM a b = (s, c) \<Longrightarrow> uint s + D_BASE * uint c = uint a + uint b"
  using u64_bounds [of a] u64_bounds [of b]
  by (auto simp: DSUM_def Let_def word_less_def uint_sum_wrap split: if_splits)

lemma DSUB_val: "DSUB a b = (d, r) \<Longrightarrow> uint d - D_BASE * uint r = uint a - uint b"
  using u64_bounds [of a] u64_bounds [of b]
  by (auto simp: DSUB_def Let_def word_less_def uint_diff_wrap split: if_splits)

lemma DSUBb_val:
  assumes "DSUBb a b r = (d, r')" and "r = 0 \<or> r = 1"
  shows "uint d - D_BASE * uint r' = uint a - uint b - uint r \<and> (r' = 0 \<or> r' = 1)"
  using assms u64_bounds [of a] u64_bounds [of b]
  by (auto simp: DSUBb_def Let_def word_less_def uint_diff_wrap uint_sum_wrap split: if_splits)
    (use u64_bounds(1) [of a] u64_bounds(1) [of b] in linarith)+


subsection \<open>Half digits\<close>

lemma uint_low_half: "uint (ucast (ucast (a :: u64) :: u32) :: u64) = uint a mod 4294967296"
proof -
  have "uint a mod 4294967296 < 4294967296" by simp
  then show ?thesis by (simp add: unsigned_ucast_eq take_bit_eq_mod mod_mod_cancel uint_mod)
qed

lemma uint_drop_32: "uint (drop_bit 32 (a :: u64)) = uint a div 4294967296"
  by (simp add: unsigned_drop_bit_eq drop_bit_eq_div take_bit_eq_mod uint_div)

lemma uint_high_half: "uint (ucast (ucast (drop_bit 32 (a :: u64)) :: u32) :: u64) = uint a div 4294967296"
proof -
  have "0 \<le> uint a div 4294967296" "uint a div 4294967296 < 4294967296"
    using u64_bounds [of a] by (simp_all add: pos_imp_zdiv_nonneg_iff)
  then show ?thesis unfolding uint_low_half uint_drop_32 by (rule mod_pos_pos_trivial)
qed

lemma uint_push_32: "uint (push_bit 32 (a :: u64)) = 4294967296 * (uint a mod 4294967296)"
proof -
  have "uint (push_bit 32 a) = (uint a * 4294967296) mod (4294967296 * 4294967296)"
    by (simp add: push_bit_eq_mult uint_word_ariths)
  then show ?thesis using mult_mod_right [of 4294967296 "uint a" 4294967296] by (simp add: mult.commute)
qed

lemma uint_and_low: "uint ((a :: u64) AND LO_MASK) = uint a mod 4294967296"
  using take_bit_eq_mask [of 32 "uint a"] by (simp add: uint_and take_bit_eq_mod mask_eq_exp_minus_1)

lemma int_or_shifted: "4294967296 * k OR y = 4294967296 * k + y" if "0 \<le> y" "y < 4294967296" for k y :: int
proof -
  have t: "take_bit 32 y = y" using that by (simp add: take_bit_int_eq_self_iff)
  have y: "\<not> bit y n" if "32 \<le> n" for n
    by (subst t [symmetric]) (use that in \<open>simp add: bit_take_bit_iff\<close>)
  have "4294967296 * k = push_bit 32 k" by (simp add: push_bit_eq_mult)
  moreover have "push_bit 32 k OR y = push_bit 32 k + y"
    by (rule disjunctive_add [symmetric]) (use y in \<open>auto simp: bit_push_bit_iff\<close>)
  ultimately show ?thesis by simp
qed

lemma uint_and_high: "uint ((a :: u64) AND HI_MASK) = 4294967296 * (uint a div 4294967296)"
proof -
  have "HI_MASK = push_bit 32 (mask 32)" by code_simp
  moreover have "a AND push_bit 32 (mask 32) = push_bit 32 (drop_bit 32 a)"
    by (rule bit_word_eqI) (auto simp: bit_simps)
  moreover have "(uint a div 4294967296) mod 4294967296 = uint a div 4294967296"
    using u64_bounds [of a] by (intro mod_pos_pos_trivial) (simp_all add: pos_imp_zdiv_nonneg_iff)
  ultimately show ?thesis by (simp only: uint_push_32 uint_drop_32)
qed

lemma uint_join_halves: "uint (push_bit 32 x OR (y AND LO_MASK)) = 4294967296 * (uint (x :: u64) mod 4294967296) + uint y mod 4294967296"
  unfolding uint_or uint_push_32 uint_and_low by (rule int_or_shifted) simp_all

lemma uint_join_high: "uint ((x AND HI_MASK) OR drop_bit 32 y) = 4294967296 * (uint (x :: u64) div 4294967296) + uint y div 4294967296"
  unfolding uint_or uint_and_high uint_drop_32 using u64_bounds [of y]
  by (intro int_or_shifted) (simp_all add: pos_imp_zdiv_nonneg_iff)

text \<open>The portable product.\<close>

lemma half_product: "0 \<le> a \<Longrightarrow> a < 4294967296 \<Longrightarrow> 0 \<le> b \<Longrightarrow> b < 4294967296 \<Longrightarrow> 0 \<le> a * b \<and> a * b \<le> 18446744065119617025" for a b :: int
  using mult_mono [of a 4294967295 b 4294967295] by simp

lemma uint_half_mult: "uint (x :: u64) < 4294967296 \<Longrightarrow> uint y < 4294967296 \<Longrightarrow> uint (x * y) = uint x * uint y"
  using half_product [of "uint x" "uint y"] by (intro uint_mult_small) simp

lemma div_halves: "0 \<le> uint (a :: u64) div 4294967296" "uint a div 4294967296 < 4294967296" "0 \<le> uint a mod 4294967296" "uint a mod 4294967296 < 4294967296"
  using u64_bounds [of a] by (simp_all add: pos_imp_zdiv_nonneg_iff)

text \<open>
  The digits as numbers: \<open>k\<close> is the number of carries, \<open>mh\<close> and \<open>ml\<close> are the halves of the product
  of the high halves.
\<close>

lemma portable_sum:
  fixes a0 :: int
  assumes "p0 + D_BASE * c0 = a0 * b0 + d1" and "p0 = p0l + 4294967296 * p0h" and "a1 * b1 = ml + 4294967296 * mh"
    and "p1l + 4294967296 * p1h + D_BASE * k = 4294967296 * c0 + p0h + a0 * b1 + a1 * b0 + 4294967296 * ml"
  shows "p0l + 4294967296 * p1l + D_BASE * (p1h + 4294967296 * (k + mh)) = (a0 + 4294967296 * a1) * (b0 + 4294967296 * b1) + d1"
proof -
  have "(a0 + 4294967296 * a1) * (b0 + 4294967296 * b1) + d1 = (a0 * b0 + d1) + 4294967296 * (a0 * b1 + a1 * b0) + D_BASE * (a1 * b1)"
    by (simp add: algebra_simps)
  then show ?thesis using assms by algebra
qed

lemma DSUM_carry: "DSUM a b = (s, c) \<Longrightarrow> c = 0 \<or> c = 1"
  by (auto simp: DSUM_def Let_def)

lemma div_mod_unique_halves: "l + 4294967296 * h = x \<Longrightarrow> 0 \<le> l \<Longrightarrow> l < 4294967296 \<Longrightarrow> x div 4294967296 = h \<and> x mod 4294967296 = l" for x :: int
  by auto

lemma DMULc_portable_val:
  assumes "DMULc_portable a b d1 = (p, c)"
  shows "uint p + D_BASE * uint c = uint a * uint b + uint d1"
proof -
  let ?H = "4294967296 :: int"
  define a0b0 a0b1 a1b0 a1b1 :: u64 where
    "a0b0 = ucast (ucast a :: u32) * ucast (ucast b :: u32)" and
    "a0b1 = ucast (ucast a :: u32) * ucast (ucast (drop_bit 32 b) :: u32)" and
    "a1b0 = ucast (ucast (drop_bit 32 a) :: u32) * ucast (ucast b :: u32)" and
    "a1b1 = ucast (ucast (drop_bit 32 a) :: u32) * ucast (ucast (drop_bit 32 b) :: u32)"
  obtain p0 c0 p1 k1 q1 c1 q2 c2 q3 c3 p2 c4 where
    s: "DSUM a0b0 d1 = (p0, c0)" "DSUM (push_bit 32 c0) (drop_bit 32 p0) = (p1, k1)" "DSUM p1 a0b1 = (q1, c1)"
      "DSUM q1 a1b0 = (q2, c2)" "DSUM q2 (push_bit 32 a1b1) = (q3, c3)" "DSUM a1b1 (push_bit 32 (k1 + c1 + c2 + c3)) = (p2, c4)"
    by (metis surj_pair)
  have pc: "p = push_bit 32 q3 OR (p0 AND LO_MASK)" "c = (p2 AND HI_MASK) OR drop_bit 32 q3"
    using assms s unfolding DMULc_portable_def by (auto simp: Let_def a0b0_def a0b1_def a1b0_def a1b1_def)
  define a0 a1 b0 b1 where "a0 = uint a mod ?H" and "a1 = uint a div ?H" and "b0 = uint b mod ?H" and "b1 = uint b div ?H"
  have ab: "uint a = a0 + ?H * a1" "uint b = b0 + ?H * b1" by (simp_all add: a0_def a1_def b0_def b1_def)
  have half: "uint (ucast (x :: u32) :: u64) < ?H" for x
    using uint_lt2p [of x] take_bit_int_less_eq_self_iff [of 64 "uint x"] by (simp add: unsigned_ucast_eq)
  have prods: "uint a0b0 = a0 * b0" "uint a0b1 = a0 * b1" "uint a1b0 = a1 * b0" "uint a1b1 = a1 * b1"
    unfolding a0b0_def a0b1_def a1b0_def a1b1_def a0_def a1_def b0_def b1_def
    by (simp_all only: uint_half_mult [OF half half] uint_high_half [symmetric] uint_low_half [symmetric])
  define k where "k = uint k1 + uint c1 + uint c2 + uint c3"
  have small: "c0 = 0 \<or> c0 = 1" "k1 = 0 \<or> k1 = 1" "c1 = 0 \<or> c1 = 1" "c2 = 0 \<or> c2 = 1" "c3 = 0 \<or> c3 = 1"
    using s DSUM_carry by blast+
  then have k: "uint (k1 + c1 + c2 + c3) = k" "0 \<le> k" "k < ?H" and c0: "uint c0 mod ?H = uint c0"
    by (auto simp: k_def)
  define p0l p0h q3l q3h ml mh where "p0l = uint p0 mod ?H" and "p0h = uint p0 div ?H" and "q3l = uint q3 mod ?H" and "q3h = uint q3 div ?H"
    and "ml = a1 * b1 mod ?H" and "mh = a1 * b1 div ?H"
  have split: "uint p0 = p0l + ?H * p0h" "uint q3 = q3l + ?H * q3h" "a1 * b1 = ml + ?H * mh"
    by (simp_all add: p0l_def p0h_def q3l_def q3h_def ml_def mh_def)
  have pos: "0 \<le> p0l" "0 \<le> q3l" "0 \<le> q3h" "0 \<le> ml" "ml < ?H"
    by (simp_all add: p0l_def q3l_def q3h_def ml_def div_halves)
  note v = DSUM_val [OF s(1)] DSUM_val [OF s(2)] DSUM_val [OF s(3)] DSUM_val [OF s(4)] DSUM_val [OF s(5)] DSUM_val [OF s(6)]
  note v = v [unfolded prods uint_push_32 uint_drop_32 c0 k(1), folded p0h_def ml_def]
  have "q3l + ?H * q3h + D_BASE * k = ?H * uint c0 + p0h + a0 * b1 + a1 * b0 + ?H * ml"
    using v(2-5) unfolding k_def split(2) distrib_left by linarith
  from portable_sum [OF v(1) split(1,3) this]
  have sum: "p0l + ?H * q3l + D_BASE * (q3h + ?H * (k + mh)) = uint a * uint b + uint d1" unfolding ab .
  have "uint a * uint b + uint d1 < D_BASE * D_BASE"
    using digit_product [of a b] u64_bounds [of d1] by simp
  then have "k + mh < ?H" unfolding sum [symmetric] using pos by simp
  then have "ml + ?H * (k + mh) < D_BASE" using pos by simp
  moreover have "uint p2 + D_BASE * uint c4 = ml + ?H * (k + mh)"
    using v(6) split(3) mod_pos_pos_trivial [OF k(2,3)] by simp
  moreover have "uint c4 = 0 \<or> uint c4 = 1" using DSUM_carry [OF s(6)] by auto
  ultimately have "ml + ?H * (k + mh) = uint p2" using u64_bounds(1) [of p2] by (elim disjE) linarith+
  then have "uint p2 div ?H = k + mh" using div_mod_unique_halves [OF _ pos(4,5)] by blast
  then show ?thesis
    unfolding pc uint_join_halves uint_join_high sum [symmetric] by (simp add: p0l_def q3l_def q3h_def)
qed


lemma DSUMc_portable_val: "DSUMc_portable a b c = (s, c') \<Longrightarrow> uint s + D_BASE * uint c' = uint a + uint b + uint c"
  using u64_bounds [of a] u64_bounds [of b] u64_bounds [of c]
  by (auto simp: DSUMc_portable_def Let_def word_less_def uint_sum_wrap split: if_splits)
    (use u64_bounds(1) [of a] u64_bounds(1) [of c] in linarith)

lemma digit_pair_eqI: "uint (p :: u64) + D_BASE * uint (c :: u64) = uint p' + D_BASE * uint c' \<Longrightarrow> p = p' \<and> c = c'"
proof -
  assume e: "uint p + D_BASE * uint c = uint p' + D_BASE * uint c'"
  have "(uint p + D_BASE * uint c) mod D_BASE = uint p" "(uint p' + D_BASE * uint c') mod D_BASE = uint p'"
    using u64_bounds [of p] u64_bounds [of p'] by simp_all
  with e have "uint p = uint p'" by simp
  with e show ?thesis by (simp add: word_uint_eq_iff)
qed

lemma portable_macros: "DMULc_portable a b c = DMULc a b c" "DSUMc_portable a b c = DSUMc a b c"
proof -
  show "DMULc_portable a b c = DMULc a b c"
    using DMULc_portable_val [of a b c] DMULc_val [of a b c] digit_pair_eqI by (metis surj_pair)
  show "DSUMc_portable a b c = DSUMc a b c"
    using DSUMc_portable_val [of a b c] DSUMc_val [of a b c] digit_pair_eqI by (metis surj_pair)
qed

end
