(* ===== verification/Erts_Vector.thy ===== *)
theory Erts_Vector
  imports Erts_Digits
begin

text \<open>
  Vectors of digits in \<open>erts/emulator/beam/big.c\<close>: comparison, addition, subtraction, products with a digit
  and division by a digit.  A vector is a list of digits, the lowest first; a function that stores its
  result at \<open>r\<close> and returns the length gives the list of the digits stored.  \<open>None\<close> is an access outside
  the operands, which the loops that run at least once make when an operand is empty.
\<close>

section \<open>Definitions\<close>

subsection \<open>Comparison\<close>

text \<open>From the highest digits down; the vectors are given highest digit first.\<close>

fun I_comp_down :: "digits \<Rightarrow> digits \<Rightarrow> int" where
  "I_comp_down (x # xs) (y # ys) = (if x = y then I_comp_down xs ys else if x < y then -1 else 1)"
| "I_comp_down _ _ = 0"

definition I_comp :: "digits \<Rightarrow> digits \<Rightarrow> int" where
  "I_comp x y =
     (if length x < length y then -1
      else if length x > length y then 1
      else I_comp_down (rev x) (rev y))"

subsection \<open>Addition and subtraction\<close>

fun D_add :: "digits \<Rightarrow> u64 \<Rightarrow> digits" where
  "D_add [] c = (if c \<noteq> 0 then [1] else [])"
| "D_add (x # xs) c = (let xr = x + c in xr # D_add xs (if xr < c then 1 else 0))"

fun I_add_loop :: "digits \<Rightarrow> digits \<Rightarrow> u64 \<Rightarrow> digits" where
  "I_add_loop (x # xs) (y # ys) c = (let (xr, c) = DSUMc x y c in xr # I_add_loop xs ys c)"
| "I_add_loop xs _ c = D_add xs c"

definition I_add :: "digits \<Rightarrow> digits \<Rightarrow> digits option" where
  "I_add x y = (if y = [] \<or> length x < length y then None else Some (I_add_loop x y 0))"

text \<open>The vector without the zero digits at its top, but with its lowest digit.\<close>

fun strip_down :: "digits \<Rightarrow> digits" where
  "strip_down (d # e # ds) = (if d = 0 then strip_down (e # ds) else d # e # ds)"
| "strip_down ds = ds"

definition strip :: "digits \<Rightarrow> digits" where
  "strip r = rev (strip_down (rev r))"

fun D_sub_loop :: "digits \<Rightarrow> u64 \<Rightarrow> digits" where
  "D_sub_loop [] c = []"
| "D_sub_loop (x # xs) c = (let yr = x - c in yr # D_sub_loop xs (if yr > x then 1 else 0))"

definition D_sub :: "digits \<Rightarrow> u64 \<Rightarrow> digits option" where
  "D_sub x c = (if x = [] then None else Some (strip (D_sub_loop x c)))"

fun I_sub_loop :: "digits \<Rightarrow> digits \<Rightarrow> u64 \<Rightarrow> digits" where
  "I_sub_loop (x # xs) (y # ys) c =
     (let yr = y + c; c = (if yr < c then 1 else 0); yr = x - yr; c = c + (if yr > x then 1 else 0)
      in yr # I_sub_loop xs ys c)"
| "I_sub_loop xs _ c = D_sub_loop xs c"

definition I_sub :: "digits \<Rightarrow> digits \<Rightarrow> digits option" where
  "I_sub x y = (if y = [] \<or> length x < length y then None else Some (strip (I_sub_loop x y 0)))"

fun Z_sub_loop :: "digits \<Rightarrow> u64 \<Rightarrow> digits" where
  "Z_sub_loop [] c = []"
| "Z_sub_loop (y # ys) c =
     (let yr = y + c; c = (if yr < c then 1 else 0); yr = 0 - yr; c = c + (if yr > 0 then 1 else 0)
      in yr # Z_sub_loop ys c)"

text \<open>The digits of the complement, all of them, and the size without zero digits at the top.\<close>

definition Z_sub :: "digits \<Rightarrow> (digits \<times> nat) option" where
  "Z_sub y = (if y = [] then None else let r = Z_sub_loop y 0 in Some (r, length (strip r)))"

subsection \<open>Products with a digit\<close>

fun D_double :: "digits \<Rightarrow> u64 \<Rightarrow> digits" where
  "D_double [] c = (if c = 0 then [] else [c])"
| "D_double (x # xs) c = (let (p, c) = DSUMc x x c in p # D_double xs c)"

fun D_mul_loop :: "digits \<Rightarrow> u64 \<Rightarrow> u64 \<Rightarrow> digits" where
  "D_mul_loop [] d c = (if c = 0 then [] else [c])"
| "D_mul_loop (x # xs) d c = (let (p, c) = DMULc d x c in p # D_mul_loop xs d c)"

definition D_mul :: "digits \<Rightarrow> u64 \<Rightarrow> digits" where
  "D_mul x d = (if d = 0 then [0] else if d = 1 then x else if d = 2 then D_double x 0 else D_mul_loop x d 0)"

text \<open>The digits, the carry of the product and the borrow.\<close>

fun D_mulsub_loop :: "digits \<Rightarrow> u64 \<Rightarrow> digits \<Rightarrow> u64 \<Rightarrow> u64 \<Rightarrow> digits \<times> u64 \<times> u64" where
  "D_mulsub_loop (x # xs) d (y # ys) c b =
     (let (c0, c) = DMULc d y c; (s, b) = DSUBb x c0 b; (ss, c, b) = D_mulsub_loop xs d ys c b in (s # ss, c, b))"
| "D_mulsub_loop _ d _ c b = ([], c, b)"

text \<open>The digits stored and the size returned, 0 for a borrow.\<close>

definition D_mulsub :: "digits \<Rightarrow> u64 \<Rightarrow> digits \<Rightarrow> (digits \<times> nat) option" where
  "D_mulsub x d y =
     (if y = [] \<or> \<not> (length x = length y \<or> length x = length y + 1) then None
      else
        let (r, c, b) = D_mulsub_loop x d y 0 0 in
        if length x = length y then
          Some (r, if c \<noteq> 0 \<or> b \<noteq> 0 then 0 else length (strip r))
        else
          let (s, b) = DSUBb (last x) c b; r = r @ [s] in
          Some (r, if b \<noteq> 0 then 0 else length (strip r)))"

subsection \<open>Division by a digit\<close>

lemma uint_DDIGIT: "uint (DDIGIT a1 a0) = D_BASE * uint a1 + uint a0"
proof -
  have "uint (push_bit 64 (ucast a1 :: 128 word)) = D_BASE * uint a1"
    using u64_bounds [of a1] by (simp add: push_bit_eq_mult uint_word_ariths mod_pos_pos_trivial)
  then show ?thesis
    using u64_bounds [of a1] u64_bounds [of a0] by (simp add: DDIGIT_def uint_plus_small)
qed

lemma zdiv_less: "0 < b \<Longrightarrow> a < c * b \<Longrightarrow> a div b < c" for a b c :: int
proof -
  assume b: "0 < b" and "a < c * b"
  moreover have "a = a div b * b + a mod b" "0 \<le> a mod b" using b by simp_all
  ultimately have "a div b * b < c * b" by linarith
  with b show ?thesis by simp
qed

lemma DDIV_val:
  assumes "a1 < b"
  shows "uint (DDIV a1 a0 b) = (D_BASE * uint a1 + uint a0) div uint b"
proof -
  have b: "uint a1 + 1 \<le> uint b" using assms by (simp add: word_less_def)
  then have "D_BASE * (uint a1 + 1) \<le> D_BASE * uint b" by simp
  then have "D_BASE * uint a1 + uint a0 < D_BASE * uint b" using u64_bounds [of a0] by simp
  moreover have "0 < uint b" using b u64_bounds(1) [of a1] by linarith
  ultimately have "(D_BASE * uint a1 + uint a0) div uint b < D_BASE" by (simp add: zdiv_less mult.commute)
  moreover have "0 \<le> (D_BASE * uint a1 + uint a0) div uint b" using \<open>0 < uint b\<close> by (simp add: pos_imp_zdiv_nonneg_iff)
  ultimately show ?thesis
    by (simp add: DDIV_def unsigned_ucast_eq take_bit_eq_mod uint_div uint_DDIGIT mod_pos_pos_trivial)
qed

text \<open>A step of the division: the quotient digit and the remainder, which the code computes modulo \<open>2 ^ 64\<close>.\<close>

definition div_step :: "u64 \<Rightarrow> u64 \<Rightarrow> u64 \<Rightarrow> u64 \<times> u64" where
  "div_step a1 a0 d =
     (let q0 = DDIV a1 a0 d; (b0, b1) = DMUL d q0; (a1, b) = DSUB a0 b0 in (q0, a1))"

lemma wrap_zero: "r = m + D_BASE * z \<Longrightarrow> 0 \<le> r \<Longrightarrow> r < D_BASE \<Longrightarrow> 0 \<le> m \<Longrightarrow> m < D_BASE \<Longrightarrow> z = 0" for r m z :: int
  by linarith

lemma div_step_val:
  assumes "a1 < d" and "div_step a1 a0 d = (q, r)"
  shows "D_BASE * uint a1 + uint a0 = uint q * uint d + uint r \<and> r < d"
proof -
  let ?n = "D_BASE * uint a1 + uint a0"
  obtain b0 b1 where m: "DMUL d q = (b0, b1)" by fastforce
  obtain b where s: "DSUB a0 b0 = (r, b)" and q: "q = DDIV a1 a0 d"
    using assms(2) m by (auto simp: div_step_def Let_def split: prod.splits)
  have d: "0 < uint d" using assms(1) u64_bounds(1) [of a1] unfolding word_less_def by linarith
  have "uint r - D_BASE * uint b = uint a0 - (uint d * uint q - D_BASE * uint b1)"
    using DMUL_val [OF m] DSUB_val [OF s] by linarith
  moreover have "uint d * uint q = ?n - ?n mod uint d"
    using DDIV_val [OF assms(1), of a0] q by (simp add: minus_mod_eq_mult_div)
  ultimately have r: "uint r = ?n mod uint d + D_BASE * (uint b + uint b1 - uint a1)" by (simp add: algebra_simps)
  have "?n mod uint d < D_BASE" using pos_mod_bound [OF d, of ?n] u64_bounds [of d] by linarith
  then have "uint b + uint b1 - uint a1 = 0"
    using wrap_zero [OF r] u64_bounds [of r] pos_mod_sign [OF d, of ?n] by blast
  with r have "uint r = ?n mod uint d" by simp
  then show ?thesis using DDIV_val [OF assms(1), of a0] q d by (simp add: word_less_def)
qed

function D_div_loop :: "digits \<Rightarrow> u64 \<Rightarrow> u64 \<Rightarrow> digits \<Rightarrow> (digits \<times> u64) option" where
  "D_div_loop xs a1 d q =
     (if d = 0 then None
      else case (if d > a1 then (case xs of [] \<Rightarrow> None | a0 # xs \<Rightarrow> Some (a1, a0, xs)) else Some (0, a1, xs)) of
        None \<Rightarrow> None
      | Some (a1, a0, xs) \<Rightarrow>
          let (q0, a1) = div_step a1 a0 d in
          if xs = [] then Some (q0 # q, a1) else D_div_loop xs a1 d (q0 # q))"
  by pat_completeness auto
termination
  by (relation "measure (\<lambda>(xs, a1, d, q). 2 * length xs + (if d > a1 then 0 else 1))")
    (auto split: if_splits list.splits dest!: sym [of "(_, _)" "div_step _ _ _"] dest: div_step_val [rotated] simp: word_gt_0)

declare D_div_loop.simps [simp del]

text \<open>The digits of the quotient and the remainder.\<close>

definition D_div :: "digits \<Rightarrow> u64 \<Rightarrow> (digits \<times> u64) option" where
  "D_div x d =
     (case rev x of
        [] \<Rightarrow> None
      | a1 # xs \<Rightarrow> if d > a1 \<and> xs = [] then Some ([0], a1) else D_div_loop xs a1 d [])"

section \<open>Values of vectors\<close>

fun dval :: "digits \<Rightarrow> int" where
  "dval [] = 0"
| "dval (d # ds) = uint d + D_BASE * dval ds"

text \<open>The vectors of big numbers have no zero digit at the top.\<close>

definition normal :: "digits \<Rightarrow> bool" where
  "normal ds \<longleftrightarrow> ds \<noteq> [] \<and> (last ds \<noteq> 0 \<or> length ds = 1)"

lemma dval_append: "dval (xs @ ys) = dval xs + D_BASE ^ length xs * dval ys"
  by (induction xs) (simp_all add: algebra_simps)

lemma dval_nonneg [simp]: "0 \<le> dval xs"
  by (induction xs) simp_all

lemma dval_less: "dval xs < D_BASE ^ length xs"
proof (induction xs)
  case (Cons x xs)
  then have "dval xs + 1 \<le> D_BASE ^ length xs" by simp
  then have "D_BASE * (dval xs + 1) \<le> D_BASE * D_BASE ^ length xs" by (rule mult_left_mono) simp
  then show ?case using u64_bounds [of x] by simp
qed simp

lemma dval_replicate_0 [simp]: "dval (replicate n 0) = 0"
  by (induction n) simp_all

lemma digit_pos: "d \<noteq> 0 \<Longrightarrow> 1 \<le> uint (d :: u64)"
proof -
  assume "d \<noteq> 0"
  then have "uint d \<noteq> 0" by (simp add: word_uint_eq_iff)
  with u64_bounds(1) [of d] show ?thesis by linarith
qed

lemma dval_ge: "xs \<noteq> [] \<Longrightarrow> last xs \<noteq> 0 \<Longrightarrow> D_BASE ^ (length xs - 1) \<le> dval xs"
proof (induction xs rule: rev_induct)
  case (snoc x xs)
  then have "D_BASE ^ length xs * 1 \<le> D_BASE ^ length xs * uint x" by (intro mult_left_mono digit_pos) simp_all
  with dval_nonneg [of xs] have "D_BASE ^ length xs \<le> dval xs + D_BASE ^ length xs * uint x" by linarith
  then show ?case by (simp add: dval_append)
qed simp


lemma normal_length_le:
  assumes "normal x" and "dval x < D_BASE ^ n" and "0 < n"
  shows "length x \<le> n"
proof (rule ccontr)
  assume "\<not> length x \<le> n"
  with assms(1,3) have "x \<noteq> []" "last x \<noteq> 0" "n \<le> length x - 1" by (auto simp: normal_def)
  then have "D_BASE ^ n \<le> D_BASE ^ (length x - 1)" "D_BASE ^ (length x - 1) \<le> dval x"
    by (simp_all add: power_increasing dval_ge [simplified])
  with assms(2) show False by linarith
qed

subsection \<open>Comparison\<close>

lemma dval_snoc_less:
  assumes "length xs = length ys" and "x < y"
  shows "dval (xs @ [x]) < dval (ys @ [y])"
proof -
  have "uint x + 1 \<le> uint y" using assms(2) by (simp add: word_less_def)
  then have "D_BASE ^ length xs * (uint x + 1) \<le> D_BASE ^ length xs * uint y" by (intro mult_left_mono) simp_all
  with dval_less [of xs] dval_nonneg [of ys]
  have "dval xs + D_BASE ^ length xs * uint x < dval ys + D_BASE ^ length xs * uint y" unfolding distrib_left by linarith
  then show ?thesis using assms(1) by (simp add: dval_append)
qed

lemma I_comp_down_val:
  "length xs = length ys \<Longrightarrow> I_comp_down xs ys = sgn (dval (rev xs) - dval (rev ys))"
proof (induction xs ys rule: I_comp_down.induct)
  case (1 x xs y ys)
  show ?case
  proof (cases x y rule: linorder_cases)
    case less
    with dval_snoc_less [of "rev xs" "rev ys" x y] 1(2) show ?thesis by (simp add: less_imp_neq)
  next
    case equal
    with 1 show ?thesis by (simp add: dval_append)
  next
    case greater
    with dval_snoc_less [of "rev ys" "rev xs" y x] 1(2) show ?thesis by (auto dest: less_imp_neq)
  qed
qed auto

lemma dval_length_less:
  assumes "normal y" and "x \<noteq> []" and "length x < length y"
  shows "dval x < dval y"
proof -
  from assms have "y \<noteq> []" "last y \<noteq> 0" by (auto simp: normal_def)
  from dval_ge [OF this] have "D_BASE ^ (length y - 1) \<le> dval y" .
  moreover have "D_BASE ^ length x \<le> D_BASE ^ (length y - 1)" using assms(3) by (intro power_increasing) simp_all
  ultimately show ?thesis using dval_less [of x] by linarith
qed

lemma I_comp_sgn:
  assumes "normal x" and "normal y"
  shows "I_comp x y = sgn (dval x - dval y)"
proof (cases "length x" "length y" rule: linorder_cases)
  case less
  with dval_length_less [OF assms(2), of x] assms(1) show ?thesis by (simp add: I_comp_def normal_def)
next
  case equal
  with I_comp_down_val [of "rev x" "rev y"] show ?thesis by (simp add: I_comp_def)
next
  case greater
  with dval_length_less [OF assms(1), of y] assms(2) show ?thesis by (simp add: I_comp_def normal_def)
qed

text \<open>Vectors of one length with the same value are equal.\<close>

lemma dval_inj: "length x = length y \<Longrightarrow> dval x = dval y \<Longrightarrow> x = y"
proof (induction x y rule: list_induct2')
  case (4 a x b y)
  have "uint a = uint b" using arg_cong [OF 4(3), of "\<lambda>v. v mod D_BASE"] u64_bounds [of a] u64_bounds [of b] by simp
  with 4 show ?case by (simp add: word_uint_eq_iff)
qed auto


lemma normal_inj:
  assumes "normal x" and "normal y" and "dval x = dval y"
  shows "x = y"
proof (rule dval_inj)
  have "I_comp x y = 0" using I_comp_sgn [OF assms(1,2)] assms(3) by simp
  then show "length x = length y" by (auto simp: I_comp_def split: if_splits)
qed (rule assms(3))

subsection \<open>Zero digits at the top\<close>

lemma strip_down_val: "dval (rev (strip_down ds)) = dval (rev ds)"
  by (induction ds rule: strip_down.induct) (auto simp: dval_append)

lemma strip_val [simp]: "dval (strip r) = dval r"
  using strip_down_val [of "rev r"] by (simp add: strip_def)

lemma strip_down_prefix: "\<exists>n. ds = replicate n 0 @ strip_down ds"
proof (induction ds rule: strip_down.induct)
  case (1 d e ds)
  show ?case
  proof (cases "d = 0")
    case True
    with 1 obtain n where "e # ds = replicate n 0 @ strip_down (e # ds)" by auto
    with True have "d # e # ds = replicate (Suc n) 0 @ strip_down (d # e # ds)" by simp
    then show ?thesis by blast
  qed (auto intro: exI [of _ 0])
qed (auto intro: exI [of _ 0])

lemma strip_prefix: "\<exists>n. r = strip r @ replicate n 0"
proof -
  from strip_down_prefix [of "rev r"] obtain n where "rev r = replicate n 0 @ strip_down (rev r)" by blast
  then have "rev (rev r) = rev (replicate n 0 @ strip_down (rev r))" by simp
  then show ?thesis by (auto simp: strip_def)
qed

lemma length_strip: "length (strip r) \<le> length r"
  using strip_prefix [of r] by (metis le_add1 length_append)

lemma strip_down_normal: "ds \<noteq> [] \<Longrightarrow> strip_down ds \<noteq> [] \<and> (hd (strip_down ds) \<noteq> 0 \<or> length (strip_down ds) = 1)"
  by (induction ds rule: strip_down.induct) auto

lemma strip_normal: "r \<noteq> [] \<Longrightarrow> normal (strip r)"
  using strip_down_normal [of "rev r"] by (auto simp: strip_def normal_def last_rev)

lemma strip_Nil [simp]: "strip r = [] \<longleftrightarrow> r = []"
  using strip_normal [of r] by (auto simp: normal_def strip_def)

lemma strip_id: "normal r \<Longrightarrow> strip r = r"
  by (rule normal_inj) (simp_all add: strip_normal normal_def [of r])


subsection \<open>Addition\<close>

lemma carry_digit: "uint (if (x + c :: u64) < c then 1 else 0 :: u64) * D_BASE = uint x + uint c - uint (x + c)"
  using u64_bounds [of x] u64_bounds [of c] by (auto simp: word_less_def uint_sum_wrap)

lemma D_add_val: "c = 0 \<or> c = 1 \<or> xs \<noteq> [] \<Longrightarrow> dval (D_add xs c) = dval xs + uint c"
proof (induction xs c rule: D_add.induct)
  case (2 x xs c)
  let ?c = "if x + c < c then 1 else 0 :: u64"
  have "dval (D_add xs ?c) = dval xs + uint ?c" using 2 by (simp add: Let_def)
  then show ?case using carry_digit [of x c] by (simp only: D_add.simps Let_def dval.simps distrib_left)
qed auto

lemma D_add_length: "length xs \<le> length (D_add xs c)" "length (D_add xs c) \<le> length xs + 1"
  by (induction xs c rule: D_add.induct) (auto simp: Let_def)

lemma D_add_last: "length (D_add xs c) = Suc (length xs) \<Longrightarrow> last (D_add xs c) = 1"
  by (induction xs c rule: D_add.induct) (auto simp: Let_def split: if_splits)

lemma I_add_loop_val:
  "length ys \<le> length xs \<Longrightarrow> c = 0 \<or> c = 1 \<Longrightarrow> dval (I_add_loop xs ys c) = dval xs + dval ys + uint c"
proof (induction xs ys c rule: I_add_loop.induct)
  case (1 x xs y ys c)
  obtain s c' where s: "DSUMc x y c = (s, c')" by fastforce
  note v = DSUMc_val [OF s]
  have "uint c \<le> 1" using 1(3) by auto
  with v u64_bounds [of x] u64_bounds [of y] have "c' = 0 \<or> c' = 1" by (intro carry_cases [of s]) linarith
  with 1 s have "dval (I_add_loop xs ys c') = dval xs + dval ys + uint c'" by simp
  with s v show ?case by (simp add: algebra_simps)
qed (auto simp: D_add_val)

lemma I_add_loop_length:
  "length ys \<le> length xs \<Longrightarrow> length xs \<le> length (I_add_loop xs ys c) \<and> length (I_add_loop xs ys c) \<le> length xs + 1"
  by (induction xs ys c rule: I_add_loop.induct) (auto simp: D_add_length [simplified] split: prod.splits)

lemma I_add_loop_last:
  "length ys \<le> length xs \<Longrightarrow> length (I_add_loop xs ys c) = Suc (length xs) \<Longrightarrow> last (I_add_loop xs ys c) = 1"
  by (induction xs ys c rule: I_add_loop.induct) (auto simp: D_add_last split: prod.splits if_splits)

text \<open>A vector whose highest digit counts is normal.\<close>

lemma normalI: "r \<noteq> [] \<Longrightarrow> D_BASE ^ (length r - 1) \<le> dval r \<Longrightarrow> normal r"
proof -
  assume r: "r \<noteq> []" "D_BASE ^ (length r - 1) \<le> dval r"
  have "last r \<noteq> 0"
  proof
    assume "last r = 0"
    with r(1) have "r = butlast r @ [0]" by (metis append_butlast_last_id)
    then have "dval r = dval (butlast r)" by (metis add_0_right dval.simps dval_append mult_zero_right uint_0_eq)
    with dval_less [of "butlast r"] r(2) show False by simp
  qed
  with r(1) show ?thesis by (simp add: normal_def)
qed

lemma normal_dval: "normal x \<Longrightarrow> length x = 1 \<or> D_BASE ^ (length x - 1) \<le> dval x"
  using dval_ge [of x] by (auto simp: normal_def)

lemma normal_mono:
  assumes "normal x" and "length r = length x" and "dval x \<le> dval r"
  shows "normal r"
proof (cases "length x = 1")
  case True
  with assms show ?thesis by (auto simp: normal_def)
next
  case False
  with normal_dval [OF assms(1)] assms show ?thesis by (intro normalI) (auto simp: normal_def)
qed

lemma normal_last_one: "r \<noteq> [] \<Longrightarrow> last r = 1 \<Longrightarrow> normal r"
  by (simp add: normal_def)

lemma D_add_ok:
  assumes "normal x"
  shows "dval (D_add x c) = dval x + uint c \<and> normal (D_add x c)"
proof -
  have v: "dval (D_add x c) = dval x + uint c" using assms by (intro D_add_val) (simp add: normal_def)
  consider "length (D_add x c) = length x" | "length (D_add x c) = Suc (length x)"
    using D_add_length [of x c] by linarith
  then have "normal (D_add x c)"
  proof cases
    case 1
    with v u64_bounds(1) [of c] show ?thesis by (intro normal_mono [OF assms]) simp_all
  next
    case 2
    with D_add_last [OF 2] show ?thesis by (intro normal_last_one) auto
  qed
  with v show ?thesis by simp
qed

lemma I_add_ok:
  assumes "normal x" and "y \<noteq> []" and "length y \<le> length x"
  shows "\<exists>r. I_add x y = Some r \<and> dval r = dval x + dval y \<and> normal r \<and> length r \<le> length x + 1"
proof -
  let ?r = "I_add_loop x y 0"
  have v: "dval ?r = dval x + dval y" using I_add_loop_val [OF assms(3)] by simp
  note l = I_add_loop_length [OF assms(3), of 0]
  consider "length ?r = length x" | "length ?r = Suc (length x)" using l by linarith
  then have "normal ?r"
  proof cases
    case 1
    with v show ?thesis by (intro normal_mono [OF assms(1)]) simp_all
  next
    case 2
    with I_add_loop_last [OF assms(3) 2] show ?thesis by (intro normal_last_one) auto
  qed
  with v l assms show ?thesis by (simp add: I_add_def)
qed


subsection \<open>Subtraction\<close>

lemma borrow_digit: "uint (if x < (x - c :: u64) then 1 else 0 :: u64) * D_BASE = uint (x - c) - uint x + uint c"
  using u64_bounds [of x] u64_bounds [of c] by (auto simp: word_less_def uint_diff_wrap)

lemma D_sub_loop_val:
  "c = 0 \<or> c = 1 \<or> xs \<noteq> [] \<Longrightarrow> \<exists>b. (b = 0 \<or> b = 1) \<and> dval (D_sub_loop xs c) = dval xs - uint c + b * D_BASE ^ length xs"
proof (induction xs c rule: D_sub_loop.induct)
  case (2 x xs c)
  let ?c = "if x < x - c then 1 else 0 :: u64"
  have "?c = 0 \<or> ?c = 1 \<or> xs \<noteq> []" by simp
  with 2(1) [OF refl] obtain b where b: "b = 0 \<or> b = 1" "dval (D_sub_loop xs ?c) = dval xs - uint ?c + b * D_BASE ^ length xs"
    by auto
  have "dval (D_sub_loop (x # xs) c) = dval (x # xs) - uint c + b * D_BASE ^ length (x # xs)"
    using b(2) borrow_digit [of x c] by (simp only: D_sub_loop.simps Let_def dval.simps distrib_left right_diff_distrib length_Cons power_Suc)
  with b(1) show ?case by blast
qed auto

lemma length_D_sub_loop [simp]: "length (D_sub_loop xs c) = length xs"
  by (induction xs c rule: D_sub_loop.induct) (auto simp: Let_def)

lemma I_sub_loop_Cons: "I_sub_loop (x # xs) (y # ys) c = (let (d, c) = DSUBb x y c in d # I_sub_loop xs ys c)"
  by (simp add: DSUBb_def Let_def)

lemma I_sub_loop_val:
  "length ys \<le> length xs \<Longrightarrow> c = 0 \<or> c = 1 \<Longrightarrow>
   \<exists>b. (b = 0 \<or> b = 1) \<and> dval (I_sub_loop xs ys c) = dval xs - dval ys - uint c + b * D_BASE ^ length xs"
proof (induction xs arbitrary: ys c)
  case (Cons x xs)
  show ?case
  proof (cases ys)
    case Nil
    with Cons.prems(2) D_sub_loop_val [of c "x # xs"] show ?thesis by simp
  next
    case (Cons y ys')
    obtain d c' where d: "DSUBb x y c = (d, c')" by fastforce
    note v = DSUBb_val [OF d Cons.prems(2)]
    obtain b where b: "b = 0 \<or> b = 1" "dval (I_sub_loop xs ys' c') = dval xs - dval ys' - uint c' + b * D_BASE ^ length xs"
      using Cons.IH [of ys' c'] Cons.prems(1) Cons v by auto
    with v have "dval (I_sub_loop (x # xs) ys c) = dval (x # xs) - dval ys - uint c + b * D_BASE ^ length (x # xs)"
      unfolding Cons I_sub_loop_Cons d by (simp add: algebra_simps)
    with b(1) show ?thesis by blast
  qed
qed auto

lemma length_I_sub_loop: "length ys \<le> length xs \<Longrightarrow> length (I_sub_loop xs ys c) = length xs"
  by (induction xs ys c rule: I_sub_loop.induct) (auto simp: Let_def)

text \<open>A difference that is not negative has no borrow.\<close>

lemma no_borrow:
  assumes "r = m + b * D_BASE ^ n" and "b = 0 \<or> b = 1" and "0 \<le> m" and "r < D_BASE ^ n"
  shows "r = m"
  using assms by auto

lemma I_sub_ok:
  assumes "y \<noteq> []" and "length y \<le> length x" and "dval y \<le> dval x"
  shows "\<exists>r. I_sub x y = Some r \<and> dval r = dval x - dval y \<and> normal r \<and> length r \<le> length x"
proof -
  let ?r = "I_sub_loop x y 0"
  note l = length_I_sub_loop [OF assms(2), of 0]
  obtain b where b: "b = 0 \<or> b = 1" "dval ?r = dval x - dval y + b * D_BASE ^ length x"
    using I_sub_loop_val [OF assms(2), of 0] by auto
  have "dval ?r = dval x - dval y" using no_borrow [OF b(2,1)] assms(3) dval_less [of ?r] l by simp
  moreover have "?r \<noteq> []" using l assms(1,2) by auto
  ultimately show ?thesis using assms(1,2) l length_strip [of ?r] by (simp add: I_sub_def strip_normal)
qed

lemma D_sub_ok:
  assumes "x \<noteq> []" and "uint c \<le> dval x"
  shows "\<exists>r. D_sub x c = Some r \<and> dval r = dval x - uint c \<and> normal r \<and> length r \<le> length x"
proof -
  let ?r = "D_sub_loop x c"
  obtain b where b: "b = 0 \<or> b = 1" "dval ?r = dval x - uint c + b * D_BASE ^ length x"
    using D_sub_loop_val [of c x] assms(1) by auto
  have "dval ?r = dval x - uint c" using no_borrow [OF b(2,1)] assms(2) dval_less [of ?r] by simp
  moreover have "?r \<noteq> []" using assms(1) by (metis length_D_sub_loop length_0_conv)
  ultimately show ?thesis using assms(1) length_strip [of ?r] by (simp add: D_sub_def strip_normal)
qed


text \<open>The complement is the difference from zero digits.\<close>

lemma Z_sub_loop_zeros: "Z_sub_loop ys c = I_sub_loop (replicate (length ys) 0) ys c"
  by (induction ys c rule: Z_sub_loop.induct) (auto simp: Let_def)

lemma Z_sub_loop_val:
  assumes "0 < dval y"
  shows "dval (Z_sub_loop y 0) = D_BASE ^ length y - dval y" and "length (Z_sub_loop y 0) = length y"
proof -
  show l: "length (Z_sub_loop y 0) = length y" by (simp add: Z_sub_loop_zeros length_I_sub_loop)
  obtain b where "b = 0 \<or> b = 1" "dval (Z_sub_loop y 0) = - dval y + b * D_BASE ^ length y"
    using I_sub_loop_val [of y "replicate (length y) 0" 0] by (auto simp: Z_sub_loop_zeros)
  with assms dval_nonneg [of "Z_sub_loop y 0"] show "dval (Z_sub_loop y 0) = D_BASE ^ length y - dval y" by auto
qed

subsection \<open>Products with a digit\<close>

lemma D_mul_loop_val: "dval (D_mul_loop x d c) = uint d * dval x + uint c"
proof (induction x d c rule: D_mul_loop.induct)
  case (2 x xs d c)
  obtain p c' where p: "DMULc d x c = (p, c')" by fastforce
  with 2 DMULc_val [OF p] show ?case by (simp add: algebra_simps)
qed auto

lemma D_mul_loop_length:
  "length (D_mul_loop x d c) = length x \<or> length (D_mul_loop x d c) = Suc (length x) \<and> last (D_mul_loop x d c) \<noteq> 0"
  by (induction x d c rule: D_mul_loop.induct) (auto split: prod.splits)

lemma D_double_mul: "D_double x c = D_mul_loop x 2 c"
proof -
  have "DSUMc x x c = DMULc 2 x c" for x c
  proof -
    obtain s c1 p c2 where e: "DSUMc x x c = (s, c1)" "DMULc 2 x c = (p, c2)" by (metis surj_pair)
    with DSUMc_val [OF e(1)] DMULc_val [OF e(2)] have "uint s + D_BASE * uint c1 = uint p + D_BASE * uint c2" by simp
    from digit_pair_eqI [OF this] e show ?thesis by simp
  qed
  then show ?thesis by (induction x c rule: D_double.induct) (auto split: prod.splits)
qed

lemma D_mul_ok:
  assumes "normal x"
  shows "dval (D_mul x d) = uint d * dval x \<and> normal (D_mul x d) \<and> length (D_mul x d) \<le> length x + 1"
proof -
  consider "d = 0" | "d = 1" | "d \<noteq> 0" "d \<noteq> 1" by blast
  then show ?thesis
  proof cases
    case 1
    then show ?thesis by (simp add: D_mul_def normal_def)
  next
    case 2
    with assms show ?thesis by (simp add: D_mul_def)
  next
    case 3
    then have e: "D_mul x d = D_mul_loop x d 0" by (simp add: D_mul_def D_double_mul)
    have v: "dval (D_mul_loop x d 0) = uint d * dval x" by (simp add: D_mul_loop_val)
    have "1 * dval x \<le> uint d * dval x" using 3 by (intro mult_right_mono digit_pos) auto
    with v have "dval x \<le> dval (D_mul_loop x d 0)" by simp
    with D_mul_loop_length [of x d 0] have "normal (D_mul_loop x d 0)"
      using normal_mono [OF assms] by (fastforce simp: normal_def)
    with v e D_mul_loop_length [of x d 0] show ?thesis by auto
  qed
qed

lemma D_mulsub_loop_val:
  assumes "length y \<le> length x" and "b = 0 \<or> b = 1" and "D_mulsub_loop x d y c b = (r, c', b')"
  shows "dval r = dval (take (length y) x) - uint d * dval y - uint c - uint b + D_BASE ^ length y * (uint c' + uint b')
    \<and> length r = length y \<and> (b' = 0 \<or> b' = 1)"
  using assms
proof (induction y arbitrary: x c b r)
  case (Cons y ys)
  obtain x0 xs where x: "x = x0 # xs" using Cons.prems(1) by (cases x) auto
  obtain c0 c1 where m: "DMULc d y c = (c0, c1)" by fastforce
  obtain s b1 where sb: "DSUBb x0 c0 b = (s, b1)" by fastforce
  note v = DMULc_val [OF m] DSUBb_val [OF sb Cons.prems(2)]
  obtain ss where ss: "D_mulsub_loop xs d ys c1 b1 = (ss, c', b')" "r = s # ss"
    using Cons.prems(3) by (auto simp: x m sb split: prod.splits)
  from Cons.IH [of xs b1 c1 ss] Cons.prems(1) v(2) ss(1)
  have "dval ss = dval (take (length ys) xs) - uint d * dval ys - uint c1 - uint b1 + D_BASE ^ length ys * (uint c' + uint b')
    \<and> length ss = length ys \<and> (b' = 0 \<or> b' = 1)" by (simp add: x)
  with v show ?case by (simp add: x ss(2) algebra_simps)
qed auto

lemma D_mulsub_ok:
  assumes "y \<noteq> []" and "length x = length y \<or> length x = length y + 1"
  shows "\<exists>r k. D_mulsub x d y = Some (r, if k = 0 then length (strip r) else 0) \<and> length r = length x \<and> 0 \<le> k
    \<and> dval r = dval x - uint d * dval y + D_BASE ^ length x * k"
proof -
  obtain r c b where r: "D_mulsub_loop x d y 0 0 = (r, c, b)" by (metis surj_pair)
  from D_mulsub_loop_val [OF _ _ r] assms(2)
  have v: "dval r = dval (take (length y) x) - uint d * dval y + D_BASE ^ length y * (uint c + uint b)" "length r = length y" "b = 0 \<or> b = 1"
    by auto
  show ?thesis
  proof (cases "length x = length y")
    case True
    have "uint c + uint b = 0 \<longleftrightarrow> c = 0 \<and> b = 0"
      by (simp add: add_nonneg_eq_0_iff word_uint_eq_iff)
    with True r v assms show ?thesis by (intro exI [of _ r] exI [of _ "uint c + uint b"]) (auto simp: D_mulsub_def)
  next
    case False
    then have l: "length x = length y + 1" using assms(2) by simp
    obtain s b' where s: "DSUBb (last x) c b = (s, b')" by fastforce
    have "x = take (length y) x @ [last x]" using l by (metis append_butlast_last_id butlast_conv_take diff_add_inverse2 length_0_conv add_is_0 zero_neq_one)
    then have "dval x = dval (take (length y) x) + D_BASE ^ length y * uint (last x)"
      using l dval_append [of "take (length y) x" "[last x]"] by simp
    moreover have "uint s = uint (last x) - uint c - uint b + D_BASE * uint b'" using DSUBb_val [OF s v(3)] by linarith
    moreover have "dval (r @ [s]) = dval r + D_BASE ^ length y * uint s" by (simp add: dval_append v(2))
    ultimately have "dval (r @ [s]) = dval x - uint d * dval y + D_BASE ^ length x * uint b'"
      by (simp add: l v(1)) (simp add: algebra_simps)
    moreover have "uint b' = 0 \<longleftrightarrow> b' = 0" by (simp add: word_uint_eq_iff)
    ultimately show ?thesis
      using r s l v assms(1) by (intro exI [of _ "r @ [s]"] exI [of _ "uint b'"]) (auto simp: D_mulsub_def Let_def)
  qed
qed


subsection \<open>Division by a digit\<close>

text \<open>One step, with the digits below it divided already: \<open>P\<close> is the base to their number.\<close>

lemma div_join: "a * D_BASE + a0 = q0 * d + r1 \<Longrightarrow> low + P * r1 = q * d + r \<Longrightarrow> low + P * (a * D_BASE + a0) = (q + P * q0) * d + r" for P :: int
  by (simp add: algebra_simps)

lemma D_div_loop_val:
  assumes "d \<noteq> 0" and "d \<le> a1 \<or> xs \<noteq> []"
  shows "\<exists>qs r. D_div_loop xs a1 d q = Some (qs @ q, r) \<and> r < d
    \<and> dval (rev xs @ [a1]) = dval qs * uint d + uint r \<and> length qs = (if d > a1 then length xs else Suc (length xs))"
  using assms
proof (induction xs a1 d q rule: D_div_loop.induct)
  case (1 xs a1 d q)
  show ?case
  proof (cases "d > a1")
    case True
    with 1(3) obtain a0 ys where xs: "xs = a0 # ys" by (cases xs) auto
    obtain q0 r1 where st: "div_step a1 a0 d = (q0, r1)" by fastforce
    note v = div_step_val [OF True st]
    show ?thesis
    proof (cases "ys = []")
      case True
      with \<open>d > a1\<close> xs st 1(2) v show ?thesis by (subst D_div_loop.simps) (simp add: algebra_simps)
    next
      case False
      from 1(1) [OF 1(2) _ refl refl refl st [symmetric] False 1(2)] \<open>d > a1\<close> xs False obtain qs r where
        qs: "D_div_loop ys r1 d (q0 # q) = Some (qs @ q0 # q, r)" "r < d" "dval (rev ys @ [r1]) = dval qs * uint d + uint r"
          "length qs = length ys"
        using v by fastforce
      have "dval (rev xs @ [a1]) = dval (rev ys) + D_BASE ^ length ys * (uint a1 * D_BASE + uint a0)"
        by (simp add: xs dval_append algebra_simps)
      also have "\<dots> = (dval qs + D_BASE ^ length ys * uint q0) * uint d + uint r"
        by (rule div_join [of _ _ _ _ "uint r1"]) (use v qs in \<open>simp_all add: dval_append algebra_simps\<close>)
      also have "dval qs + D_BASE ^ length ys * uint q0 = dval (qs @ [q0])" by (simp add: dval_append qs(4))
      finally have "dval (rev xs @ [a1]) = dval (qs @ [q0]) * uint d + uint r" .
      moreover have "D_div_loop xs a1 d q = Some ((qs @ [q0]) @ q, r)"
        using \<open>d > a1\<close> xs st 1(2) False qs(1) by (subst D_div_loop.simps) simp
      ultimately show ?thesis using qs \<open>d > a1\<close> xs by (intro exI [of _ "qs @ [q0]"] exI [of _ r]) simp
    qed
  next
    case False
    obtain q0 r1 where st: "div_step 0 a1 d = (q0, r1)" by fastforce
    have "0 < d" using 1(2) by (simp add: word_gt_0)
    note v = div_step_val [OF this st]
    show ?thesis
    proof (cases "xs = []")
      case True
      with False st 1(2) v show ?thesis by (subst D_div_loop.simps) simp
    next
      case ne: False
      from 1(1) [OF 1(2) _ refl refl refl st [symmetric] ne 1(2)] False ne obtain qs r where
        qs: "D_div_loop xs r1 d (q0 # q) = Some (qs @ q0 # q, r)" "r < d" "dval (rev xs @ [r1]) = dval qs * uint d + uint r"
          "length qs = length xs"
        using v by fastforce
      have "dval (rev xs @ [a1]) = dval (rev xs) + D_BASE ^ length xs * (0 * D_BASE + uint a1)"
        by (simp add: dval_append)
      also have "\<dots> = (dval qs + D_BASE ^ length xs * uint q0) * uint d + uint r"
        by (rule div_join [of _ _ _ _ "uint r1"]) (use v qs in \<open>simp_all add: dval_append algebra_simps\<close>)
      also have "dval qs + D_BASE ^ length xs * uint q0 = dval (qs @ [q0])" by (simp add: dval_append qs(4))
      finally have "dval (rev xs @ [a1]) = dval (qs @ [q0]) * uint d + uint r" .
      moreover have "D_div_loop xs a1 d q = Some ((qs @ [q0]) @ q, r)"
        using False st 1(2) ne qs(1) by (subst D_div_loop.simps) simp
      ultimately show ?thesis using qs False by (intro exI [of _ "qs @ [q0]"] exI [of _ r]) simp
    qed
  qed
qed

text \<open>The highest digit of a quotient is not zero.\<close>

lemma quotient_normal:
  assumes "dval x = dval q * uint d + uint r" and "r < d" and "q \<noteq> []" and "uint d * D_BASE ^ (length q - 1) \<le> dval x"
  shows "normal q"
proof (rule normalI [OF assms(3)])
  have "uint r < uint d" using assms(2) by (simp add: word_less_def)
  with assms(1,4) have "uint d * D_BASE ^ (length q - 1) < uint d * (dval q + 1)" by (simp add: algebra_simps)
  then have "D_BASE ^ (length q - 1) < dval q + 1" by (rule mult_left_less_imp_less) simp
  then show "D_BASE ^ (length q - 1) \<le> dval q" by simp
qed

lemma D_div_ok:
  assumes "normal x" and "d \<noteq> 0"
  shows "\<exists>q r. D_div x d = Some (q, r) \<and> dval x = dval q * uint d + uint r \<and> r < d \<and> normal q \<and> length q \<le> length x"
proof -
  obtain a1 xs where x: "rev x = a1 # xs" using assms(1) by (cases "rev x") (auto simp: normal_def)
  then have x': "x = rev xs @ [a1]" by (metis rev.simps(2) rev_rev_ident)
  show ?thesis
  proof (cases "d > a1 \<and> xs = []")
    case True
    with x x' show ?thesis by (simp add: D_div_def normal_def)
  next
    case False
    then obtain qs r where qs: "D_div_loop xs a1 d [] = Some (qs, r)" "r < d" "dval x = dval qs * uint d + uint r"
        "length qs = (if d > a1 then length xs else Suc (length xs))"
      using D_div_loop_val [OF assms(2), of a1 xs "[]"] x' by (auto simp: not_less)
    have "normal qs"
    proof (rule quotient_normal [OF qs(3,2)])
      show "qs \<noteq> []" using qs(4) False by (auto split: if_splits)
      show "uint d * D_BASE ^ (length qs - 1) \<le> dval x"
      proof (cases "d > a1")
        case True
        with False assms(1) x' have "D_BASE ^ length xs \<le> dval x" "0 < length xs" using dval_ge [of x] by (auto simp: normal_def)
        moreover have "uint d * D_BASE ^ (length xs - 1) \<le> D_BASE * D_BASE ^ (length xs - 1)"
          using u64_bounds [of d] by (intro mult_right_mono) simp_all
        ultimately show ?thesis using True qs(4) by (simp flip: power_Suc)
      next
        case False
        then have "uint d * D_BASE ^ length xs \<le> uint a1 * D_BASE ^ length xs"
          by (intro mult_right_mono) (simp_all add: word_le_def not_less)
        then have "uint d * D_BASE ^ length xs \<le> dval (rev xs) + uint a1 * D_BASE ^ length xs"
          using dval_nonneg [of "rev xs"] by linarith
        with False qs(4) show ?thesis by (simp add: x' dval_append mult.commute)
      qed
    qed
    with qs x x' False show ?thesis by (auto simp: D_div_def)
  qed
qed

end
