(* ===== verification/Erts_Multiply.thy ===== *)
theory Erts_Multiply
  imports Erts_Vector
begin

text \<open>
  Multiplication of digit vectors in \<open>erts/emulator/beam/big.c\<close>: the school method, squaring and the
  recursive method of Karatsuba, which the emulator uses for all products of big numbers.
\<close>

section \<open>Definitions\<close>

subsection \<open>The school method\<close>

text \<open>A row of the product for the digits 1 and 2 and for all others: the digits stored over \<open>rt\<close> and both carries.\<close>

fun row_one :: "digits \<Rightarrow> digits \<Rightarrow> u64 \<Rightarrow> digits \<times> u64" where
  "row_one (y # ys) (r # rt) c = (let (p, c) = DSUMc y r c; (ps, c) = row_one ys rt c in (p # ps, c))"
| "row_one _ _ c = ([], c)"

fun row_two :: "digits \<Rightarrow> digits \<Rightarrow> u64 \<Rightarrow> u64 \<Rightarrow> digits \<times> u64 \<times> u64" where
  "row_two (y # ys) (r # rt) cp c =
     (let (p, cp) = DSUMc y y cp; (p, c) = DSUMc p r c; (ps, cp, c) = row_two ys rt cp c in (p # ps, cp, c))"
| "row_two _ _ cp c = ([], cp, c)"

fun row_any :: "u64 \<Rightarrow> digits \<Rightarrow> digits \<Rightarrow> u64 \<Rightarrow> u64 \<Rightarrow> digits \<times> u64 \<times> u64" where
  "row_any d (y # ys) (r # rt) cp c =
     (let (p, cp) = DMULc d y cp; (p, c) = DSUMc p r c; (ps, cp, c) = row_any d ys rt cp c in (p # ps, cp, c))"
| "row_any d _ _ cp c = ([], cp, c)"

text \<open>The row with its highest digit \<open>c + cp\<close>.\<close>

definition I_mul_row :: "u64 \<Rightarrow> digits \<Rightarrow> digits \<Rightarrow> digits" where
  "I_mul_row d y rt =
     (if d = 0 then rt @ [0]
      else if d = 1 then let (ps, c) = row_one y rt 0 in ps @ [c + 0]
      else if d = 2 then let (ps, cp, c) = row_two y rt 0 0 in ps @ [c + cp]
      else let (ps, cp, c) = row_any d y rt 0 0 in ps @ [c + cp])"

text \<open>The rows; \<open>rt\<close> are the digits of the result under the current row, as many as \<open>y\<close> has.\<close>

fun I_mul_rows :: "digits \<Rightarrow> digits \<Rightarrow> digits \<Rightarrow> digits" where
  "I_mul_rows [] y rt = rt"
| "I_mul_rows (d # xs) y rt = (let r = I_mul_row d y rt in hd r # I_mul_rows xs y (tl r))"

definition drop_top_zero :: "digits \<Rightarrow> digits" where
  "drop_top_zero r = (if last r = 0 then butlast r else r)"

definition I_mul :: "digits \<Rightarrow> digits \<Rightarrow> digits option" where
  "I_mul x y =
     (if x = [] \<or> length x < length y then None
      else Some (drop_top_zero (I_mul_rows x y (replicate (length y) 0))))"

subsection \<open>Squaring\<close>

text \<open>
  A row of the square: the digits of \<open>x\<close> above \<open>d\<close>, the digits under the row, the four carries and the
  digit \<open>z1\<close> that is left from the position below.
\<close>

fun sqr_loop :: "u64 \<Rightarrow> digits \<Rightarrow> digits \<Rightarrow> u64 \<Rightarrow> u64 \<Rightarrow> u64 \<Rightarrow> u64 \<Rightarrow> u64 \<Rightarrow> digits" where
  "sqr_loop d (y # ys) (s # ss) y0 y1 y2 y3 z1 =
     (let (b0, b1) = DMUL d y;
          (z0, y0) = DSUMc b0 b0 y0;
          (z2, y2) = DSUMc z0 z1 y2;
          (t, y3) = DSUMc s z2 y3;
          (z1, y1) = DSUMc b1 b1 y1
      in t # sqr_loop d ys ss y0 y1 y2 y3 z1)"
| "sqr_loop d [] (s # ss) y0 y1 y2 y3 z1 =
     (let (z2, y2) = DSUMc y0 z1 y2; (t, y3) = DSUMc s z2 y3 in [t, y1 + y2 + y3])"
| "sqr_loop d ys [] y0 y1 y2 y3 z1 = []"

definition sqr_row :: "u64 \<Rightarrow> digits \<Rightarrow> digits \<Rightarrow> digits" where
  "sqr_row d ys w =
     (if d = 0 then w @ [0]
      else let (b0, b1) = DMUL d d; (t, y3) = DSUMc (hd w) b0 0 in t # sqr_loop d ys (tl w) 0 0 0 y3 b1)"

text \<open>The rows; in the last one, the highest digit is not stored.\<close>

fun sqr_rows :: "digits \<Rightarrow> digits \<Rightarrow> digits" where
  "sqr_rows [] w = w"
| "sqr_rows (d # xs) w =
     (let r = sqr_row d xs w in
      if xs = [] then take 2 r else take 2 r @ sqr_rows xs (drop 2 r))"

definition I_sqr :: "digits \<Rightarrow> digits option" where
  "I_sqr x = (if x = [] then None else Some (drop_top_zero (sqr_rows x (replicate (length x + 1) 0))))"

subsection \<open>Karatsuba\<close>

text \<open>A result in a buffer of \<open>n\<close> digits.\<close>

definition fits :: "nat \<Rightarrow> digits \<Rightarrow> digits option" where
  "fits n r = (if length r \<le> n then Some r else None)"

text \<open>Addition with the longer operand first.\<close>

definition add_longer :: "digits \<Rightarrow> digits \<Rightarrow> digits option" where
  "add_longer x y = (if length x \<ge> length y then I_add x y else I_add y x)"

text \<open>The absolute difference and whether it was negative.\<close>

definition sub_larger :: "digits \<Rightarrow> digits \<Rightarrow> (digits \<times> bool) option" where
  "sub_larger x y =
     (if I_comp x y \<ge> 0 then map_option (\<lambda>r. (r, False)) (I_sub x y) else map_option (\<lambda>r. (r, True)) (I_sub y x))"

text \<open>The second difference: that of \<open>x\<close> when \<open>x\<close> and \<open>y\<close> are the same vector, and \<open>low_y\<close> when \<open>high_y\<close> is zero.\<close>

definition kara_diff1 :: "bool \<Rightarrow> bool \<Rightarrow> digits \<Rightarrow> digits \<Rightarrow> digits \<Rightarrow> bool \<Rightarrow> (digits \<times> bool) option" where
  "kara_diff1 same zero_y low_y high_y diff0 neg =
     (if same then Some (diff0, True)
      else if I_comp high_y low_y \<ge> 0 then map_option (\<lambda>r. (r, neg)) (I_sub high_y low_y)
      else if \<not> zero_y then map_option (\<lambda>r. (r, \<not> neg)) (I_sub low_y high_y)
      else Some (low_y, \<not> neg))"

text \<open>The combination of the products \<open>z0\<close>, \<open>z2\<close> and \<open>tmp\<close> in the result buffer of \<open>n\<close> digits.\<close>

definition kara_combine :: "nat \<Rightarrow> nat \<Rightarrow> digits \<Rightarrow> digits \<Rightarrow> digits \<Rightarrow> bool \<Rightarrow> digits option" where
  "kara_combine n m z0 z2 tmp neg = do {
     z1 \<leftarrow> add_longer (strip z0) (strip z2);
     z1 \<leftarrow> fits (2 * m + 1) z1;
     z1 \<leftarrow> (if neg then I_sub z1 (strip tmp) else add_longer z1 (strip tmp));
     z1 \<leftarrow> fits (2 * m + 1) z1;
     let z0_buf = z0 @ replicate (2 * m - length z0) 0;
     res \<leftarrow> add_longer (drop m z0_buf @ strip z2) z1;
     res \<leftarrow> fits (n - m) res;
     Some (strip (take m z0_buf @ res)) }"

lemma I_sub_length: "I_sub x y = Some r \<Longrightarrow> length r \<le> length x"
  using length_strip [of "I_sub_loop x y 0"] length_I_sub_loop [of y x 0] by (auto simp: I_sub_def split: if_splits)

lemma sub_larger_length: "sub_larger x y = Some (r, b) \<Longrightarrow> length r \<le> max (length x) (length y)"
  by (auto simp: sub_larger_def split: if_splits dest: I_sub_length)

lemma kara_diff1_length:
  "kara_diff1 same zero_y low_y high_y diff0 neg = Some (r, b) \<Longrightarrow> length r \<le> max (max (length low_y) (length high_y)) (length diff0)"
  by (auto simp: kara_diff1_def split: if_splits dest: I_sub_length)

lemma kara_split_halves:
  assumes "\<not> length x < length y" and "\<not> length y < 16" and "m = (length x + 1) div 2"
  shows "length (strip (take m x)) \<le> m" "length (drop m x) \<le> m" "length (strip (if length y \<le> m then y else take m y)) \<le> m"
    "length (if length y \<le> m then [0] else drop m y) \<le> m" "m < length x"
proof -
  have m: "m < length x" "0 < m" "length x \<le> m + m" using assms by auto
  then show "m < length x" by simp
  show "length (strip (take m x)) \<le> m" using length_strip [of "take m x"] by simp
  show "length (drop m x) \<le> m" using m by simp
  show "length (strip (if length y \<le> m then y else take m y)) \<le> m"
    using length_strip [of y] length_strip [of "take m y"] by (cases "length y \<le> m") simp_all
  show "length (if length y \<le> m then [0] else drop m y) \<le> m"
    using m assms(1) by (cases "length y \<le> m") simp_all
qed

lemma kara_split_lengths:
  assumes "\<not> length x < length y" and "\<not> length y < 16" and "m = (length x + 1) div 2"
  shows "length (strip (take m x)) < length x" "length (drop m x) < length x"
    "length (strip (if length y \<le> m then y else take m y)) < length x" "length (if length y \<le> m then [0] else drop m y) < length x"
  by (rule le_less_trans [OF kara_split_halves(1) [OF assms] kara_split_halves(5) [OF assms]]
           le_less_trans [OF kara_split_halves(2) [OF assms] kara_split_halves(5) [OF assms]]
           le_less_trans [OF kara_split_halves(3) [OF assms] kara_split_halves(5) [OF assms]]
           le_less_trans [OF kara_split_halves(4) [OF assms] kara_split_halves(5) [OF assms]])+

lemma kara_measure: "length a < length x \<Longrightarrow> ((s :: bool, a, b :: digits), s', x :: digits, y :: digits) \<in> measure (\<lambda>(same, x, y). length x)"
  by simp

text \<open>
  The product of \<open>x\<close> and \<open>y\<close>, where \<open>same\<close> tells that they are one vector in memory.  The temporary
  buffers have the sizes the code allocates.
\<close>

function I_mul_karatsuba :: "bool \<Rightarrow> digits \<Rightarrow> digits \<Rightarrow> digits option" where
  "I_mul_karatsuba same x y =
     (if length x < length y then None
      else if length y < 16 then (if same \<and> length x > 1 then I_sqr x else I_mul x y)
      else
        let m = (length x + 1) div 2;
            low_x = strip (take m x); high_x = drop m x;
            zero_y = (length y \<le> m);
            low_y = strip (if zero_y then y else take m y); high_y = (if zero_y then [0] else drop m y)
        in do {
          z0 \<leftarrow> (if length low_x \<ge> length low_y then I_mul_karatsuba same low_x low_y else I_mul_karatsuba same low_y low_x);
          z0 \<leftarrow> fits (2 * m) z0;
          z2 \<leftarrow> (if zero_y then Some [0]
                else if length high_x \<ge> length high_y then I_mul_karatsuba same high_x high_y else I_mul_karatsuba same high_y high_x);
          (diff0, neg) \<leftarrow> sub_larger low_x high_x;
          (diff1, neg) \<leftarrow> kara_diff1 same zero_y low_y high_y diff0 neg;
          tmp \<leftarrow> (if length diff0 \<ge> length diff1 then I_mul_karatsuba same diff0 diff1 else I_mul_karatsuba same diff1 diff0);
          tmp \<leftarrow> fits (2 * m) tmp;
          kara_combine (length x + length y) m z0 z2 tmp neg })"
  by pat_completeness auto
termination
proof (relation "measure (\<lambda>(same, x, y). length x)", goal_cases)
  case 1
  show ?case by simp
next
  case (2 same x y m low_x)
  show ?case unfolding 2(4) by (rule kara_measure) (rule kara_split_lengths [OF 2(1-3)])
next
  case (3 same x y m low_x high_x zero_y low_y)
  show ?case unfolding 3(7) 3(6) by (rule kara_measure) (rule kara_split_lengths [OF 3(1-3)])
next
  case (4 same x y m low_x high_x)
  show ?case unfolding 4(5) by (rule kara_measure) (rule kara_split_lengths [OF 4(1-3)])
next
  case (5 same x y m low_x high_x zero_y low_y high_y)
  show ?case unfolding 5(8) 5(6) by (rule kara_measure) (rule kara_split_lengths [OF 5(1-3)])
next
  case (6 same x y m low_x high_x zero_y low_y high_y z0 z0' z2 p1 diff0 neg p2 diff1 neg')
  have "length diff0 \<le> max (length low_x) (length high_x)" using 6(12,13) by (intro sub_larger_length [of _ _ _ neg]) simp
  with kara_split_lengths(1,2) [OF 6(1-3)] have "length diff0 < length x" unfolding 6(4,5) by linarith
  then show ?case by (rule kara_measure)
next
  case (7 same x y m low_x high_x zero_y low_y high_y z0 z0' z2 p1 diff0 neg p2 diff1 neg')
  have "length diff0 \<le> max (length low_x) (length high_x)" using 7(12,13) by (intro sub_larger_length [of _ _ _ neg]) simp
  moreover have "length diff1 \<le> max (max (length low_y) (length high_y)) (length diff0)"
    using 7(14,15) by (intro kara_diff1_length [of same zero_y _ _ _ neg _ neg']) simp
  moreover have "length low_x < length x" "length high_x < length x" "length low_y < length x" "length high_y < length x"
    unfolding 7(4-8) by (rule kara_split_lengths [OF 7(1-3)])+
  ultimately have "length diff1 < length x" by linarith
  then show ?case by (rule kara_measure)
qed

declare I_mul_karatsuba.simps [simp del]


section \<open>The school method\<close>

lemma row_any_val:
  assumes "length rt = length y" and "row_any d y rt cp c = (ps, cp', c')"
  shows "dval ps + D_BASE ^ length y * (uint cp' + uint c') = dval rt + uint d * dval y + uint cp + uint c \<and> length ps = length y"
  using assms
proof (induction y arbitrary: rt cp c ps)
  case (Cons y ys)
  obtain r rt' where rt: "rt = r # rt'" using Cons.prems(1) by (cases rt) auto
  obtain p cp1 where m: "DMULc d y cp = (p, cp1)" by fastforce
  obtain q c1 where s: "DSUMc p r c = (q, c1)" by fastforce
  obtain qs where qs: "row_any d ys rt' cp1 c1 = (qs, cp', c')" "ps = q # qs"
    using Cons.prems(2) by (auto simp: rt m s split: prod.splits)
  from Cons.IH [OF _ qs(1)] Cons.prems(1) rt
  have "dval qs + D_BASE ^ length ys * (uint cp' + uint c') = dval rt' + uint d * dval ys + uint cp1 + uint c1" "length qs = length ys"
    by simp_all
  moreover note DMULc_val [OF m] DSUMc_val [OF s]
  ultimately show ?case unfolding qs(2) rt by (simp add: algebra_simps)
qed auto

text \<open>The rows for the digits 1 and 2 are the general ones.\<close>

lemma DMULc_1: "DMULc 1 y 0 = (y, 0)"
proof -
  obtain p c where p: "DMULc 1 y 0 = (p, c)" by fastforce
  then have "uint p + D_BASE * uint c = uint y + D_BASE * uint (0 :: u64)" using DMULc_val [OF p] by simp
  from digit_pair_eqI [OF this] p show ?thesis by simp
qed

lemma DMULc_2: "DMULc 2 y c = DSUMc y y c"
proof -
  obtain p c1 s c2 where e: "DMULc 2 y c = (p, c1)" "DSUMc y y c = (s, c2)" by (metis surj_pair)
  then have "uint p + D_BASE * uint c1 = uint s + D_BASE * uint c2" using DMULc_val [OF e(1)] DSUMc_val [OF e(2)] by simp
  from digit_pair_eqI [OF this] e show ?thesis by simp
qed

lemma row_one_any: "row_any 1 y rt 0 c = (case row_one y rt c of (ps, c) \<Rightarrow> (ps, 0, c))"
  by (induction y rt c rule: row_one.induct) (auto simp: DMULc_1 split: prod.splits)

lemma row_two_any: "row_any 2 y rt cp c = row_two y rt cp c"
  by (induction y rt cp c rule: row_two.induct) (auto simp: DMULc_2 split: prod.splits)

lemma I_mul_row_any:
  assumes "d \<noteq> 0"
  shows "I_mul_row d y rt = (let (ps, cp, c) = row_any d y rt 0 0 in ps @ [c + cp])"
  using assms row_one_any [of y rt 0] row_two_any [of y rt 0 0] by (auto simp: I_mul_row_def split: prod.splits)

lemma row_bound: "length rt = length y \<Longrightarrow> dval rt + uint (d :: u64) * dval y < D_BASE ^ Suc (length y)"
proof -
  assume l: "length rt = length y"
  have "dval y + 1 \<le> D_BASE ^ length y" "dval rt + 1 \<le> D_BASE ^ length y" using dval_less [of y] dval_less [of rt] l by simp_all
  moreover have "uint d * dval y \<le> (D_BASE - 1) * dval y" using u64_bounds [of d] by (intro mult_right_mono) simp_all
  ultimately show ?thesis by simp
qed

lemma I_mul_row_val:
  assumes "length rt = length y"
  shows "dval (I_mul_row d y rt) = dval rt + uint d * dval y" "length (I_mul_row d y rt) = Suc (length y)"
proof -
  have "dval (I_mul_row d y rt) = dval rt + uint d * dval y \<and> length (I_mul_row d y rt) = Suc (length y)"
  proof (cases "d = 0")
    case True
    with assms show ?thesis by (simp add: I_mul_row_def dval_append)
  next
    case False
    obtain ps cp c where r: "row_any d y rt 0 0 = (ps, cp, c)" by (metis surj_pair)
    from row_any_val [OF assms r] have v: "dval ps + D_BASE ^ length y * (uint cp + uint c) = dval rt + uint d * dval y" "length ps = length y" by simp_all
    have "D_BASE ^ length y * (uint cp + uint c) < D_BASE ^ Suc (length y)"
      using v(1) row_bound [OF assms, of d] dval_nonneg [of ps] by linarith
    then have "D_BASE ^ length y * (uint cp + uint c) < D_BASE ^ length y * D_BASE" by (simp only: power_Suc2)
    then have "uint c + uint cp < D_BASE" by (simp add: add.commute)
    then have "uint (c + cp) = uint c + uint cp" by (intro uint_plus_small) simp
    with False r v show ?thesis by (simp add: I_mul_row_any dval_append algebra_simps)
  qed
  then show "dval (I_mul_row d y rt) = dval rt + uint d * dval y" "length (I_mul_row d y rt) = Suc (length y)" by simp_all
qed

lemma dval_hd_tl: "r \<noteq> [] \<Longrightarrow> dval r = uint (hd r) + D_BASE * dval (tl r)"
  by (cases r) auto

lemma I_mul_rows_val:
  "length rt = length y \<Longrightarrow> dval (I_mul_rows x y rt) = dval rt + dval x * dval y \<and> length (I_mul_rows x y rt) = length x + length y"
proof (induction x arbitrary: rt)
  case (Cons d xs)
  let ?r = "I_mul_row d y rt"
  note r = I_mul_row_val [OF Cons.prems, of d]
  from r(2) have "?r \<noteq> []" by auto
  with Cons.IH [of "tl ?r"] r dval_hd_tl [of ?r] show ?case by (simp add: Let_def algebra_simps)
qed simp

lemma drop_top_zero_val: "r \<noteq> [] \<Longrightarrow> dval (drop_top_zero r) = dval r"
  by (cases r rule: rev_cases) (auto simp: drop_top_zero_def dval_append)

lemma length_drop_top_zero: "length (drop_top_zero r) \<le> length r" "length r - 1 \<le> length (drop_top_zero r)"
  by (auto simp: drop_top_zero_def)

text \<open>A product has at most one zero digit at its top.\<close>

lemma product_normal:
  assumes "normal x" and "normal y" and "0 < dval x" and "0 < dval y"
    and "dval r = dval x * dval y" and "length r = length x + length y"
  shows "normal (drop_top_zero r)"
proof (cases "last r = 0")
  case True
  have pos: "D_BASE ^ (length z - 1) \<le> dval z" if "normal z" "0 < dval z" for z
    using normal_dval [OF that(1)] that(2) by auto
  have ne: "x \<noteq> []" "y \<noteq> []" "r \<noteq> []" using assms by (auto simp: normal_def)
  then have l: "0 < length x" "0 < length y" by simp_all
  then have "length r - 1 - 1 = (length x - 1) + (length y - 1)" using assms(6) by linarith
  moreover have "D_BASE ^ (length x - 1) * D_BASE ^ (length y - 1) \<le> dval x * dval y"
    by (intro mult_mono pos assms) simp_all
  ultimately have "D_BASE ^ (length (butlast r) - 1) \<le> dval (butlast r)"
    using drop_top_zero_val [OF ne(3)] True assms(5) by (simp add: drop_top_zero_def power_add)
  moreover have "length (butlast r) \<noteq> 0" using l assms(6) unfolding length_butlast by linarith
  then have "butlast r \<noteq> []" by fastforce
  ultimately show ?thesis unfolding drop_top_zero_def if_P [OF True] by (intro normalI)
next
  case False
  have "r \<noteq> []" using assms(1,6) by (auto simp: normal_def)
  with False show ?thesis by (simp add: drop_top_zero_def normal_def)
qed

lemma I_mul_ok:
  assumes "x \<noteq> []" and "y \<noteq> []" and "length y \<le> length x"
  shows "\<exists>r. I_mul x y = Some r \<and> dval r = dval x * dval y \<and> r \<noteq> [] \<and> length r \<le> length x + length y
    \<and> (normal x \<and> normal y \<and> 0 < dval x \<and> 0 < dval y \<longrightarrow> normal r)"
proof -
  let ?r = "I_mul_rows x y (replicate (length y) 0)"
  have r: "dval ?r = dval x * dval y" "length ?r = length x + length y" using I_mul_rows_val [of "replicate (length y) 0" y x] by simp_all
  with assms have "?r \<noteq> []" "1 < length ?r" by (cases x; cases y; auto)+
  with r assms length_drop_top_zero [of ?r] product_normal [of x y ?r] show ?thesis by (auto simp: I_mul_def drop_top_zero_val)
qed


section \<open>Squaring\<close>

text \<open>Carries of sums are 0 or 1.\<close>

lemma DSUMc_carry:
  assumes "DSUMc a b c = (s, c')" and "c = 0 \<or> c = 1"
  shows "c' = 0 \<or> c' = 1"
proof (rule carry_cases [of s])
  have "uint c \<le> 1" using assms(2) by auto
  then show "uint s + D_BASE * uint c' \<le> 2 * D_BASE - 1"
    using DSUMc_val [OF assms(1)] u64_bounds [of a] u64_bounds [of b] by linarith
qed

lemma sqr_loop_val:
  assumes "length ss = Suc (length ys)" and "y0 = 0 \<or> y0 = 1" and "y1 = 0 \<or> y1 = 1" and "y2 = 0 \<or> y2 = 1" and "y3 = 0 \<or> y3 = 1"
  shows "dval (sqr_loop d ys ss y0 y1 y2 y3 z1) =
      dval ss + 2 * uint d * dval ys + uint y0 + uint z1 + uint y2 + uint y3 + D_BASE * uint y1
    \<and> length (sqr_loop d ys ss y0 y1 y2 y3 z1) = length ys + 2"
  using assms
proof (induction ys arbitrary: ss y0 y1 y2 y3 z1)
  case Nil
  then obtain s where ss: "ss = [s]" by (cases ss) auto
  obtain z2 y2' where a: "DSUMc y0 z1 y2 = (z2, y2')" by fastforce
  obtain t y3' where b: "DSUMc s z2 y3 = (t, y3')" by fastforce
  have "uint (y1 + y2' + y3') = uint y1 + uint y2' + uint y3'"
    using Nil(3) DSUMc_carry [OF a] DSUMc_carry [OF b] Nil(4,5) by auto
  with DSUMc_val [OF a] DSUMc_val [OF b] show ?case by (simp add: ss a b algebra_simps)
next
  case (Cons y ys)
  then obtain s ss' where ss: "ss = s # ss'" "length ss' = Suc (length ys)" by (cases ss) auto
  obtain b0 b1 where m: "DMUL d y = (b0, b1)" by fastforce
  obtain z0 y0' where a: "DSUMc b0 b0 y0 = (z0, y0')" by fastforce
  obtain z2 y2' where b: "DSUMc z0 z1 y2 = (z2, y2')" by fastforce
  obtain t y3' where c: "DSUMc s z2 y3 = (t, y3')" by fastforce
  obtain z1' y1' where e: "DSUMc b1 b1 y1 = (z1', y1')" by fastforce
  from Cons.IH [of ss' y0' y1' y2' y3' z1'] ss(2) DSUMc_carry [OF a] DSUMc_carry [OF b] DSUMc_carry [OF c] DSUMc_carry [OF e] Cons.prems
  have IH: "dval (sqr_loop d ys ss' y0' y1' y2' y3' z1') =
      dval ss' + 2 * uint d * dval ys + uint y0' + uint z1' + uint y2' + uint y3' + D_BASE * uint y1'"
    "length (sqr_loop d ys ss' y0' y1' y2' y3' z1') = length ys + 2" by simp_all
  have "2 * uint d * uint y = 2 * uint b0 + D_BASE * (2 * uint b1)" using DMUL_val [OF m] by simp
  with IH DSUMc_val [OF a] DSUMc_val [OF b] DSUMc_val [OF c] DSUMc_val [OF e] show ?case
    by (simp add: ss(1) m a b c e algebra_simps)
qed


lemma sqr_row_val:
  assumes "length w = length ys + 2"
  shows "dval (sqr_row d ys w) = dval w + uint d * (uint d + 2 * D_BASE * dval ys) \<and> length (sqr_row d ys w) = length ys + 3"
proof (cases "d = 0")
  case True
  with assms show ?thesis by (simp add: sqr_row_def dval_append)
next
  case False
  obtain b0 b1 where m: "DMUL d d = (b0, b1)" by fastforce
  obtain t y3 where a: "DSUMc (hd w) b0 0 = (t, y3)" by fastforce
  have "w \<noteq> []" using assms by auto
  moreover have "dval (sqr_loop d ys (tl w) 0 0 0 y3 b1) = dval (tl w) + 2 * uint d * dval ys + uint b1 + uint y3"
    "length (sqr_loop d ys (tl w) 0 0 0 y3 b1) = length ys + 2"
    using sqr_loop_val [of "tl w" ys 0 0 0 y3 d b1] DSUMc_carry [OF a] assms by simp_all
  ultimately show ?thesis
    using False DMUL_val [OF m] DSUMc_val [OF a] dval_hd_tl [of w] by (simp add: sqr_row_def m a algebra_simps)
qed

lemma dval_take_drop: "dval r = dval (take n r) + D_BASE ^ min n (length r) * dval (drop n r)"
  using dval_append [of "take n r" "drop n r"] by (simp add: min.commute)

lemma sqr_rows_val:
  "x \<noteq> [] \<Longrightarrow> length w = length x + 1 \<Longrightarrow> dval w + dval x * dval x < D_BASE ^ (2 * length x) \<Longrightarrow>
   dval (sqr_rows x w) = dval w + dval x * dval x \<and> length (sqr_rows x w) = 2 * length x"
proof (induction x arbitrary: w)
  case (Cons d xs)
  let ?r = "sqr_row d xs w"
  have r: "dval ?r = dval w + uint d * (uint d + 2 * D_BASE * dval xs)" "length ?r = length xs + 3"
    using sqr_row_val [of w xs d] Cons.prems(2) by simp_all
  have split: "dval ?r = dval (take 2 ?r) + D_BASE\<^sup>2 * dval (drop 2 ?r)"
    using dval_take_drop [of ?r 2] r(2) by simp
  have sq: "dval w + dval (d # xs) * dval (d # xs) = dval ?r + D_BASE\<^sup>2 * (dval xs * dval xs)"
    unfolding r(1) by (simp add: algebra_simps power2_eq_square)
  have "D_BASE ^ (2 * length (d # xs)) = D_BASE\<^sup>2 * D_BASE ^ (2 * length xs)" by (simp add: power2_eq_square)
  with Cons.prems(3) sq split have less: "D_BASE\<^sup>2 * (dval (drop 2 ?r) + dval xs * dval xs) < D_BASE\<^sup>2 * D_BASE ^ (2 * length xs)"
    using dval_nonneg [of "take 2 ?r"] unfolding distrib_left by linarith
  show ?case
  proof (cases "xs = []")
    case True
    have "D_BASE\<^sup>2 * dval (drop 2 ?r) < D_BASE\<^sup>2 * 1"
      using less True by simp
    then have "dval (drop 2 ?r) < 1" by (rule mult_left_less_imp_less) simp
    then have "dval (drop 2 ?r) = 0" using dval_nonneg [of "drop 2 ?r"] by linarith
    with True split sq r(2) show ?thesis by simp
  next
    case False
    have "dval (drop 2 ?r) + dval xs * dval xs < D_BASE ^ (2 * length xs)"
      using less by (rule mult_left_less_imp_less) simp
    from Cons.IH [OF False _ this] r(2)
    have "dval (sqr_rows xs (drop 2 ?r)) = dval (drop 2 ?r) + dval xs * dval xs" "length (sqr_rows xs (drop 2 ?r)) = 2 * length xs"
      by simp_all
    with False split sq r(2) show ?thesis by (simp add: dval_append distrib_left Let_def)
  qed
qed simp

lemma dval_square_less: "dval x * dval x < D_BASE ^ (2 * length x)"
proof -
  have "dval x * dval x < D_BASE ^ length x * D_BASE ^ length x"
    by (intro mult_strict_mono' dval_less dval_nonneg)
  then show ?thesis by (simp add: mult_2 power_add)
qed

lemma I_sqr_ok:
  assumes "x \<noteq> []"
  shows "\<exists>r. I_sqr x = Some r \<and> dval r = dval x * dval x \<and> r \<noteq> [] \<and> length r \<le> length x + length x
    \<and> (normal x \<and> 0 < dval x \<longrightarrow> normal r)"
proof -
  let ?r = "sqr_rows x (replicate (length x + 1) 0)"
  have "dval (replicate (length x + 1) 0) = 0" by (rule dval_replicate_0)
  with sqr_rows_val [of x "replicate (length x + 1) 0"] assms dval_square_less [of x]
  have r: "dval ?r = dval x * dval x" "length ?r = 2 * length x" by (simp_all del: replicate_Suc replicate.simps)
  with assms have "?r \<noteq> []" "1 < length ?r" by (cases x; auto)+
  with r assms length_drop_top_zero [of ?r] product_normal [of x x ?r] show ?thesis by (auto simp: I_sqr_def drop_top_zero_val)
qed


section \<open>Karatsuba\<close>

lemma I_add_val:
  assumes "y \<noteq> []" and "length y \<le> length x"
  shows "\<exists>r. I_add x y = Some r \<and> dval r = dval x + dval y \<and> length x \<le> length r
    \<and> (length r = length x \<or> length r = Suc (length x) \<and> last r = 1)"
  using I_add_loop_val [OF assms(2), of 0] I_add_loop_length [OF assms(2), of 0] I_add_loop_last [OF assms(2), of 0] assms
  by (auto simp: I_add_def)

lemma add_longer_val:
  assumes "x \<noteq> []" and "y \<noteq> []"
  shows "\<exists>r. add_longer x y = Some r \<and> dval r = dval x + dval y \<and> r \<noteq> []
    \<and> (length r = max (length x) (length y) \<or> length r = Suc (max (length x) (length y)) \<and> last r = 1)"
proof (cases "length x \<ge> length y")
  case True
  with I_add_val [OF assms(2) True] assms show ?thesis by (force simp: add_longer_def max_def)
next
  case False
  then have "length x \<le> length y" by simp
  from I_add_val [OF assms(1) this] False assms show ?thesis by (force simp: add_longer_def max_def)
qed

lemma add_longer_ok:
  assumes "normal x" and "normal y"
  shows "\<exists>r. add_longer x y = Some r \<and> dval r = dval x + dval y \<and> normal r \<and> length r \<le> Suc (max (length x) (length y))"
proof (cases "length x \<ge> length y")
  case True
  with I_add_ok [OF assms(1) _ True] assms(2) show ?thesis by (force simp: add_longer_def normal_def)
next
  case False
  then have "length x \<le> length y" by simp
  from I_add_ok [OF assms(2) _ this] False assms(1) show ?thesis by (force simp: add_longer_def normal_def add.commute)
qed

lemma normal_le_length: "normal x \<Longrightarrow> normal y \<Longrightarrow> dval y \<le> dval x \<Longrightarrow> length y \<le> length x"
  using dval_length_less [of y x] by (auto simp: normal_def not_le [symmetric])

lemma I_comp_ge: "normal x \<Longrightarrow> normal y \<Longrightarrow> I_comp x y \<ge> 0 \<longleftrightarrow> dval y \<le> dval x"
  by (auto simp: I_comp_sgn sgn_if)

lemma sign_mult: "neg \<longleftrightarrow> a < 0 \<Longrightarrow> (if neg then - (\<bar>a\<bar> * b) else \<bar>a\<bar> * b) = a * b" for a b :: int
  by auto

lemma sub_larger_ok:
  assumes "normal x" and "normal y"
  shows "\<exists>r. sub_larger x y = Some (r, dval x < dval y) \<and> dval r = \<bar>dval x - dval y\<bar> \<and> normal r"
proof (cases "dval y \<le> dval x")
  case True
  with I_sub_ok [OF _ normal_le_length [OF assms True] True] I_comp_ge [OF assms] assms(2) show ?thesis
    by (auto simp: sub_larger_def normal_def)
next
  case False
  then have "dval x \<le> dval y" by simp
  with False I_sub_ok [OF _ normal_le_length [OF assms(2,1) this] this] I_comp_ge [OF assms] assms(1) show ?thesis
    by (auto simp: sub_larger_def normal_def)
qed

text \<open>The sign and the second difference make the product of the differences.\<close>

lemma kara_diff1_ok:
  assumes "normal low_y" and "normal high_y" and "normal diff0" and "zero_y \<Longrightarrow> high_y = [0]"
    and diff0: "dval diff0 = \<bar>lx - hx\<bar>" "neg \<longleftrightarrow> lx < hx" and same: "same \<Longrightarrow> lx = dval low_y \<and> hx = dval high_y"
  shows "\<exists>r neg'. kara_diff1 same zero_y low_y high_y diff0 neg = Some (r, neg') \<and> normal r \<and> (same \<longrightarrow> r = diff0)
    \<and> (if neg' then - (dval diff0 * dval r) else dval diff0 * dval r) = (lx - hx) * (dval high_y - dval low_y)"
proof -
  consider "same" | "\<not> same" "dval low_y \<le> dval high_y" | "\<not> same" "dval high_y < dval low_y" by linarith
  then show ?thesis
  proof cases
    case 1
    then have "- (dval diff0 * dval diff0) = (lx - hx) * (dval high_y - dval low_y)"
      using diff0(1) same by (simp add: abs_mult_self_eq algebra_simps)
    with 1 assms(3) show ?thesis by (intro exI [of _ diff0] exI [of _ True]) (simp add: kara_diff1_def)
  next
    case 2
    then have "I_comp high_y low_y \<ge> 0" using I_comp_ge [OF assms(2,1)] by simp
    moreover obtain r where r: "I_sub high_y low_y = Some r" "dval r = dval high_y - dval low_y" "normal r"
      using I_sub_ok [OF _ normal_le_length [OF assms(2,1) 2(2)] 2(2)] assms(1) by (auto simp: normal_def)
    moreover have "(if neg then - (dval diff0 * dval r) else dval diff0 * dval r) = (lx - hx) * (dval high_y - dval low_y)"
      unfolding diff0(1) r(2) by (rule sign_mult) (simp add: diff0(2))
    ultimately show ?thesis using 2 by (intro exI [of _ r] exI [of _ neg]) (simp add: kara_diff1_def)
  next
    case 3
    then have c: "\<not> I_comp high_y low_y \<ge> 0" using I_comp_ge [OF assms(2,1)] by simp
    have "\<exists>r. (if \<not> zero_y then I_sub low_y high_y else Some low_y) = Some r \<and> dval r = dval low_y - dval high_y \<and> normal r"
      using I_sub_ok [OF _ normal_le_length [OF assms(1,2)]] 3 assms(1,2,4) by (auto simp: normal_def)
    then obtain r where r: "(if \<not> zero_y then I_sub low_y high_y else Some low_y) = Some r" "dval r = dval low_y - dval high_y" "normal r"
      by blast
    have "dval high_y - dval low_y = - dval r" using r(2) by simp
    moreover have "(if neg then - (dval diff0 * - dval r) else dval diff0 * - dval r) = (lx - hx) * - dval r"
      unfolding diff0(1) by (rule sign_mult) (simp add: diff0(2))
    ultimately have "(if \<not> neg then - (dval diff0 * dval r) else dval diff0 * dval r) = (lx - hx) * (dval high_y - dval low_y)"
      by (cases neg) simp_all
    with c 3 r show ?thesis by (intro exI [of _ r] exI [of _ "\<not> neg"]) (simp add: kara_diff1_def split: if_splits)
  qed
qed


lemma fits_Some [simp]: "length r \<le> n \<Longrightarrow> fits n r = Some r"
  by (simp add: fits_def)

lemma normal_not_Nil: "normal x \<Longrightarrow> x \<noteq> []"
  by (simp add: normal_def)

lemma length_bound_carry:
  assumes "length r = k \<or> length r = Suc k \<and> last r = 1" and "dval r < D_BASE ^ n" and "k \<le> n"
  shows "length r \<le> n"
  using assms(1)
proof
  assume r: "length r = Suc k \<and> last r = 1"
  then have "r \<noteq> []" "last r \<noteq> 0" by auto
  with dval_ge [of r] r have "D_BASE ^ k \<le> dval r" by simp
  then have "D_BASE ^ k < D_BASE ^ n" using assms(2) by linarith
  then have "k < n" by (rule power_less_imp_less_exp [rotated]) simp
  with r show ?thesis by simp
qed (use assms(3) in simp)

lemma kara_combine_ok:
  assumes ne: "z0 \<noteq> []" "z2 \<noteq> []" "tmp \<noteq> []" and len: "length z0 \<le> 2 * m" "length z2 \<le> 2 * m" "length (strip z2) + m \<le> n - m" "2 * m < n"
    and V: "V = dval z0 + dval z2 + (if neg then - dval tmp else dval tmp)" "0 \<le> V" "V < D_BASE ^ (2 * m + 1)"
    and T: "dval z0 + D_BASE ^ m * V + D_BASE ^ (2 * m) * dval z2 < D_BASE ^ n"
  shows "\<exists>r. kara_combine n m z0 z2 tmp neg = Some r
    \<and> dval r = dval z0 + D_BASE ^ m * V + D_BASE ^ (2 * m) * dval z2 \<and> normal r \<and> length r \<le> n"
proof -
  note nz = strip_normal [OF ne(1)] strip_normal [OF ne(2)] strip_normal [OF ne(3)]
  obtain z where z: "add_longer (strip z0) (strip z2) = Some z" "dval z = dval z0 + dval z2" "normal z"
      "length z \<le> Suc (max (length (strip z0)) (length (strip z2)))"
    using add_longer_ok [OF nz(1,2)] by auto
  then have lz: "length z \<le> 2 * m + 1" using length_strip [of z0] length_strip [of z2] len by auto
  have "\<exists>z1. (if neg then I_sub z (strip tmp) else add_longer z (strip tmp)) = Some z1 \<and> dval z1 = V \<and> normal z1"
  proof (cases neg)
    case True
    with V(1,2) z(2) have "dval (strip tmp) \<le> dval z" by simp
    from I_sub_ok [OF normal_not_Nil [OF nz(3)] normal_le_length [OF z(3) nz(3) this] this] True V(1) z(2) show ?thesis by auto
  next
    case False
    with add_longer_ok [OF z(3) nz(3)] V(1) z(2) show ?thesis by auto
  qed
  then obtain z1 where z1: "(if neg then I_sub z (strip tmp) else add_longer z (strip tmp)) = Some z1" "dval z1 = V" "normal z1" by blast
  have lz1: "length z1 \<le> 2 * m + 1" using z1 V(3) by (intro normal_length_le) simp_all
  define zb where "zb = z0 @ replicate (2 * m - length z0) 0"
  have zb: "length zb = 2 * m" "dval zb = dval z0" using len(1) by (simp_all add: zb_def dval_append)
  then have zb_split: "dval z0 = dval (take m zb) + D_BASE ^ m * dval (drop m zb)" "length (drop m zb) = m"
    using dval_take_drop [of zb m] by simp_all
  obtain res where res: "add_longer (drop m zb @ strip z2) z1 = Some res" "dval res = dval (drop m zb @ strip z2) + V" "res \<noteq> []"
      "length res = max (length (drop m zb @ strip z2)) (length z1) \<or> length res = Suc (max (length (drop m zb @ strip z2)) (length z1)) \<and> last res = 1"
    using add_longer_val [of "drop m zb @ strip z2" z1] normal_not_Nil [OF z1(3)] normal_not_Nil [OF nz(2)] z1(2) by auto
  have pow: "D_BASE ^ (2 * m) = D_BASE ^ m * D_BASE ^ m" "D_BASE ^ n = D_BASE ^ m * D_BASE ^ (n - m)"
    using len(4) by (simp_all add: mult_2 flip: power_add)
  have total: "dval (take m zb @ res) = dval z0 + D_BASE ^ m * V + D_BASE ^ (2 * m) * dval z2"
    using zb_split zb(1) res(2) pow(1) by (simp add: dval_append algebra_simps)
  then have "dval (take m zb) + D_BASE ^ m * dval res = dval z0 + D_BASE ^ m * V + D_BASE ^ (2 * m) * dval z2"
    using zb(1) by (simp add: dval_append)
  with T have "D_BASE ^ m * dval res < D_BASE ^ m * D_BASE ^ (n - m)"
    using dval_nonneg [of "take m zb"] unfolding pow(2) by linarith
  then have "dval res < D_BASE ^ (n - m)" by simp
  moreover have "length z1 \<le> n - m"
  proof (rule normal_length_le [OF z1(3)])
    have "0 \<le> D_BASE ^ (2 * m) * dval z2" by simp
    with T dval_nonneg [of z0] have "D_BASE ^ m * V < D_BASE ^ m * D_BASE ^ (n - m)" unfolding pow(2) by linarith
    then show "dval z1 < D_BASE ^ (n - m)" by (simp add: z1(2))
  qed (use len(4) in simp)
  ultimately have lres: "length res \<le> n - m"
    using length_bound_carry [OF res(4)] len(3) zb_split(2) by simp
  have "kara_combine n m z0 z2 tmp neg = Some (strip (take m zb @ res))"
    using z(1) lz z1(1) lz1 res(1) lres by (simp add: kara_combine_def zb_def [symmetric] Let_def)
  moreover have "normal (strip (take m zb @ res))" using res(3) by (intro strip_normal) simp
  moreover have "length (strip (take m zb @ res)) \<le> n"
    using length_strip [of "take m zb @ res"] lres zb(1) len(4) by simp
  ultimately show ?thesis using total by auto
qed


lemma dval_less_pow: "length x \<le> n \<Longrightarrow> dval x < D_BASE ^ n"
  by (rule order.strict_trans2 [OF dval_less power_increasing]) simp_all

text \<open>The halves of \<open>x\<close> and \<open>y\<close>.\<close>

lemma split_high:
  assumes "normal x" and "m < length x" and "0 < m"
  shows "normal (strip (take m x))" "normal (drop m x)" "dval x = dval (strip (take m x)) + D_BASE ^ m * dval (drop m x)"
proof -
  show "normal (drop m x)" using assms by (auto simp: normal_def)
  show "dval x = dval (strip (take m x)) + D_BASE ^ m * dval (drop m x)"
    using dval_take_drop [of x m] assms(2) by simp
  show "normal (strip (take m x))" using assms by (intro strip_normal) auto
qed

lemma I_mul_karatsuba_ok:
  "normal x \<Longrightarrow> normal y \<Longrightarrow> length y \<le> length x \<Longrightarrow> (same \<Longrightarrow> x = y) \<Longrightarrow>
   \<exists>r. I_mul_karatsuba same x y = Some r \<and> dval r = dval x * dval y \<and> r \<noteq> [] \<and> length r \<le> length x + length y
     \<and> (0 < dval x \<and> 0 < dval y \<longrightarrow> normal r)"
proof (induction "length x" arbitrary: same x y rule: less_induct)
  case less
  show ?case
  proof (cases "length y < 16")
    case True
    have ne: "x \<noteq> []" "y \<noteq> []" using less.prems by (simp_all add: normal_def)
    show ?thesis
    proof (cases "same \<and> length x > 1")
      case sq: True
      with less.prems(1,4) I_sqr_ok [OF ne(1)] True less.prems(3) show ?thesis by (subst I_mul_karatsuba.simps) auto
    next
      case False
      have "I_mul_karatsuba same x y = I_mul x y" using False True less.prems(3) by (subst I_mul_karatsuba.simps) auto
      with I_mul_ok [OF ne less.prems(3)] less.prems(1,2) show ?thesis by simp
    qed
  next
    case False
    define m where "m = (length x + 1) div 2"
    define zero_y where "zero_y = (length y \<le> m)"
    define low_x high_x where "low_x = strip (take m x)" and "high_x = drop m x"
    define low_y high_y where "low_y = strip (if zero_y then y else take m y)" and "high_y = (if zero_y then [0] else drop m y)"
    have m: "m < length x" "0 < m" "2 * m \<le> length x + 1" "length x \<le> 2 * m" using False less.prems(3) by (auto simp: m_def)
    have lens: "length low_x \<le> m" "length high_x \<le> m" "length low_y \<le> m" "length high_y \<le> m"
      using kara_split_halves [of x y m] False less.prems(3) by (simp_all add: m_def low_x_def high_x_def low_y_def high_y_def zero_y_def)
    have x: "normal low_x" "normal high_x" "dval x = dval low_x + D_BASE ^ m * dval high_x"
      unfolding low_x_def high_x_def using split_high [OF less.prems(1) m(1,2)] by simp_all
    have "normal low_y \<and> normal high_y \<and> dval y = dval low_y + D_BASE ^ m * dval high_y"
      using split_high [OF less.prems(2) _ m(2)] less.prems(2)
      by (cases zero_y) (auto simp: low_y_def high_y_def zero_y_def strip_id normal_def [of "[_]"])
    then have y: "normal low_y" "normal high_y" "dval y = dval low_y + D_BASE ^ m * dval high_y" by simp_all
    have same: "low_x = low_y" "high_x = high_y" if same
      using less.prems(4) [OF that] m(1) by (auto simp: low_x_def low_y_def high_x_def high_y_def zero_y_def)
    have call: "\<exists>r. (if length a \<ge> length b then I_mul_karatsuba same a b else I_mul_karatsuba same b a) = Some r
        \<and> dval r = dval a * dval b \<and> r \<noteq> [] \<and> length r \<le> length a + length b"
      if "normal a" "normal b" "length a \<le> m" "length b \<le> m" "same \<Longrightarrow> a = b" for a b
    proof (cases "length a \<ge> length b")
      case True
      from less.hyps [of a b same] that m(1) True show ?thesis by auto
    next
      case False
      from less.hyps [of b a same] that m(1) False show ?thesis by (auto simp: mult.commute)
    qed
    obtain z0 where z0: "(if length low_x \<ge> length low_y then I_mul_karatsuba same low_x low_y else I_mul_karatsuba same low_y low_x) = Some z0"
        "dval z0 = dval low_x * dval low_y" "z0 \<noteq> []" "length z0 \<le> 2 * m"
      using call [OF x(1) y(1) lens(1,3) same(1)] lens by fastforce
    have "\<exists>z2. (if zero_y then Some [0] else if length high_x \<ge> length high_y then I_mul_karatsuba same high_x high_y
          else I_mul_karatsuba same high_y high_x) = Some z2
        \<and> dval z2 = dval high_x * dval high_y \<and> z2 \<noteq> [] \<and> length z2 \<le> 2 * m \<and> length z2 + m \<le> length x + length y - m"
    proof (cases zero_y)
      case True
      then show ?thesis using m False by (simp add: high_y_def)
    next
      case nz: False
      then have "length high_x + length high_y + m = length x + length y - m"
        using m(1) by (simp add: high_x_def high_y_def zero_y_def)
      with call [OF x(2) y(2) lens(2,4) same(2)] lens nz show ?thesis by fastforce
    qed
    then obtain z2 where z2: "(if zero_y then Some [0] else if length high_x \<ge> length high_y then I_mul_karatsuba same high_x high_y
          else I_mul_karatsuba same high_y high_x) = Some z2"
        "dval z2 = dval high_x * dval high_y" "z2 \<noteq> []" "length z2 \<le> 2 * m" "length z2 + m \<le> length x + length y - m" by blast
    obtain d0 where d0: "sub_larger low_x high_x = Some (d0, dval low_x < dval high_x)" "dval d0 = \<bar>dval low_x - dval high_x\<bar>" "normal d0"
      using sub_larger_ok [OF x(1,2)] by blast
    obtain d1 neg where d1: "kara_diff1 same zero_y low_y high_y d0 (dval low_x < dval high_x) = Some (d1, neg)" "normal d1" "same \<longrightarrow> d1 = d0"
        "(if neg then - (dval d0 * dval d1) else dval d0 * dval d1) = (dval low_x - dval high_x) * (dval high_y - dval low_y)"
      using kara_diff1_ok [OF y(1,2) d0(3) _ d0(2) refl, of zero_y same] same by (auto simp: high_y_def)
    have ld: "length d0 \<le> m" "length d1 \<le> m"
      using sub_larger_length [OF d0(1)] kara_diff1_length [OF d1(1)] lens by linarith+
    obtain tmp where tmp: "(if length d0 \<ge> length d1 then I_mul_karatsuba same d0 d1 else I_mul_karatsuba same d1 d0) = Some tmp"
        "dval tmp = dval d0 * dval d1" "tmp \<noteq> []" "length tmp \<le> 2 * m"
      using call [OF d0(3) d1(2) ld] d1(3) ld by fastforce
    define V where "V = dval low_x * dval high_y + dval high_x * dval low_y"
    have V: "V = dval z0 + dval z2 + (if neg then - dval tmp else dval tmp)"
      using d1(4) by (simp add: V_def z0(2) z2(2) tmp(2) algebra_simps split: if_splits)
    have pow: "D_BASE ^ (2 * m) = D_BASE ^ m * D_BASE ^ m" by (simp add: mult_2 power_add)
    have "dval low_x * dval high_y < D_BASE ^ (2 * m)" "dval high_x * dval low_y < D_BASE ^ (2 * m)"
      unfolding pow by (intro mult_strict_mono' dval_less_pow lens dval_nonneg)+
    moreover have "D_BASE ^ (2 * m + 1) = D_BASE * D_BASE ^ (2 * m)" "0 < D_BASE ^ (2 * m)" by simp_all
    ultimately have Vb: "0 \<le> V" "V < D_BASE ^ (2 * m + 1)" unfolding V_def by (simp, linarith)
    have T: "dval z0 + D_BASE ^ m * V + D_BASE ^ (2 * m) * dval z2 = dval x * dval y"
      unfolding x(3) y(3) z0(2) z2(2) V_def pow by (simp add: algebra_simps)
    have less_T: "dval x * dval y < D_BASE ^ (length x + length y)"
      unfolding power_add by (intro mult_strict_mono' dval_less dval_nonneg)
    obtain r where r: "kara_combine (length x + length y) m z0 z2 tmp neg = Some r" "dval r = dval x * dval y" "normal r"
        "length r \<le> length x + length y"
      using kara_combine_ok [OF z0(3) z2(3) tmp(3) z0(4) z2(4) _ _ V Vb, of "length x + length y"] T less_T z2(5) length_strip [of z2] m False
      by fastforce
    have "I_mul_karatsuba same x y = Some r"
      using False less.prems(3) z0(1,4) z2(1) d0(1) d1(1) tmp(1,4) r(1)
      unfolding I_mul_karatsuba.simps [of same x y] Let_def m_def [symmetric] zero_y_def [symmetric] low_x_def [symmetric]
        high_x_def [symmetric] low_y_def [symmetric] high_y_def [symmetric] by simp
    with r normal_not_Nil show ?thesis by blast
  qed
qed

end
