(* ===== verification/Erts_Bignum.thy ===== *)
theory Erts_Bignum
  imports Erts_Multiply
begin

text \<open>
  Integer terms and their arithmetic in \<open>erts/emulator/beam/big.c\<close> (64-bit emulator): the creation of terms
  from machine integers and digit vectors, comparison, addition, subtraction, multiplication and the
  conversions back to machine integers.  A term is a small, a bignum (its sign and its digits), a float,
  the empty list, which the bignum functions return for a number that is too big, or something else.
  A function that stores digits at \<open>r\<close> has the number of digits there is room for as an argument.
\<close>

section \<open>Definitions\<close>

subsection \<open>Terms\<close>

datatype 'd eterm = Small int | Big bool digits | Float 'd | NIL | Other

abbreviation "SMALL_BITS \<equiv> 60 :: nat"
abbreviation "MAX_SMALL \<equiv> 576460752303423487 :: int"
abbreviation "MIN_SMALL \<equiv> - 576460752303423488 :: int"

definition BIG_ARITY_MAX :: nat where
  "BIG_ARITY_MAX = push_bit 16 1 - 1"

definition make_small :: "int \<Rightarrow> 'd eterm" where
  "make_small x = Small (signed_take_bit (SMALL_BITS - 1) x)"

definition IS_USMALL :: "bool \<Rightarrow> u64 \<Rightarrow> bool" where
  "IS_USMALL neg x = (if neg then x \<le> word_of_int (MAX_SMALL + 1) else x \<le> word_of_int MAX_SMALL)"

definition IS_SSMALL :: "int \<Rightarrow> bool" where
  "IS_SSMALL x \<longleftrightarrow> (word_of_int (drop_bit (SMALL_BITS - 1) x + 1) :: u64) < 2"

definition small_to_big :: "int \<Rightarrow> 'd eterm" where
  "small_to_big x = (if x \<ge> 0 then Big False [word_of_int x] else Big True [- word_of_int x])"

definition uint_to_big :: "u64 \<Rightarrow> 'd eterm" where
  "uint_to_big x = Big False [x]"

definition erts_make_integer :: "u64 \<Rightarrow> 'd eterm" where
  "erts_make_integer x = (if IS_USMALL False x then make_small (uint x) else uint_to_big x)"

text \<open>The digits up to the last one that is not zero.\<close>

definition erts_uint64_array_to_big :: "bool \<Rightarrow> digits \<Rightarrow> 'd eterm" where
  "erts_uint64_array_to_big neg array = Big neg (rev (dropWhile (\<lambda>val. val = 0) (rev array)))"

subsection \<open>Normal form\<close>

definition big_norm :: "digits \<Rightarrow> bool \<Rightarrow> 'd eterm" where
  "big_norm x sign =
     (if length x = 1 \<and> IS_USMALL sign (x ! 0) then make_small (if sign then - sint (x ! 0) else uint (x ! 0))
      else if length x > BIG_ARITY_MAX then NIL
      else Big sign x)"

fun big_comp :: "'d eterm \<Rightarrow> 'd eterm \<Rightarrow> int option" where
  "big_comp (Big xs x) (Big ys y) =
     Some (if xs = ys then (let c = I_comp x y in if xs then - c else c) else if xs then -1 else 1)"
| "big_comp _ _ = None"

fun big_ucomp :: "'d eterm \<Rightarrow> 'd eterm \<Rightarrow> int option" where
  "big_ucomp (Big xs x) (Big ys y) = Some (I_comp x y)"
| "big_ucomp _ _ = None"

subsection \<open>Addition and subtraction\<close>

definition B_plus_minus :: "digits \<Rightarrow> bool \<Rightarrow> digits \<Rightarrow> bool \<Rightarrow> nat \<Rightarrow> 'd eterm option" where
  "B_plus_minus x xsgn y ysgn room =
     (if xsgn = ysgn then
        (if length x > length y then do { r \<leftarrow> I_add x y; r \<leftarrow> fits room r; Some (big_norm r xsgn) }
         else do { r \<leftarrow> I_add y x; r \<leftarrow> fits room r; Some (big_norm r xsgn) })
      else
        (let comp = I_comp x y in
         if comp = 0 then Some (make_small 0)
         else if comp > 0 then do { _ \<leftarrow> fits room x; r \<leftarrow> I_sub x y; Some (big_norm r xsgn) }
         else do { _ \<leftarrow> fits room y; r \<leftarrow> I_sub y x; Some (big_norm r ysgn) }))"

fun big_plus :: "'d eterm \<Rightarrow> 'd eterm \<Rightarrow> nat \<Rightarrow> 'd eterm option" where
  "big_plus (Big xs x) (Big ys y) room = B_plus_minus x xs y ys room"
| "big_plus _ _ _ = None"

fun big_minus :: "'d eterm \<Rightarrow> 'd eterm \<Rightarrow> nat \<Rightarrow> 'd eterm option" where
  "big_minus (Big xs x) (Big ys y) room = B_plus_minus x xs y (\<not> ys) room"
| "big_minus _ _ _ = None"

fun big_plus_small :: "'d eterm \<Rightarrow> u64 \<Rightarrow> nat \<Rightarrow> 'd eterm option" where
  "big_plus_small (Big xs x) y room =
     (if xs then do { _ \<leftarrow> fits room x; r \<leftarrow> D_sub x y; Some (big_norm r xs) }
      else do { r \<leftarrow> fits room (D_add x y); Some (big_norm r xs) })"
| "big_plus_small _ _ _ = None"

subsection \<open>Multiplication\<close>

definition small_times :: "int \<Rightarrow> int \<Rightarrow> 'd eterm" where
  "small_times x y =
     (let sign = ((x < 0) \<noteq> (y < 0));
          xu = word_of_int (if x > 0 then x else - x);
          yu = word_of_int (if y > 0 then y else - y);
          (d0, d1) = DMULc xu yu 0
      in if d1 = 0 \<and> IS_USMALL sign d0 then make_small (if sign then - sint d0 else uint d0)
         else Big sign (if d1 \<noteq> 0 then [d0, d1] else [d0]))"

text \<open>The product of the digits; \<open>same\<close> tells that \<open>x\<close> and \<open>y\<close> are one object.\<close>

definition times_digits :: "bool \<Rightarrow> digits \<Rightarrow> digits \<Rightarrow> nat \<Rightarrow> digits option" where
  "times_digits same x y room =
     (if x = [] \<or> y = [] then None
      else if length y = 1 then fits room (D_mul x (y ! 0))
      else if length x = 1 then fits room (D_mul y (x ! 0))
      else do {
        _ \<leftarrow> fits room (x @ y);
        if length x \<ge> length y then I_mul_karatsuba same x y else I_mul_karatsuba same y x })"

fun big_times :: "bool \<Rightarrow> 'd eterm \<Rightarrow> 'd eterm \<Rightarrow> nat \<Rightarrow> 'd eterm option" where
  "big_times same (Big xs x) (Big ys y) room =
     do { r \<leftarrow> times_digits same x y room; Some (big_norm r (xs \<noteq> ys)) }"
| "big_times _ _ _ _ = None"

fun big_mul_add :: "bool \<Rightarrow> 'd eterm \<Rightarrow> 'd eterm \<Rightarrow> 'd eterm \<Rightarrow> nat \<Rightarrow> 'd eterm option" where
  "big_mul_add same (Big xs x) (Big ys y) (Big zs z) room =
     do { r \<leftarrow> times_digits same x y room; B_plus_minus r (xs \<noteq> ys) z zs room }"
| "big_mul_add _ _ _ _ _ = None"

subsection \<open>Machine integers\<close>

text \<open>The bits of the digits, digit \<open>i\<close> shifted by \<open>64 * i\<close> bits.\<close>

fun or_digits :: "digits \<Rightarrow> nat \<Rightarrow> u64" where
  "or_digits [] n = 0"
| "or_digits (d # ds) n = push_bit n d OR or_digits ds (n + 64)"

datatype arith_error = BADARG | BADARITH | SYSTEM_LIMIT

fun term_to_Uint :: "'d eterm \<Rightarrow> arith_error + u64" where
  "term_to_Uint (Small i) = (if i < 0 then Inl BADARG else Inr (word_of_int i))"
| "term_to_Uint (Big neg x) =
     (if neg then Inl BADARG
      else if length x * 64 > 64 then Inl SYSTEM_LIMIT
      else Inr (or_digits x 0))"
| "term_to_Uint _ = Inl BADARG"

fun term_to_Uint_mask :: "'d eterm \<Rightarrow> arith_error + u64" where
  "term_to_Uint_mask (Small i) = (if i < 0 then Inl BADARG else Inr (word_of_int i))"
| "term_to_Uint_mask (Big neg x) = (if \<not> neg then Inr (x ! 0) else Inl BADARG)"
| "term_to_Uint_mask _ = Inl BADARG"

fun term_to_Uint32 :: "'d eterm \<Rightarrow> arith_error + u32" where
  "term_to_Uint32 (Small i) = (if i \<ge> 0 then Inr (word_of_int i) else Inl BADARG)"
| "term_to_Uint32 _ = Inl BADARG"

fun term_to_Sint :: "'d eterm \<Rightarrow> u64 option" where
  "term_to_Sint (Small i) = Some (word_of_int i)"
| "term_to_Sint (Big neg x) =
     (if length x * 64 > 64 then None
      else let uval = or_digits x 0 in
        if neg then (let uval = - uval in if sint uval > 0 then None else Some uval)
        else (if sint uval < 0 then None else Some uval))"
| "term_to_Sint _ = None"

definition term_equals_2pow32 :: "'d eterm \<Rightarrow> bool" where
  "term_equals_2pow32 x =
     (case term_to_Uint x of
        Inl e \<Rightarrow> False
      | Inr u \<Rightarrow> u AND 0xFFFFFFFF = 0 \<and> drop_bit 16 (drop_bit 16 u) = 1)"

subsection \<open>Bytes\<close>

function count_bytes :: "u64 \<Rightarrow> nat" where
  "count_bytes d = (if d \<noteq> 0 then 1 + count_bytes (drop_bit 8 d) else 0)"
  by pat_completeness auto
termination
  by (relation "measure unat") (simp_all add: drop_bit_8_less)

fun big_bytes :: "'d eterm \<Rightarrow> nat option" where
  "big_bytes (Big neg x) = (if x = [] then None else Some ((length x - 1) * 8 + count_bytes (last x)))"
| "big_bytes _ = None"

definition load_digit :: "bytes \<Rightarrow> u64" where
  "load_digit xp = foldr (\<lambda>b d. push_bit 8 d OR ucast b) xp 0"

function load_digits :: "bytes \<Rightarrow> digits" where
  "load_digits xp =
     (if length xp > 8 then load_digit (take 8 xp) # load_digits (drop 8 xp)
      else if xp \<noteq> [] then [load_digit xp] else [])"
  by pat_completeness auto
termination
  by (relation "measure length") simp_all

definition bytes_to_big :: "bytes \<Rightarrow> bool \<Rightarrow> nat \<Rightarrow> 'd eterm option" where
  "bytes_to_big xp xsgn room =
     (let ds = load_digits xp in
      if length ds = 1 \<and> IS_USMALL xsgn (ds ! 0)
      then Some (make_small (sint (if xsgn then - (ds ! 0) else ds ! 0)))
      else do {
        ds \<leftarrow> fits room ds;
        if length ds > BIG_ARITY_MAX then Some NIL else Some (Big xsgn ds) })"

fun store_digit :: "nat \<Rightarrow> u64 \<Rightarrow> bytes" where
  "store_digit 0 d = []"
| "store_digit (Suc i) d = ucast (d AND 0xff) # store_digit i (drop_bit 8 d)"

function store_last :: "u64 \<Rightarrow> bytes" where
  "store_last d = ucast (d AND 0xff) # (if drop_bit 8 d \<noteq> 0 then store_last (drop_bit 8 d) else [])"
  by pat_completeness auto
termination
  by (relation "measure unat") (auto intro!: drop_bit_8_less)

fun store_digits :: "digits \<Rightarrow> bytes" where
  "store_digits (d # e # ds) = store_digit 8 d @ store_digits (e # ds)"
| "store_digits [d] = store_last d"
| "store_digits [] = []"

fun big_to_bytes :: "'d eterm \<Rightarrow> bytes option" where
  "big_to_bytes (Big neg x) = (if x = [] then None else Some (store_digits x))"
| "big_to_bytes _ = None"

declare count_bytes.simps [simp del] load_digits.simps [simp del] store_last.simps [simp del]


section \<open>Integers as terms\<close>

text \<open>
  The value of an integer term, and the terms that represent integers: smalls in their range and bignums
  outside of it, without zero digits at the top and not longer than the header of a bignum can tell.
\<close>

fun sval :: "bool \<Rightarrow> digits \<Rightarrow> int" where
  "sval True x = - dval x"
| "sval False x = dval x"

fun ival :: "'d eterm \<Rightarrow> int" where
  "ival (Small i) = i"
| "ival (Big neg x) = sval neg x"
| "ival _ = 0"

fun int_ok :: "'d eterm \<Rightarrow> bool" where
  "int_ok (Small i) \<longleftrightarrow> MIN_SMALL \<le> i \<and> i \<le> MAX_SMALL"
| "int_ok (Big neg x) \<longleftrightarrow> normal x \<and> length x \<le> BIG_ARITY_MAX \<and> MAX_SMALL + (if neg then 1 else 0) < dval x"
| "int_ok _ \<longleftrightarrow> False"

text \<open>A bignum operand, which may also be a small in the form of a bignum.\<close>

fun big_ok :: "'d eterm \<Rightarrow> bool" where
  "big_ok (Big neg x) \<longleftrightarrow> normal x"
| "big_ok _ \<longleftrightarrow> False"

definition BIG_LIMIT :: int where
  "BIG_LIMIT = D_BASE ^ BIG_ARITY_MAX"

text \<open>The term for the integer \<open>v\<close>, or the empty list when it is too big.\<close>

definition int_res :: "'d eterm \<Rightarrow> int \<Rightarrow> bool" where
  "int_res t v \<longleftrightarrow> (if \<bar>v\<bar> < BIG_LIMIT then int_ok t \<and> ival t = v else t = NIL)"

lemma BIG_LIMIT_ge: "D_BASE \<le> BIG_LIMIT"
proof -
  have "1 \<le> BIG_ARITY_MAX" by (simp add: BIG_ARITY_MAX_def)
  then have "D_BASE ^ 1 \<le> D_BASE ^ BIG_ARITY_MAX" by (intro power_increasing) simp_all
  then show ?thesis by (simp add: BIG_LIMIT_def)
qed

lemma make_small_id: "MIN_SMALL \<le> x \<Longrightarrow> x \<le> MAX_SMALL \<Longrightarrow> make_small x = Small x"
  by (simp add: make_small_def signed_take_bit_int_eq_self_iff)

lemma IS_USMALL_iff: "IS_USMALL neg x \<longleftrightarrow> uint x \<le> MAX_SMALL + (if neg then 1 else 0)"
  by (simp add: IS_USMALL_def word_le_def uint_word_of_int)

lemma uint_word_signed:
  assumes "- 9223372036854775808 \<le> x" and "x < 9223372036854775808"
  shows "uint (word_of_int x :: u64) = (if x < 0 then x + D_BASE else x)"
proof (cases "x < 0")
  case True
  have "uint (word_of_int x :: u64) = x mod D_BASE" by (simp add: uint_word_of_int)
  also have "\<dots> = (x + D_BASE) mod D_BASE" by (rule mod_add_self2 [symmetric])
  also have "\<dots> = x + D_BASE" using True assms by (intro mod_pos_pos_trivial) linarith+
  finally show ?thesis using True by simp
next
  case False
  with assms show ?thesis by (simp add: uint_word_of_int mod_pos_pos_trivial)
qed

lemma IS_SSMALL_iff:
  assumes "- 9223372036854775808 \<le> x" and "x < 9223372036854775808"
  shows "IS_SSMALL x \<longleftrightarrow> MIN_SMALL \<le> x \<and> x \<le> MAX_SMALL"
proof -
  define q where "q = x div 576460752303423488"
  have q: "- 16 \<le> q" "q \<le> 15" using assms by (auto simp: q_def)
  have w: "uint (word_of_int (q + 1) :: u64) = (if q + 1 < 0 then q + 1 + D_BASE else q + 1)"
    using q by (intro uint_word_signed) simp_all
  have "IS_SSMALL x \<longleftrightarrow> uint (word_of_int (q + 1) :: u64) < 2"
    by (simp add: IS_SSMALL_def word_less_def drop_bit_eq_div q_def)
  also have "\<dots> \<longleftrightarrow> q = -1 \<or> q = 0" using q by (auto simp only: w split: if_splits)
  finally show ?thesis by (auto simp: q_def)
qed

lemma normal_limit: "normal x \<Longrightarrow> length x \<le> BIG_ARITY_MAX \<longleftrightarrow> dval x < BIG_LIMIT"
proof -
  assume x: "normal x"
  have pos: "0 < BIG_ARITY_MAX" by (simp add: BIG_ARITY_MAX_def)
  show ?thesis
  proof
    assume "length x \<le> BIG_ARITY_MAX"
    then have "D_BASE ^ length x \<le> BIG_LIMIT" unfolding BIG_LIMIT_def by (intro power_increasing) simp_all
    with dval_less [of x] show "dval x < BIG_LIMIT" by linarith
  next
    assume "dval x < BIG_LIMIT"
    then show "length x \<le> BIG_ARITY_MAX" using normal_length_le [OF x _ pos] by (simp add: BIG_LIMIT_def)
  qed
qed

lemma normal_long: "normal x \<Longrightarrow> length x \<noteq> 1 \<Longrightarrow> D_BASE \<le> dval x"
proof -
  assume x: "normal x" "length x \<noteq> 1"
  then have "length x \<noteq> 0" by (simp add: normal_def)
  with x(2) have "1 \<le> length x - 1" by linarith
  then have "D_BASE ^ 1 \<le> D_BASE ^ (length x - 1)" by (intro power_increasing) simp_all
  with normal_dval [OF x(1)] x(2) show ?thesis by simp
qed

lemma length_1: "length x = Suc 0 \<longleftrightarrow> (\<exists>d. x = [d])"
  by (cases x) auto

lemma big_norm_small:
  assumes "uint d \<le> MAX_SMALL + (if sign then 1 else 0)"
  shows "big_norm [d] sign = Small (if sign then - uint d else uint d)"
proof -
  have b: "0 \<le> uint d" by simp
  have "uint d \<le> MAX_SMALL + 1" using assms by (cases sign) simp_all
  then have s: "sint d = uint d" unfolding sint_uint using b
    by (simp add: signed_take_bit_int_eq_self_iff) (use b in linarith)
  have "big_norm [d] sign = make_small (if sign then - uint d else uint d)" using assms by (simp add: big_norm_def IS_USMALL_iff s)
  also have "\<dots> = Small (if sign then - uint d else uint d)"
    using assms b by (intro make_small_id; cases sign; simp only: if_True if_False; linarith)
  finally show ?thesis .
qed

lemma big_norm_big:
  assumes "normal x" and "MAX_SMALL + (if sign then 1 else 0) < dval x"
  shows "big_norm x sign = (if length x > BIG_ARITY_MAX then NIL else Big sign x)"
proof -
  have "\<not> (length x = 1 \<and> IS_USMALL sign (x ! 0))" using assms(2) by (auto simp: length_1 IS_USMALL_iff)
  then show ?thesis unfolding big_norm_def by (simp only: if_False)
qed

lemma big_norm_res:
  assumes "normal x"
  shows "int_res (big_norm x sign :: 'd eterm) (sval sign x)"
proof (cases "MAX_SMALL + (if sign then 1 else 0) < dval x")
  case True
  with big_norm_big [OF assms True] normal_limit [OF assms] assms dval_nonneg [of x] show ?thesis by (cases sign) (auto simp: int_res_def)
next
  case False
  then have "length x = Suc 0" using normal_long [OF assms] by (cases "length x = 1") (auto split: if_splits)
  then obtain d where d: "x = [d]" by (auto simp: length_1)
  have n: "big_norm x sign = (Small (if sign then - uint d else uint d) :: 'd eterm)"
    using False d big_norm_small [of d sign] by simp
  have b: "0 \<le> uint d" by simp
  have "\<bar>if sign then - uint d else uint d\<bar> < BIG_LIMIT"
    using u64_bounds [of d] BIG_LIMIT_ge by (auto split: if_splits)
  moreover have "int_ok (big_norm x sign :: 'd eterm)"
    unfolding n int_ok.simps using False d b by (cases sign; simp only: if_True if_False dval.simps; linarith)
  ultimately show ?thesis using d n by (cases sign) (simp_all add: int_res_def)
qed

lemma sval_abs [simp]: "\<bar>sval neg x\<bar> = dval x"
  by (cases neg) simp_all

lemma int_ok_limit: "int_ok t \<Longrightarrow> \<bar>ival t\<bar> < BIG_LIMIT"
  using BIG_LIMIT_ge by (cases t) (auto simp: normal_limit)

lemma int_ok_inj: "int_ok s \<Longrightarrow> int_ok t \<Longrightarrow> ival s = ival t \<Longrightarrow> s = t"
proof (cases s; cases t)
  fix n x m y
  assume a: "int_ok s" "int_ok t" "ival s = ival t" "s = Big n x" "t = Big m y"
  have p: "0 < dval x" "0 < dval y" using a by (auto split: if_splits)
  have "n = m" using a(3,4,5) p by (cases n; cases m; simp only: ival.simps sval.simps; linarith)
  moreover from this have "dval x = dval y" using a(3,4,5) by (cases n) simp_all
  ultimately show "s = t" using a normal_inj [of x y] by simp
next
  fix i n x
  assume a: "int_ok s" "int_ok t" "ival s = ival t" "s = Small i" "t = Big n x"
  then show "s = t" by (cases n; simp only: int_ok.simps ival.simps sval.simps if_True if_False; linarith)
next
  fix i n x
  assume a: "int_ok s" "int_ok t" "ival s = ival t" "s = Big n x" "t = Small i"
  then show "s = t" by (cases n; simp only: int_ok.simps ival.simps sval.simps if_True if_False; linarith)
qed simp_all

text \<open>Every integer of the range has exactly one term.\<close>

lemma int_res_unique: "int_res s v \<Longrightarrow> int_res t v \<Longrightarrow> s = t"
  unfolding int_res_def by (metis int_ok_inj)

lemma small_to_big_ok:
  assumes "- 9223372036854775808 \<le> x" and "x < 9223372036854775808"
  shows "\<exists>neg d. small_to_big x = Big neg [d] \<and> ival (Big neg [d] :: 'd eterm) = x \<and> (neg \<longrightarrow> x < 0)"
proof (cases "0 \<le> x")
  case True
  then have "uint (word_of_int x :: u64) = x" using uint_word_signed [OF assms] by simp
  with True have "small_to_big x = Big False [word_of_int x] \<and> ival (Big False [word_of_int x] :: 'd eterm) = x" by (simp add: small_to_big_def)
  then show ?thesis by blast
next
  case False
  have "uint (word_of_int (- x) :: u64) = - x mod D_BASE" by (simp only: uint_word_of_int) simp
  then have "uint (- word_of_int x :: u64) = - x" using assms False by (simp add: mod_pos_pos_trivial)
  with False have "small_to_big x = Big True [- word_of_int x] \<and> ival (Big True [- word_of_int x] :: 'd eterm) = x"
    by (simp add: small_to_big_def)
  with False show ?thesis by force
qed


section \<open>Arithmetic\<close>

lemma fits_iff: "fits n r = Some s \<longleftrightarrow> s = r \<and> length r \<le> n"
  by (auto simp: fits_def)

lemma B_add_ok:
  assumes "normal x" and "normal y" and "length y \<le> length x" and "dval x + dval y < D_BASE ^ room" and "0 < room"
  shows "\<exists>r. I_add x y = Some r \<and> fits room r = Some r \<and> dval r = dval x + dval y \<and> normal r"
proof -
  have "y \<noteq> []" using assms(2) by (simp add: normal_def)
  from I_add_ok [OF assms(1) this assms(3)] obtain r where r: "I_add x y = Some r" "dval r = dval x + dval y" "normal r" by blast
  with normal_length_le [OF r(3), of room] assms(4,5) show ?thesis by (simp add: fits_def)
qed

lemma B_sub_ok:
  assumes "normal x" and "normal y" and "dval y < dval x"
  shows "\<exists>r. I_sub x y = Some r \<and> dval r = dval x - dval y \<and> normal r"
proof -
  have "y \<noteq> []" using assms(2) by (simp add: normal_def)
  moreover have "length y \<le> length x" using assms by (intro normal_le_length) simp_all
  ultimately show ?thesis using I_sub_ok [of y x] assms(3) by auto
qed

lemma B_plus_minus_res:
  assumes x: "normal x" and y: "normal y" and room: "length x \<le> room" "length y \<le> room"
    and add: "xs = ys \<Longrightarrow> dval x + dval y < D_BASE ^ room"
  shows "\<exists>t. B_plus_minus x xs y ys room = Some (t :: 'd eterm) \<and> int_res t (sval xs x + sval ys y)"
proof (cases "xs = ys")
  case True
  have "x \<noteq> []" using x by (simp add: normal_def)
  then have "0 < length x" by simp
  with room(1) have pos: "0 < room" by linarith
  have v: "sval xs x + sval ys y = sval xs r" if "dval r = dval x + dval y" for r using True that by (cases xs) simp_all
  show ?thesis
  proof (cases "length x > length y")
    case gt: True
    then have "length y \<le> length x" by simp
    from B_add_ok [OF x y this add [OF True] pos] obtain r where r: "I_add x y = Some r" "fits room r = Some r" "dval r = dval x + dval y" "normal r"
      by blast
    then show ?thesis using True gt big_norm_res [OF r(4), of xs] unfolding v [OF r(3)] by (simp add: B_plus_minus_def)
  next
    case False
    then have "length x \<le> length y" by simp
    from B_add_ok [OF y x this _ pos] add [OF True] obtain r
      where r: "I_add y x = Some r" "fits room r = Some r" "dval r = dval x + dval y" "normal r" by (auto simp: add.commute [of "dval y"])
    then show ?thesis using True False big_norm_res [OF r(4), of xs] unfolding v [OF r(3)] by (simp add: B_plus_minus_def)
  qed
next
  case False
  have c: "I_comp x y = sgn (dval x - dval y)" by (rule I_comp_sgn [OF x y])
  have f: "fits room x = Some x" "fits room y = Some y" using room by (simp_all add: fits_def)
  consider "dval x = dval y" | "dval y < dval x" | "dval x < dval y" by linarith
  then show ?thesis
  proof cases
    case 1
    have "int_res (make_small 0 :: 'd eterm) 0" using BIG_LIMIT_ge by (simp add: int_res_def make_small_id)
    moreover have "sval xs x + sval ys y = 0" using False 1 by (cases xs) simp_all
    ultimately show ?thesis using False 1 c by (simp add: B_plus_minus_def)
  next
    case 2
    obtain r where r: "I_sub x y = Some r" "dval r = dval x - dval y" "normal r" using B_sub_ok [OF x y 2] by blast
    have v: "sval xs x + sval ys y = sval xs r" using False r(2) by (cases xs) simp_all
    have "B_plus_minus x xs y ys room = Some (big_norm r xs :: 'd eterm)" using False 2 c r(1) f by (simp add: B_plus_minus_def Let_def)
    then show ?thesis using big_norm_res [OF r(3), of xs] unfolding v by blast
  next
    case 3
    obtain r where r: "I_sub y x = Some r" "dval r = dval y - dval x" "normal r" using B_sub_ok [OF y x 3] by blast
    have v: "sval xs x + sval ys y = sval ys r" using False r(2) by (cases xs) simp_all
    have "B_plus_minus x xs y ys room = Some (big_norm r ys :: 'd eterm)" using False 3 c r(1) f by (simp add: B_plus_minus_def Let_def)
    then show ?thesis using big_norm_res [OF r(3), of ys] unfolding v by blast
  qed
qed

text \<open>A sum of two vectors has one digit more than the longer one at most.\<close>

lemma dval_add_less: "dval x + dval y < D_BASE ^ (max (length x) (length y) + 1)"
proof -
  let ?m = "max (length x) (length y)"
  have "dval x < D_BASE ^ ?m" "dval y < D_BASE ^ ?m" by (simp_all add: dval_less_pow)
  moreover have "0 < D_BASE ^ ?m" by simp
  ultimately have "dval x + dval y < D_BASE * D_BASE ^ ?m" by linarith
  then show ?thesis by simp
qed

lemma times_digits_ok:
  assumes x: "normal x" and y: "normal y" and same: "same \<Longrightarrow> x = y" and room: "length x + length y \<le> room"
  shows "\<exists>r. times_digits same x y room = Some r \<and> dval r = dval x * dval y \<and> normal r"
proof -
  have ne: "x \<noteq> []" "y \<noteq> []" using x y by (simp_all add: normal_def)
  consider "length y = 1" | "length x = 1" "length y \<noteq> 1" | "length x \<noteq> 1" "length y \<noteq> 1" by blast
  then show ?thesis
  proof cases
    case 1
    then obtain d where d: "y = [d]" by (auto simp: length_1)
    with D_mul_ok [OF x, of d] room ne show ?thesis by (simp add: times_digits_def fits_def mult.commute)
  next
    case 2
    then obtain d where d: "x = [d]" by (auto simp: length_1)
    with D_mul_ok [OF y, of d] room ne 2 show ?thesis by (auto simp: times_digits_def fits_def)
  next
    case 3
    have pos: "0 < dval x" "0 < dval y" using normal_long [OF x 3(1)] normal_long [OF y 3(2)] by simp_all
    have "fits room (x @ y) = Some (x @ y)" using room by (simp add: fits_def)
    then have t: "times_digits same x y room = (if length x \<ge> length y then I_mul_karatsuba same x y else I_mul_karatsuba same y x)"
      using ne 3 by (simp add: times_digits_def)
    show ?thesis
    proof (cases "length x \<ge> length y")
      case True
      then show ?thesis using I_mul_karatsuba_ok [OF x y True same] pos unfolding t by auto
    next
      case False
      then have le: "length x \<le> length y" by simp
      from I_mul_karatsuba_ok [OF y x le] same pos False show ?thesis unfolding t by (auto simp: mult.commute)
    qed
  qed
qed

lemma big_plus_res:
  assumes "big_ok x" and "big_ok y" and "x = Big xs ds" and "y = Big ys es" and "max (length ds) (length es) + 1 \<le> room"
  shows "\<exists>t. big_plus x y room = Some t \<and> int_res t (ival x + ival y)"
    and "\<exists>t. big_minus x y room = Some t \<and> int_res t (ival x - ival y)"
proof -
  have "D_BASE ^ (max (length ds) (length es) + 1) \<le> D_BASE ^ room" using assms(5) by (intro power_increasing) simp_all
  with dval_add_less [of ds es] have l: "dval ds + dval es < D_BASE ^ room" by linarith
  have n: "normal ds" "normal es" "length ds \<le> room" "length es \<le> room" using assms by simp_all
  show "\<exists>t. big_plus x y room = Some t \<and> int_res t (ival x + ival y)"
    using B_plus_minus_res [OF n l, of xs ys] unfolding assms(3,4) by (simp only: big_plus.simps ival.simps)
  have "ival x - ival y = sval xs ds + sval (\<not> ys) es" by (cases ys) (simp_all add: assms(3,4))
  then show "\<exists>t. big_minus x y room = Some t \<and> int_res t (ival x - ival y)"
    using B_plus_minus_res [OF n l, of xs "\<not> ys"] unfolding assms(3,4) by (simp only: big_minus.simps)
qed

lemma big_times_res:
  assumes "normal x" and "normal y" and "same \<Longrightarrow> x = y" and "length x + length y \<le> room"
  shows "\<exists>t. big_times same (Big xs x) (Big ys y) room = Some t \<and> int_res t (sval xs x * sval ys y)"
proof -
  obtain r where r: "times_digits same x y room = Some r" "dval r = dval x * dval y" "normal r"
    using times_digits_ok [OF assms] by blast
  have v: "sval xs x * sval ys y = sval (xs \<noteq> ys) r" using r(2) by (cases xs; cases ys) simp_all
  show ?thesis using big_norm_res [OF r(3), of "xs \<noteq> ys"] r(1) unfolding v by simp
qed

lemma big_mul_add_res:
  assumes "normal x" and "normal y" and "normal z" and "same \<Longrightarrow> x = y" and "max (length x + length y) (length z) + 1 \<le> room"
  shows "\<exists>t. big_mul_add same (Big xs x) (Big ys y) (Big zs z) room = Some t \<and> int_res t (sval xs x * sval ys y + sval zs z)"
proof -
  have l: "length x + length y \<le> room" "length z \<le> room" using assms(5) by simp_all
  obtain r where r: "times_digits same x y room = Some r" "dval r = dval x * dval y" "normal r"
    using times_digits_ok [OF assms(1,2,4) l(1)] by blast
  have v: "sval xs x * sval ys y = sval (xs \<noteq> ys) r" using r(2) by (cases xs; cases ys) simp_all
  have lr: "dval r < D_BASE ^ (length x + length y)"
    unfolding r(2) power_add by (intro mult_strict_mono' dval_less dval_nonneg)
  have len: "length r \<le> length x + length y" using normal_length_le [OF r(3) lr] assms(1) by (simp add: normal_def)
  have "max (length r) (length z) + 1 \<le> room" using len assms(5) by simp
  then have "D_BASE ^ (max (length r) (length z) + 1) \<le> D_BASE ^ room" by (intro power_increasing) simp_all
  with dval_add_less [of r z] have "dval r + dval z < D_BASE ^ room" by linarith
  then show ?thesis using B_plus_minus_res [OF r(3) assms(3) _ l(2), of "xs \<noteq> ys" zs] len l(1) r(1) unfolding v by simp
qed

lemma small_abs: "\<bar>x\<bar> < D_BASE \<Longrightarrow> uint (word_of_int (if x > 0 then x else - x) :: u64) = \<bar>x\<bar>"
proof -
  assume a: "\<bar>x\<bar> < D_BASE"
  have "uint (word_of_int \<bar>x\<bar> :: u64) = \<bar>x\<bar> mod D_BASE" by (simp only: uint_word_of_int) simp
  with a have "uint (word_of_int \<bar>x\<bar> :: u64) = \<bar>x\<bar>" by (simp add: mod_pos_pos_trivial)
  moreover have "(if x > 0 then x else - x) = \<bar>x\<bar>" by simp
  ultimately show ?thesis by simp
qed

lemma small_times_res:
  assumes "MIN_SMALL \<le> x" "x \<le> MAX_SMALL" "MIN_SMALL \<le> y" "y \<le> MAX_SMALL"
  shows "int_res (small_times x y :: 'd eterm) (x * y)"
proof -
  let ?xu = "word_of_int (if x > 0 then x else - x) :: u64" and ?yu = "word_of_int (if y > 0 then y else - y) :: u64"
  let ?sign = "(x < 0) \<noteq> (y < 0)"
  obtain d0 d1 where d: "DMULc ?xu ?yu 0 = (d0, d1)" by fastforce
  define ds where "ds = (if d1 \<noteq> 0 then [d0, d1] else [d0])"
  have "uint ?xu = \<bar>x\<bar>" "uint ?yu = \<bar>y\<bar>" using assms by (intro small_abs; simp)+
  then have v: "dval ds = \<bar>x\<bar> * \<bar>y\<bar>" using DMULc_val [OF d] by (cases "d1 = 0") (simp_all add: ds_def)
  have n: "normal ds" by (simp add: ds_def normal_def)
  have "2 \<le> BIG_ARITY_MAX" by (simp add: BIG_ARITY_MAX_def)
  then have "small_times x y = (big_norm ds ?sign :: 'd eterm)"
    by (cases "d1 = 0") (simp_all add: small_times_def d big_norm_def ds_def Let_def)
  moreover have "sval ?sign ds = x * y"
  proof (cases ?sign)
    case True
    have "x * y = - (\<bar>x\<bar> * \<bar>y\<bar>)"
    proof (cases "x < 0")
      case x: True
      with True show ?thesis by simp
    next
      case False
      with True show ?thesis by simp
    qed
    then show ?thesis using True v by simp
  next
    case False
    have "x * y = \<bar>x\<bar> * \<bar>y\<bar>"
    proof (cases "x < 0")
      case x: True
      with False show ?thesis by simp
    next
      case x: False
      with False show ?thesis by simp
    qed
    then show ?thesis using False v by simp
  qed
  ultimately show ?thesis using big_norm_res [OF n, of ?sign] by metis
qed

lemma big_comp_sgn:
  assumes "normal x" and "normal y" and "0 < dval x" and "0 < dval y"
  shows "big_comp (Big xs x) (Big ys y) = Some (sgn (sval xs x - sval ys y))"
  using I_comp_sgn [OF assms(1,2)] assms(3,4)
  by (cases xs; cases ys) (simp_all add: Let_def sgn_if)


section \<open>Machine integers\<close>

text \<open>The conversions give the value when it fits and fail otherwise.\<close>

lemma int_ok_big_1:
  assumes "int_ok (Big neg x)"
  shows "length x * 64 \<le> 64 \<longleftrightarrow> (\<exists>d. x = [d])"
proof -
  have "length x \<noteq> 0" using assms by (simp add: normal_def)
  then have "length x * 64 \<le> 64 \<longleftrightarrow> length x = Suc 0" by linarith
  then show ?thesis by (simp add: length_1)
qed

lemma int_ok_uint:
  assumes "int_ok (Big neg x)"
  shows "(\<exists>d. x = [d]) \<longleftrightarrow> dval x < D_BASE"
proof
  assume "\<exists>d. x = [d]"
  then obtain d where "x = [d]" ..
  then show "dval x < D_BASE" using u64_bounds(2) [of d] by simp
next
  assume "dval x < D_BASE"
  with normal_long [of x] assms have "length x = 1" by (meson int_ok.simps(2) not_less)
  then show "\<exists>d. x = [d]" by (simp add: length_1)
qed

lemma sint_u64: "sint (w :: u64) = (if uint w < 9223372036854775808 then uint w else uint w - D_BASE)"
proof -
  have b: "0 \<le> uint w" "uint w < D_BASE" using u64_bounds(2) [of w] by simp_all
  have "sint w = take_bit 64 (uint w) - D_BASE * of_bool (bit (uint w) 63)"
    by (simp add: sint_uint signed_take_bit_eq_take_bit_minus)
  moreover have "take_bit 64 (uint w) = uint w" using b by (simp add: take_bit_eq_mod mod_pos_pos_trivial)
  moreover have "bit (uint w) 63 \<longleftrightarrow> \<not> uint w < 9223372036854775808"
  proof (cases "uint w < 9223372036854775808")
    case True
    then have "uint w div 9223372036854775808 = 0" using b by (simp add: div_pos_pos_trivial)
    with True show ?thesis by (simp add: bit_iff_odd)
  next
    case False
    then have "uint w div 9223372036854775808 = 1" using b by auto
    with False show ?thesis by (simp add: bit_iff_odd)
  qed
  ultimately show ?thesis by simp
qed

lemma term_to_Uint_val:
  assumes "int_ok t"
  shows "term_to_Uint t =
    (if ival t < 0 then Inl BADARG else if ival t < D_BASE then Inr (word_of_int (ival t)) else Inl SYSTEM_LIMIT)"
proof (cases t)
  case (Small i)
  with assms show ?thesis by simp
next
  case (Big neg x)
  then have x: "0 < dval x" using assms by (cases neg) simp_all
  show ?thesis
  proof (cases neg)
    case True
    with Big x show ?thesis by simp
  next
    case False
    show ?thesis
    proof (cases "\<exists>d. x = [d]")
      case True
      then show ?thesis using Big False x int_ok_uint [of neg x] assms by auto
    next
      case nd: False
      then show ?thesis using Big False x int_ok_uint [of neg x] int_ok_big_1 [of neg x] assms by simp
    qed
  qed
qed (use assms in simp_all)

lemma term_to_Sint_val:
  assumes "int_ok t"
  shows "term_to_Sint t =
    (if - 9223372036854775808 \<le> ival t \<and> ival t < 9223372036854775808 then Some (word_of_int (ival t)) else None)"
proof (cases t)
  case (Small i)
  with assms show ?thesis by simp
next
  case (Big neg x)
  then have x: "0 < dval x" using assms by (cases neg) simp_all
  show ?thesis
  proof (cases "\<exists>d. x = [d]")
    case True
    then obtain d where d: "x = [d]" by blast
    with x have d0: "0 < uint d" "uint d < D_BASE" using u64_bounds(2) [of d] by simp_all
    have u: "or_digits x 0 = d" by (simp add: d)
    show ?thesis
    proof (cases neg)
      case True
      have "uint (- d) = D_BASE - uint d" using d0 by (simp add: uint_word_ariths zmod_zminus1_eq_if mod_pos_pos_trivial)
      then have "sint (- d) > 0 \<longleftrightarrow> uint d > 9223372036854775808" using d0 by (auto simp: sint_u64)
      moreover have "- uint d < 9223372036854775808" using d0 by linarith
      ultimately show ?thesis using True Big d u by (simp add: Let_def)
    next
      case False
      have "sint d < 0 \<longleftrightarrow> \<not> uint d < 9223372036854775808" using d0 by (auto simp: sint_u64)
      then show ?thesis using False Big d u d0 by (simp add: Let_def)
    qed
  next
    case nd: False
    then have "D_BASE \<le> dval x" using int_ok_uint [of neg x] assms Big by simp
    then have "\<not> (- 9223372036854775808 \<le> ival t \<and> ival t < 9223372036854775808)" using Big by (cases neg) simp_all
    then show ?thesis using nd Big int_ok_big_1 [of neg x] assms by simp
  qed
qed (use assms in simp_all)

end
