(* ===== verification/Erts_External.thy ===== *)
theory Erts_External
  imports Erts_Bignum Ei_Integer
begin

text \<open>
  Integers in the external term format, \<open>erts/emulator/beam/external.c\<close>: the cases of the term encoder
  \<open>enc_term_int\<close>, of the size computation \<open>encode_size_struct_int\<close>, of the validation \<open>decoded_size\<close> and of
  the decoder \<open>dec_term\<close> that concern integers (64-bit emulator).  The encoder gives the bytes it stores;
  the decoder reads a list of bytes and gives the term and the bytes after it.  Tags of other kinds of terms
  are outside of the model and give \<open>None\<close>.
\<close>

section \<open>Definitions\<close>

abbreviation "SMALL_INTEGER_EXT \<equiv> 97 :: u8"
abbreviation "INTEGER_EXT \<equiv> 98 :: u8"
abbreviation "SMALL_BIG_EXT \<equiv> 110 :: u8"
abbreviation "LARGE_BIG_EXT \<equiv> 111 :: u8"

definition put_int32 :: "int \<Rightarrow> bytes" where
  "put_int32 i = [word_of_int (drop_bit 24 i), word_of_int (drop_bit 16 i), word_of_int (drop_bit 8 i), word_of_int i]"

definition get_int32 :: "bytes \<Rightarrow> u32" where
  "get_int32 s =
     push_bit 24 (ucast (s ! 0)) OR push_bit 16 (ucast (s ! 1)) OR push_bit 8 (ucast (s ! 2)) OR ucast (s ! 3)"

definition IS_SSMALL32 :: "int \<Rightarrow> bool" where
  "IS_SSMALL32 x \<longleftrightarrow> (word_of_int (drop_bit 31 x + 1) :: u64) < 2"

subsection \<open>Encoding\<close>

fun enc_integer :: "'d eterm \<Rightarrow> bytes option" where
  "enc_integer (Small val) =
     (if (word_of_int val :: u64) < 256 then Some [SMALL_INTEGER_EXT, word_of_int val]
      else if IS_SSMALL32 val then Some (INTEGER_EXT # put_int32 val)
      else do {
        n \<leftarrow> big_bytes (small_to_big val :: 'd eterm);
        bs \<leftarrow> big_to_bytes (small_to_big val :: 'd eterm);
        Some (SMALL_BIG_EXT # of_nat n # of_bool (val < 0) # bs) })"
| "enc_integer (Big sign x) = do {
     n \<leftarrow> big_bytes (Big sign x :: 'd eterm);
     bs \<leftarrow> big_to_bytes (Big sign x :: 'd eterm);
     Some ((if n < 256 then SMALL_BIG_EXT # [of_nat n] else LARGE_BIG_EXT # put_int32 (int n)) @ of_bool sign # bs) }"
| "enc_integer _ = None"

fun encode_small_size :: "'d eterm \<Rightarrow> nat option" where
  "encode_small_size (Small val) =
     (if (word_of_int val :: u64) < 256 then Some (1 + 1)
      else if IS_SSMALL32 val then Some (1 + 4)
      else do { i \<leftarrow> big_bytes (small_to_big val :: 'd eterm); Some (1 + 1 + 1 + i) })"
| "encode_small_size _ = None"

fun encode_integer_size :: "'d eterm \<Rightarrow> nat option" where
  "encode_integer_size (Small val) = encode_small_size (Small val :: 'd eterm)"
| "encode_integer_size (Big sign x) =
     do { i \<leftarrow> big_bytes (Big sign x :: 'd eterm); Some (if i < 256 then 1 + 1 + 1 + i else 1 + 4 + 1 + i) }"
| "encode_integer_size _ = None"

subsection \<open>Decoding\<close>

text \<open>The words on the heap a term needs and the bytes after it; \<open>None\<close> is the error of malformed input.\<close>

definition skip_bytes :: "nat \<Rightarrow> bytes \<Rightarrow> bytes option" where
  "skip_bytes n ep = (if length ep < n then None else Some (drop n ep))"

fun decoded_integer_size :: "bytes \<Rightarrow> (nat \<times> bytes) option" where
  "decoded_integer_size (tag # ep) =
     (if tag = INTEGER_EXT then do { ep \<leftarrow> skip_bytes 4 ep; Some (0, ep) }
      else if tag = SMALL_INTEGER_EXT then do { ep \<leftarrow> skip_bytes 1 ep; Some (0, ep) }
      else if tag = SMALL_BIG_EXT then
        (if length ep < 1 then None
         else let n = unat (ep ! 0) in do { ep \<leftarrow> skip_bytes (n + (1 + 1)) ep; Some (1 + (n + 8 - 1) div 8, ep) })
      else if tag = LARGE_BIG_EXT then
        (if length ep < 4 then None
         else let n = unat (get_int32 ep) in
           if n > BIG_ARITY_MAX * 8 then None
           else do { ep \<leftarrow> skip_bytes (n + (4 + 1)) ep; Some (1 + 1 + (n + 8 - 1) div 8, ep) })
      else None)"
| "decoded_integer_size [] = None"

datatype 'd dec_int = Decoded "'d eterm" bytes | Dec_error

text \<open>The digits of a bignum: \<open>ep\<close> is at the sign, there are \<open>n\<close> bytes and \<open>room\<close> words on the heap.\<close>

definition dec_big :: "int \<Rightarrow> bytes \<Rightarrow> nat \<Rightarrow> 'd dec_int option" where
  "dec_big n ep room =
     (if n < 0 \<or> int (length ep) < n + 1 then None
      else let neg = ep ! 0; digits = take (nat n) (drop 1 ep); rest = drop (nat n) (drop 1 ep);
             digits = rev (dropWhile (\<lambda>b. b = 0) (rev digits))
        in if digits = [] then Some (Decoded (make_small 0) rest)
           else do {
             big \<leftarrow> bytes_to_big digits (neg \<noteq> 0) (room - 1);
             Some (if big = NIL then Dec_error else Decoded big rest) })"

fun dec_integer :: "bytes \<Rightarrow> nat \<Rightarrow> 'd dec_int option" where
  "dec_integer (tag # ep) room =
     (if tag = INTEGER_EXT then
        (if length ep < 4 then None else Some (Decoded (make_small (sint (get_int32 ep))) (drop 4 ep)))
      else if tag = SMALL_INTEGER_EXT then
        (if length ep < 1 then None else Some (Decoded (make_small (uint (ep ! 0))) (drop 1 ep)))
      else if tag = SMALL_BIG_EXT then (if length ep < 1 then None else dec_big (uint (ep ! 0)) (drop 1 ep) room)
      else if tag = LARGE_BIG_EXT then (if length ep < 4 then None else dec_big (sint (get_int32 ep)) (drop 4 ep) room)
      else None)"
| "dec_integer [] room = None"


section \<open>Bytes and digits\<close>

lemma le_val_append: "le_val (xs @ ys) = le_val xs + 256 ^ length xs * le_val ys"
  by (induction xs) (simp_all add: algebra_simps)

lemma le_val_less: "le_val xs < 256 ^ length xs"
proof (induction xs)
  case (Cons x xs)
  then have "256 * (le_val xs + 1) \<le> 256 * 256 ^ length xs" by (intro mult_left_mono) simp_all
  moreover have "unat x < 256" using unsigned_less [of x] by simp
  ultimately show ?case by simp
qed simp

lemma le_val_ge: "xs \<noteq> [] \<Longrightarrow> last xs \<noteq> 0 \<Longrightarrow> 256 ^ (length xs - 1) \<le> le_val xs"
proof (induction xs rule: rev_induct)
  case (snoc x xs)
  then have "1 \<le> unat x" by (simp add: Suc_le_eq unat_gt_0)
  then have "256 ^ length xs * 1 \<le> 256 ^ length xs * unat x" by (intro mult_left_mono) simp_all
  then show ?case by (simp add: le_val_append trans_le_add2)
qed simp

lemma load_digit_val: "length xs \<le> 8 \<Longrightarrow> unat (load_digit xs) = le_val xs"
proof (induction xs)
  case Nil
  then show ?case by (simp add: load_digit_def)
next
  case (Cons x xs)
  let ?d = "load_digit xs"
  have l: "unat ?d = le_val xs" using Cons by simp
  have "le_val xs < 256 ^ length xs" by (rule le_val_less)
  also have "\<dots> \<le> 256 ^ 7" using Cons.prems by (intro power_increasing) simp_all
  finally have d: "unat ?d < 2 ^ 56" by (simp add: l)
  have x: "unat x < 2 ^ 8" using unsigned_less [of x] by simp
  have "unat (push_bit 8 ?d) = take_bit 64 (push_bit 8 (unat ?d))" by (simp only: unsigned_push_bit_eq) simp
  also have "\<dots> = push_bit 8 (unat ?d)" using d by (intro take_bit_nat_eq_self) (simp add: push_bit_eq_mult)
  finally have p: "unat (push_bit 8 ?d) = push_bit 8 (unat ?d)" .
  have "unat (ucast x :: u64) = take_bit 64 (unat x)" by (simp add: unsigned_ucast_eq)
  also have "\<dots> = unat x" using x by (intro take_bit_nat_eq_self) simp
  finally have "unat (ucast x OR push_bit 8 ?d) = unat x + 2 ^ 8 * unat ?d"
    using x by (simp only: unsigned_or_eq p nat_or_push_bit)
  moreover have "load_digit (x # xs) = ucast x OR push_bit 8 ?d" by (simp add: load_digit_def or.commute)
  ultimately show ?case using l by simp
qed

lemma load_digits_val: "dval (load_digits xs) = int (le_val xs)"
proof (induction xs rule: load_digits.induct)
  case (1 xs)
  show ?case
  proof (cases "length xs > 8")
    case True
    have "le_val xs = le_val (take 8 xs) + 256 ^ 8 * le_val (drop 8 xs)"
      using le_val_append [of "take 8 xs" "drop 8 xs"] True by simp
    moreover have "uint (load_digit (take 8 xs)) = int (le_val (take 8 xs))"
      using load_digit_val [of "take 8 xs"] by (simp add: uint_nat del: nat_uint_eq int_nat_eq)
    ultimately show ?thesis using True 1 by (subst load_digits.simps) simp
  next
    case False
    then have "uint (load_digit xs) = int (le_val xs)" using load_digit_val [of xs] by (simp add: uint_nat del: nat_uint_eq int_nat_eq)
    with False show ?thesis by (subst load_digits.simps) simp
  qed
qed

lemma length_load_digits: "length (load_digits xs) = (length xs + 7) div 8"
proof (induction xs rule: load_digits.induct)
  case (1 xs)
  show ?case
  proof (cases "length xs > 8")
    case True
    with 1 show ?thesis by (subst load_digits.simps) simp
  next
    case False
    then show ?thesis by (subst load_digits.simps) (cases "length xs"; auto)
  qed
qed

lemma load_digits_normal:
  assumes "xs \<noteq> []" and "last xs \<noteq> 0"
  shows "normal (load_digits xs)"
proof (rule normalI)
  have l: "0 < length xs" using assms(1) by simp
  then have n: "length (load_digits xs) \<noteq> 0" unfolding length_load_digits by (simp add: div_eq_0_iff)
  then show "load_digits xs \<noteq> []" by fastforce
  have "8 * (length (load_digits xs) - 1) \<le> length xs - 1" unfolding length_load_digits using l by linarith
  then have "(256 :: int) ^ (8 * (length (load_digits xs) - 1)) \<le> 256 ^ (length xs - 1)" by (intro power_increasing) simp_all
  moreover have "int (256 ^ (length xs - 1)) \<le> int (le_val xs)" using le_val_ge [OF assms] by (simp only: of_nat_le_iff)
  moreover have "(256 :: int) ^ (8 * (length (load_digits xs) - 1)) = D_BASE ^ (length (load_digits xs) - 1)"
    by (simp only: power_mult) simp
  ultimately show "D_BASE ^ (length (load_digits xs) - 1) \<le> dval (load_digits xs)"
    unfolding load_digits_val of_nat_power of_nat_numeral by linarith
qed

lemma count_bytes_eq: "count_bytes d = length (le_digits d)"
proof (induction d rule: count_bytes.induct)
  case (1 d)
  then show ?case by (subst count_bytes.simps, subst le_digits.simps) simp
qed

lemma store_last_eq: "d \<noteq> 0 \<Longrightarrow> store_last d = le_digits d"
proof (induction d rule: store_last.induct)
  case (1 d)
  show ?case
  proof (cases "drop_bit 8 d = 0")
    case True
    then show ?thesis by (subst store_last.simps, subst le_digits.simps) (simp add: 1(2))
  next
    case False
    then show ?thesis using 1(1) by (subst store_last.simps, subst le_digits.simps) (simp add: 1(2))
  qed
qed

lemma store_digit_val: "le_val (store_digit i d) = unat d mod 256 ^ i \<and> length (store_digit i d) = i"
proof (induction i arbitrary: d)
  case (Suc i)
  have "drop_bit 8 d = d div 256" by (simp add: drop_bit_eq_div)
  then have "unat (drop_bit 8 d) = unat d div 256" by (simp only: unat_div) simp
  moreover have "unat (ucast d :: u8) = unat d mod 256" by (simp add: unsigned_ucast_eq take_bit_eq_mod)
  ultimately show ?case using Suc by (simp add: mod_mult2_eq)
qed simp

lemma store_digits_val:
  "x \<noteq> [] \<Longrightarrow> last x \<noteq> 0 \<Longrightarrow> int (le_val (store_digits x)) = dval x
    \<and> length (store_digits x) = (length x - 1) * 8 + count_bytes (last x)"
proof (induction x rule: store_digits.induct)
  case (1 d e ds)
  have "unat d < 256 ^ 8" using unsigned_less [of d] by simp
  then have "unat d mod 256 ^ 8 = unat d" by (rule mod_less)
  with store_digit_val [of 8 d] have "le_val (store_digit 8 d) = unat d" "length (store_digit 8 d) = 8" by (simp_all only:)
  moreover have "int (le_val (store_digits (e # ds))) = dval (e # ds)"
      "length (store_digits (e # ds)) = (length (e # ds) - 1) * 8 + count_bytes (last (e # ds))"
    using 1 by simp_all
  moreover have "uint d = int (unat d)" by simp
  ultimately show ?case by (simp only: store_digits.simps le_val_append dval.simps length_append) simp
next
  case (2 d)
  moreover have "uint d = int (unat d)" by simp
  ultimately show ?case by (simp add: store_last_eq count_bytes_eq)
qed simp

lemma le_digits_last: "d \<noteq> 0 \<Longrightarrow> le_digits d \<noteq> [] \<and> last (le_digits d) \<noteq> 0"
proof (induction d rule: le_digits.induct)
  case (1 d)
  show ?case
  proof (cases "drop_bit 8 d = 0")
    case True
    then have "unat (d div 256) = 0" by (simp add: drop_bit_eq_div)
    then have "unat d div 256 = 0" by (simp only: unat_div) simp
    then have "unat d mod 256 \<noteq> 0" using 1(2) by (simp add: div_eq_0_iff unat_eq_0)
    then have "unat (ucast d :: u8) \<noteq> 0" by (simp add: unsigned_ucast_eq take_bit_eq_mod)
    with True 1(2) show ?thesis by (simp add: le_digits.simps [of d] unat_eq_0)
  next
    case False
    with 1 show ?thesis by (simp add: le_digits.simps [of d])
  qed
qed

lemma store_digits_last: "x \<noteq> [] \<Longrightarrow> last x \<noteq> 0 \<Longrightarrow> store_digits x \<noteq> [] \<and> last (store_digits x) \<noteq> 0"
  by (induction x rule: store_digits.induct) (simp_all add: store_last_eq le_digits_last)

text \<open>Loading the bytes of a vector gives the vector.\<close>

lemma load_store:
  assumes "normal x" and "last x \<noteq> 0"
  shows "load_digits (store_digits x) = x"
proof (rule normal_inj)
  have ne: "x \<noteq> []" using assms(1) by (simp add: normal_def)
  note l = store_digits_last [OF ne assms(2)]
  show "normal (load_digits (store_digits x))" using load_digits_normal l by blast
  show "dval (load_digits (store_digits x)) = dval x" using store_digits_val [OF ne assms(2)] by (simp add: load_digits_val)
qed (rule assms(1))


section \<open>Decoding\<close>

lemma bytes_to_big_res:
  assumes "xs \<noteq> []" and "last xs \<noteq> 0" and "(length xs + 7) div 8 \<le> room"
  shows "\<exists>t. bytes_to_big xs neg room = Some (t :: 'd eterm) \<and> int_res t (if neg then - int (le_val xs) else int (le_val xs))"
proof -
  let ?x = "load_digits xs"
  have n: "normal ?x" by (rule load_digits_normal [OF assms(1,2)])
  have f: "fits room ?x = Some ?x" using assms(3) by (simp add: fits_def length_load_digits)
  have v: "sval neg ?x = (if neg then - int (le_val xs) else int (le_val xs))" by (cases neg) (simp_all add: load_digits_val)
  have "bytes_to_big xs neg room = Some (big_norm ?x neg :: 'd eterm)"
  proof (cases "length ?x = 1 \<and> IS_USMALL neg (?x ! 0)")
    case True
    then obtain d where d: "?x = [d]" "uint d \<le> MAX_SMALL + (if neg then 1 else 0)" by (auto simp: length_1 IS_USMALL_iff)
    have "uint d \<le> MAX_SMALL + 1" using d(2) by (cases neg) simp_all
    then have "sint d = uint d" "sint (- d) = - uint d" by (auto simp: sint_u64 uint_word_ariths zmod_zminus1_eq_if mod_pos_pos_trivial)
    then have "make_small (sint (if neg then - d else d)) = (make_small (if neg then - sint d else uint d) :: 'd eterm)" by simp
    then show ?thesis unfolding bytes_to_big_def Let_def big_norm_def if_P [OF True] by (simp only: d nth_Cons_0)
  next
    case False
    show ?thesis unfolding bytes_to_big_def Let_def big_norm_def if_not_P [OF False] f by simp
  qed
  with big_norm_res [OF n, of neg] v show ?thesis by metis
qed

lemma le_val_strip: "le_val (rev (dropWhile (\<lambda>b. b = 0) xs)) = le_val (rev xs)"
  by (induction xs) (simp_all add: le_val_append)

lemma last_strip: "dropWhile (\<lambda>b. b = (0 :: u8)) xs \<noteq> [] \<Longrightarrow> last (rev (dropWhile (\<lambda>b. b = 0) xs)) \<noteq> 0"
  using hd_dropWhile [of "\<lambda>b. b = 0" xs] by (simp add: last_rev)

text \<open>The digits of a bignum are decoded to the integer they denote.\<close>

lemma dec_big_res:
  assumes ep: "ep = sign # ds @ rest" and l: "length ds \<le> BIG_ARITY_MAX * 8" and room: "(length ds + 7) div 8 + 1 \<le> room"
  shows "\<exists>t. dec_big (int (length ds)) ep room = Some (Decoded (t :: 'd eterm) rest) \<and> int_ok t \<and> ival t = big_val sign ds"
proof -
  let ?ds = "rev (dropWhile (\<lambda>b. b = 0) (rev ds))"
  have le: "le_val ?ds = le_val ds" using le_val_strip [of "rev ds"] by simp
  have len: "length ?ds \<le> length ds" using length_dropWhile_le [of "\<lambda>b. b = 0" "rev ds"] by simp
  show ?thesis
  proof (cases "?ds = []")
    case True
    then have "le_val ds = 0" using le by (metis le_val.simps(1))
    then have "big_val sign ds = 0" by (simp add: big_val_def)
    moreover have "dec_big (int (length ds)) ep room = Some (Decoded (make_small 0 :: 'd eterm) rest)"
      using True by (simp add: dec_big_def ep Let_def)
    ultimately show ?thesis by (simp add: make_small_id)
  next
    case False
    have last: "last ?ds \<noteq> 0" using False by (intro last_strip) simp
    have "(length ?ds + 7) div 8 \<le> room - 1" using room div_le_mono [of "length ?ds + 7" "length ds + 7" 8] len by linarith
    then obtain t where t: "bytes_to_big ?ds (sign \<noteq> 0) (room - 1) = Some (t :: 'd eterm)" "int_res t (big_val sign ds)"
      using bytes_to_big_res [OF False last, of "room - 1" "sign \<noteq> 0"] unfolding le big_val_def by blast
    have "dval (load_digits ?ds) < BIG_LIMIT"
    proof -
      have "length (load_digits ?ds) \<le> BIG_ARITY_MAX" unfolding length_load_digits using len l by linarith
      moreover have "normal (load_digits ?ds)" by (rule load_digits_normal [OF False last])
      ultimately show ?thesis by (simp add: normal_limit)
    qed
    then have "\<bar>big_val sign ds\<bar> < BIG_LIMIT" by (simp add: load_digits_val le big_val_def)
    with t(2) have ok: "int_ok t" "ival t = big_val sign ds" by (simp_all add: int_res_def)
    have "t \<noteq> NIL" using ok(1) by auto
    have "take (nat (int (length ds))) (drop 1 ep) = ds" "drop (nat (int (length ds))) (drop 1 ep) = rest" "ep ! 0 = sign"
        "\<not> (int (length ds) < 0 \<or> int (length ep) < int (length ds) + 1)"
      by (simp_all add: ep)
    then have "dec_big (int (length ds)) ep room = Some (Decoded t rest)"
      unfolding dec_big_def Let_def using t(1) False \<open>t \<noteq> NIL\<close> by (simp only: if_False bind.bind_lunit)
    with ok show ?thesis by blast
  qed
qed


text \<open>The integer that the bytes of a term denote.\<close>

fun ext_val :: "bytes \<Rightarrow> int" where
  "ext_val (tag # ep) =
     (if tag = INTEGER_EXT then sint (get_int32 ep)
      else if tag = SMALL_INTEGER_EXT then uint (ep ! 0)
      else if tag = SMALL_BIG_EXT then big_val (ep ! 1) (take (unat (ep ! 0)) (drop 2 ep))
      else big_val (ep ! 4) (take (unat (get_int32 ep)) (drop 5 ep)))"
| "ext_val [] = 0"

lemma skip_bytes_Some: "skip_bytes n ep = Some r \<longleftrightarrow> n \<le> length ep \<and> r = drop n ep"
  by (auto simp: skip_bytes_def)

lemma list_parts: "k + n < length ep \<Longrightarrow> drop k ep = ep ! k # take n (drop (Suc k) ep) @ drop (Suc k + n) ep"
proof -
  assume l: "k + n < length ep"
  then have "drop k ep = ep ! k # drop (Suc k) ep" by (simp add: Cons_nth_drop_Suc)
  moreover have "drop (Suc k) ep = take n (drop (Suc k) ep) @ drop (Suc k + n) ep"
    using append_take_drop_id [of n "drop (Suc k) ep"] by (simp add: add.commute)
  ultimately show ?thesis by simp
qed

lemma dec_big_at:
  assumes "k + n < length ep" and "n \<le> BIG_ARITY_MAX * 8" and "(n + 7) div 8 + 1 \<le> room"
  shows "\<exists>t. dec_big (int n) (drop k ep) room = Some (Decoded (t :: 'd eterm) (drop (Suc k + n) ep))
    \<and> int_ok t \<and> ival t = big_val (ep ! k) (take n (drop (Suc k) ep))"
proof -
  have l: "length (take n (drop (Suc k) ep)) = n" using assms(1) by simp
  show ?thesis by (rule dec_big_res [OF list_parts [OF assms(1)], of room, unfolded l, OF assms(2,3)])
qed

lemma sint_u32_small: "sint (w :: u32) = uint w" if "uint w < 2147483648"
proof -
  have "0 \<le> uint w" by simp
  then have "- 2147483648 \<le> uint w" by linarith
  with that have "signed_take_bit 31 (uint w) = uint w" by (intro signed_take_bit_int_eq_self) simp_all
  then show ?thesis by (simp add: sint_uint)
qed

lemma sint_u32_range: "- 2147483648 \<le> sint (w :: u32)" "sint w < 2147483648"
  using sint_greater_eq [of w] sint_less [of w] by simp_all

lemma arity_max: "BIG_ARITY_MAX = 65535"
  by (simp add: BIG_ARITY_MAX_def push_bit_eq_mult)

lemma dec_integer_ok:
  assumes "decoded_integer_size ep = Some (w, rest)"
  shows "\<exists>t. dec_integer ep w = Some (Decoded (t :: 'd eterm) rest) \<and> int_ok t \<and> ival t = ext_val ep"
proof (cases ep)
  case Nil
  with assms show ?thesis by simp
next
  case (Cons tag ep')
  consider "tag = INTEGER_EXT" | "tag = SMALL_INTEGER_EXT" | "tag = SMALL_BIG_EXT" | "tag = LARGE_BIG_EXT"
    using assms Cons by (auto split: if_splits)
  then show ?thesis
  proof cases
    case 1
    then have "4 \<le> length ep'" "w = 0" "rest = drop 4 ep'" using assms Cons by (auto simp: skip_bytes_Some bind_eq_Some_conv)
    then have "dec_integer ep w = Some (Decoded (Small (sint (get_int32 ep')) :: 'd eterm) rest)"
      using 1 Cons sint_u32_range [of "get_int32 ep'"] by (simp add: make_small_id)
    then show ?thesis using 1 Cons sint_u32_range [of "get_int32 ep'"] by simp
  next
    case 2
    then have "1 \<le> length ep'" "w = 0" "rest = drop 1 ep'" using assms Cons by (auto simp: skip_bytes_Some bind_eq_Some_conv)
    moreover have b: "MIN_SMALL \<le> uint (ep' ! 0)" "uint (ep' ! 0) \<le> MAX_SMALL"
      using uint_bounded [of "ep' ! 0"] uint_nonnegative [of "ep' ! 0"] by (linarith, simp)
    moreover have "ep' \<noteq> []" using \<open>1 \<le> length ep'\<close> by auto
    moreover have "make_small (uint (ep' ! 0)) = (Small (uint (ep' ! 0)) :: 'd eterm)" by (rule make_small_id [OF b])
    ultimately show ?thesis using 2 Cons by simp
  next
    case 3
    let ?n = "unat (ep' ! 0)"
    have n: "1 + ?n < length ep'" "w = 1 + (?n + 8 - 1) div 8" "rest = drop (Suc 1 + ?n) ep'"
      using assms Cons 3 by (auto simp: skip_bytes_Some bind_eq_Some_conv Let_def split: if_splits)
    have "?n < 256" using unsigned_less [of "ep' ! 0"] by simp
    then have "?n \<le> BIG_ARITY_MAX * 8" by (simp add: arity_max)
    moreover have "(?n + 7) div 8 + 1 \<le> w" unfolding n(2) by simp
    ultimately obtain t where "dec_big (int ?n) (drop 1 ep') w = Some (Decoded (t :: 'd eterm) rest)"
        "int_ok t" "ival t = big_val (ep' ! 1) (take ?n (drop 2 ep'))"
      using dec_big_at [OF n(1), of w] unfolding n(3) Suc_1 by blast
    moreover have "\<not> length ep' < 1" using n(1) by linarith
    then have "dec_integer ep w = (dec_big (int ?n) (drop 1 ep') w :: 'd dec_int option)" using 3 Cons by simp
    moreover have "ext_val ep = big_val (ep' ! 1) (take ?n (drop 2 ep'))" using 3 Cons by simp
    ultimately show ?thesis by metis
  next
    case 4
    let ?n = "unat (get_int32 ep')"
    have n: "4 + ?n < length ep'" "?n \<le> BIG_ARITY_MAX * 8" "w = 1 + 1 + (?n + 8 - 1) div 8" "rest = drop (?n + 5) ep'"
      using assms Cons 4 by (auto simp: skip_bytes_Some bind_eq_Some_conv Let_def split: if_splits)
    have r: "?n + 5 = Suc 4 + ?n" by simp
    have u: "uint (get_int32 ep') = int ?n" by simp
    have "uint (get_int32 ep') < 2147483648" using n(2) unfolding u arity_max by linarith
    then have i: "sint (get_int32 ep') = int ?n" using sint_u32_small [of "get_int32 ep'"] u by (simp only:)
    have "(?n + 7) div 8 + 1 \<le> w" unfolding n(3) by simp
    then obtain t where "dec_big (int ?n) (drop 4 ep') w = Some (Decoded (t :: 'd eterm) rest)"
        "int_ok t" "ival t = big_val (ep' ! 4) (take ?n (drop (Suc 4) ep'))"
      using dec_big_at [OF n(1,2), of w] unfolding n(4) r by blast
    moreover have "\<not> length ep' < 4" using n(1) by linarith
    then have "dec_integer ep w = (dec_big (int ?n) (drop 4 ep') w :: 'd dec_int option)" using 4 Cons i by simp
    moreover have "ext_val ep = big_val (ep' ! 4) (take ?n (drop (Suc 4) ep'))" using 4 Cons by simp
    ultimately show ?thesis by metis
  qed
qed


section \<open>Encoding\<close>

lemma put_int32_be32: "put_int32 i = be32 (word_of_int i :: u32)"
  by (auto simp: put_int32_def be32_def bit_eq_iff bit_word_of_int_iff bit_unsigned_iff bit_drop_bit_eq bit_ucast_iff
      intro!: bit_word_eqI)

lemma get_be32: "get_int32 (be32 w @ r) = (w :: u32)"
  using word_join_be32 [of w] by (simp add: get_int32_def be32_def eval_nat_numeral)

lemma decoded_small_big:
  assumes "length ds < 256"
  shows "decoded_integer_size (SMALL_BIG_EXT # of_nat (length ds) # sign # ds @ rest) = Some (1 + (length ds + 7) div 8, rest)"
    and "ext_val (SMALL_BIG_EXT # of_nat (length ds) # sign # ds @ rest) = big_val sign ds"
proof -
  have n: "unat (of_nat (length ds) :: u8) = length ds" using assms by (simp add: unat_of_nat)
  show "decoded_integer_size (SMALL_BIG_EXT # of_nat (length ds) # sign # ds @ rest) = Some (1 + (length ds + 7) div 8, rest)"
    by (simp add: n Let_def skip_bytes_def)
  show "ext_val (SMALL_BIG_EXT # of_nat (length ds) # sign # ds @ rest) = big_val sign ds"
    by (simp add: n)
qed

lemma decoded_large_big:
  assumes "length ds \<le> BIG_ARITY_MAX * 8" and "hdr = put_int32 (int (length ds))"
  shows "decoded_integer_size (LARGE_BIG_EXT # hdr @ sign # ds @ rest) = Some (1 + 1 + (length ds + 7) div 8, rest)"
    and "ext_val (LARGE_BIG_EXT # hdr @ sign # ds @ rest) = big_val sign ds"
proof -
  have g: "get_int32 (hdr @ r) = of_nat (length ds)" for r unfolding assms(2) put_int32_be32 get_be32 by simp
  have n: "unat (of_nat (length ds) :: u32) = length ds" using assms(1) by (simp add: unat_of_nat arity_max)
  have h: "length hdr = 4" unfolding assms(2) put_int32_def by simp
  show "decoded_integer_size (LARGE_BIG_EXT # hdr @ sign # ds @ rest) = Some (1 + 1 + (length ds + 7) div 8, rest)"
    using assms(1) by (simp add: g n h Let_def skip_bytes_def)
  have "(hdr @ sign # ds @ rest) ! 4 = sign" "drop 5 (hdr @ sign # ds @ rest) = ds @ rest" by (simp_all add: h nth_append)
  then show "ext_val (LARGE_BIG_EXT # hdr @ sign # ds @ rest) = big_val sign ds" by (simp add: g n)
qed

lemma normal_last: "normal x \<Longrightarrow> 0 < dval x \<Longrightarrow> x \<noteq> [] \<and> last x \<noteq> 0"
proof (cases "length x = 1")
  case True
  assume "0 < dval x"
  with True show ?thesis by (auto simp: length_1)
next
  case False
  assume "normal x"
  with False show ?thesis by (simp add: normal_def)
qed

lemma big_to_bytes_ok:
  assumes "normal x" and "0 < dval x"
  obtains bs where "big_bytes (Big neg x :: 'd eterm) = Some (length bs)" "big_to_bytes (Big neg x :: 'd eterm) = Some bs"
    "int (le_val bs) = dval x" "length bs \<le> length x * 8"
proof
  note l = normal_last [OF assms]
  note v = store_digits_val [OF conjunct1 [OF l] conjunct2 [OF l]]
  show "big_bytes (Big neg x :: 'd eterm) = Some (length (store_digits x))" using l v by simp
  show "big_to_bytes (Big neg x :: 'd eterm) = Some (store_digits x)" using l by simp
  show "int (le_val (store_digits x)) = dval x" using v by simp
  have "count_bytes (last x) \<le> 8" by (simp add: count_bytes_eq length_le_digits_8)
  moreover have "length x \<noteq> 0" using l by simp
  ultimately show "length (store_digits x) \<le> length x * 8" using v by linarith
qed

lemma big_val_of_bool: "big_val (of_bool b) ds = (if b then - int (le_val ds) else int (le_val ds))"
  by (simp add: big_val_def)

lemma IS_SSMALL32_iff:
  assumes "MIN_SMALL \<le> x" and "x \<le> MAX_SMALL"
  shows "IS_SSMALL32 x \<longleftrightarrow> - 2147483648 \<le> x \<and> x < 2147483648"
proof -
  define q where "q = x div 2147483648"
  have q: "- 268435456 \<le> q" "q \<le> 268435455" using assms by (auto simp: q_def)
  have w: "uint (word_of_int (q + 1) :: u64) = (if q + 1 < 0 then q + 1 + D_BASE else q + 1)"
    using q by (intro uint_word_signed) simp_all
  have "IS_SSMALL32 x \<longleftrightarrow> uint (word_of_int (q + 1) :: u64) < 2"
    by (simp add: IS_SSMALL32_def word_less_def drop_bit_eq_div q_def)
  also have "\<dots> \<longleftrightarrow> q = -1 \<or> q = 0" using q by (auto simp only: w split: if_splits)
  finally show ?thesis by (auto simp: q_def)
qed

lemma small_byte:
  assumes "MIN_SMALL \<le> v" and "v \<le> MAX_SMALL"
  shows "(word_of_int v :: u64) < 256 \<longleftrightarrow> 0 \<le> v \<and> v < 256"
proof -
  have w: "uint (word_of_int v :: u64) = (if v < 0 then v + D_BASE else v)"
    using assms by (intro uint_word_signed) linarith+
  have "(word_of_int v :: u64) < 256 \<longleftrightarrow> uint (word_of_int v :: u64) < 256" by (simp add: word_less_def)
  also have "\<dots> \<longleftrightarrow> 0 \<le> v \<and> v < 256" using assms by (auto simp only: w split: if_splits)
  finally show ?thesis .
qed

text \<open>
  The encoding of an integer has the computed size, is accepted by the validation and denotes the integer.
\<close>

definition enc_ok :: "'d eterm \<Rightarrow> bool" where
  "enc_ok t \<longleftrightarrow> (\<exists>bs w. enc_integer t = Some bs \<and> encode_integer_size t = Some (length bs)
    \<and> (\<forall>rest. decoded_integer_size (bs @ rest) = Some (w, rest) \<and> ext_val (bs @ rest) = ival t))"

lemma enc_okI:
  assumes "enc_integer t = Some bs" and "encode_integer_size t = Some (length bs)"
    and "\<And>rest. decoded_integer_size (bs @ rest) = Some (w, rest)" and "\<And>rest. ext_val (bs @ rest) = ival t"
  shows "enc_ok t"
  using assms unfolding enc_ok_def by blast

lemma enc_small_ok:
  assumes "MIN_SMALL \<le> v" and "v \<le> MAX_SMALL"
  shows "enc_ok (Small v :: 'd eterm)"
proof -
  consider "0 \<le> v" "v < 256" | "\<not> (0 \<le> v \<and> v < 256)" "- 2147483648 \<le> v" "v < 2147483648"
    | "\<not> (0 \<le> v \<and> v < 256)" "\<not> (- 2147483648 \<le> v \<and> v < 2147483648)" by linarith
  then show ?thesis
  proof cases
    case 1
    then have b: "(word_of_int v :: u64) < 256" using small_byte [OF assms] by simp
    have "uint (word_of_int v :: u8) = v" using 1 by (simp add: uint_word_of_int)
    with b show ?thesis by (intro enc_okI [of _ "[SMALL_INTEGER_EXT, word_of_int v]" 0]) (simp_all add: skip_bytes_def)
  next
    case 2
    then have b: "\<not> (word_of_int v :: u64) < 256" "IS_SSMALL32 v" using small_byte [OF assms] IS_SSMALL32_iff [OF assms] by simp_all
    have "sint (word_of_int v :: u32) = v" using 2(2,3) by (simp add: signed_of_int signed_take_bit_int_eq_self_iff)
    then have "sint (get_int32 (put_int32 v @ rest)) = v" for rest unfolding put_int32_be32 get_be32 .
    moreover have "length (put_int32 v) = 4" by (simp add: put_int32_def)
    ultimately show ?thesis using b by (intro enc_okI [of _ "INTEGER_EXT # put_int32 v" 0]) (simp_all add: skip_bytes_def)
  next
    case 3
    then have b: "\<not> (word_of_int v :: u64) < 256" "\<not> IS_SSMALL32 v" using small_byte [OF assms] IS_SSMALL32_iff [OF assms] by simp_all
    have "- 9223372036854775808 \<le> v" "v < 9223372036854775808" using assms by linarith+
    from small_to_big_ok [OF this] obtain neg d where d: "small_to_big v = (Big neg [d] :: 'd eterm)" "sval neg [d] = v" "neg \<longrightarrow> v < 0"
      by auto
    have v: "v \<noteq> 0" using 3 by auto
    have dv: "dval [d] = \<bar>v\<bar>" using sval_abs [of neg "[d]"] d(2) by simp
    have s: "neg \<longleftrightarrow> v < 0" using d(2,3) dval_nonneg [of "[d]"] v by (cases neg) auto
    have n: "normal [d]" "0 < dval [d]" using v dv by (simp_all add: normal_def)
    obtain bs where bs: "big_bytes (Big neg [d] :: 'd eterm) = Some (length bs)" "big_to_bytes (Big neg [d] :: 'd eterm) = Some bs"
        "int (le_val bs) = dval [d]" "length bs \<le> length [d] * 8"
      using big_to_bytes_ok [OF n] by blast
    have l: "length bs < 256" using bs(4) by simp
    have "big_val (of_bool (v < 0)) bs = v" unfolding big_val_of_bool bs(3) dv by simp
    with decoded_small_big [OF l, of "of_bool (v < 0)"] bs(1,2) b show ?thesis
      by (intro enc_okI [of _ "SMALL_BIG_EXT # of_nat (length bs) # of_bool (v < 0) # bs" "1 + (length bs + 7) div 8"])
        (simp_all add: d(1) del: decoded_integer_size.simps ext_val.simps)
  qed
qed

lemma enc_big_ok:
  assumes "int_ok (Big neg x :: 'd eterm)"
  shows "enc_ok (Big neg x :: 'd eterm)"
proof -
  have n: "normal x" "0 < dval x" "length x \<le> BIG_ARITY_MAX" using assms by (cases neg; simp)+
  obtain bs where bs: "big_bytes (Big neg x :: 'd eterm) = Some (length bs)" "big_to_bytes (Big neg x :: 'd eterm) = Some bs"
      "int (le_val bs) = dval x" "length bs \<le> length x * 8"
    using big_to_bytes_ok [OF n(1,2)] by blast
  have l: "length bs \<le> BIG_ARITY_MAX * 8" using bs(4) n(3) by linarith
  have v: "big_val (of_bool neg) bs = ival (Big neg x :: 'd eterm)" unfolding big_val_of_bool bs(3) by (cases neg) simp_all
  show ?thesis
  proof (cases "length bs < 256")
    case True
    with decoded_small_big [OF True, of "of_bool neg"] bs(1,2) v show ?thesis
      by (intro enc_okI [of _ "SMALL_BIG_EXT # of_nat (length bs) # of_bool neg # bs" "1 + (length bs + 7) div 8"])
        (simp_all del: decoded_integer_size.simps ext_val.simps big_bytes.simps big_to_bytes.simps)
  next
    case False
    have h: "length (put_int32 (int (length bs))) = 4" by (simp add: put_int32_def)
    from False decoded_large_big [OF l refl, of "of_bool neg"] bs(1,2) v h show ?thesis
      by (intro enc_okI [of _ "LARGE_BIG_EXT # put_int32 (int (length bs)) @ of_bool neg # bs" "1 + 1 + (length bs + 7) div 8"])
        (simp_all del: decoded_integer_size.simps ext_val.simps big_bytes.simps big_to_bytes.simps)
  qed
qed

lemma enc_integer_ok: "int_ok t \<Longrightarrow> enc_ok t"
  by (cases t) (simp_all add: enc_small_ok enc_big_ok)


section \<open>The interface library\<close>

text \<open>What \<open>ei_decode_longlong\<close> makes of an integer, and what \<open>ei_encode_longlong\<close> writes.\<close>

lemma get32be_int32: "4 \<le> length ep \<Longrightarrow> get32be (tag # ep) 1 = Some (get_int32 ep, 5)"
  by (auto simp: get32be_def get8_def get_int32_def eval_nat_numeral nat_add_distrib)

lemma ei_decode_longlong_ext:
  assumes "decoded_integer_size ep = Some (w, rest)"
  shows "ei_decode_longlong ep 0 =
    (if - (2 ^ 63) \<le> ext_val ep \<and> ext_val ep < 2 ^ 63
     then Some (Done (word_of_int (ext_val ep)), int (length ep) - int (length rest)) else Some (Fail, 0))"
proof (cases ep)
  case Nil
  with assms show ?thesis by simp
next
  case (Cons tag ep')
  have g: "get8 ep 0 = Some (tag, 1)" by (simp add: Cons get8_def)
  consider "tag = INTEGER_EXT" | "tag = SMALL_INTEGER_EXT" | "tag = SMALL_BIG_EXT" | "tag = LARGE_BIG_EXT"
    using assms Cons by (auto split: if_splits)
  then show ?thesis
  proof cases
    case 1
    then have l: "4 \<le> length ep'" "rest = drop 4 ep'" using assms Cons by (auto simp: skip_bytes_Some bind_eq_Some_conv)
    have "(scast (get_int32 ep') :: u64) = word_of_int (sint (get_int32 ep'))" by simp
    then show ?thesis using 1 l Cons get32be_int32 [OF l(1), of tag] g sint_u32_range [of "get_int32 ep'"]
      by (simp add: ei_decode_longlong_def)
  next
    case 2
    then have l: "1 \<le> length ep'" "rest = drop 1 ep'" using assms Cons by (auto simp: skip_bytes_Some bind_eq_Some_conv)
    have u: "- (2 ^ 63) \<le> uint (ep' ! 0)" "uint (ep' ! 0) < 2 ^ 63"
      using uint_bounded [of "ep' ! 0"] uint_nonnegative [of "ep' ! 0"] by (simp_all add: order_trans [of _ 0])
    have "get8 ep 1 = Some (ep' ! 0, 2)" using l by (auto simp: get8_def Cons)
    moreover have "(ucast (ep' ! 0) :: u64) = word_of_int (uint (ep' ! 0))" by simp
    ultimately show ?thesis using 2 l Cons g u by (simp add: ei_decode_longlong_def)
  next
    case 3
    let ?n = "unat (ep' ! 0)"
    have n: "1 + ?n < length ep'" "rest = drop (Suc 1 + ?n) ep'"
      using assms Cons 3 by (auto simp: skip_bytes_Some bind_eq_Some_conv Let_def split: if_splits)
    let ?ds = "take ?n (drop 2 ep')"
    have len: "length ?ds = ?n" using n(1) by simp
    have "drop 2 ep = ep' ! 1 # ?ds @ drop (Suc 1 + ?n) ep'" using list_parts [OF n(1)] by (simp add: Cons numeral_2_eq_2)
    then have s: "sees ep 2 (ep' ! 1 # ?ds)" using n(1) by (simp add: sees_def Cons)
    have "get8 ep 1 = Some (ep' ! 0, 2)" using n(1) by (auto simp: get8_def Cons)
    moreover have "uint (ep' ! 0) = int (length ?ds)" using len by simp
    ultimately have "ei_decode_longlong ep 0 = decode_big_signed 8 ep 0 2 (int (length ?ds))"
      using g 3 by (simp add: ei_decode_longlong_def)
    also note decode_big_signed_sees [OF _ s, of 8, where 'a = 64]
    finally show ?thesis using 3 n Cons len by (simp add: Let_def)
  next
    case 4
    let ?n = "unat (get_int32 ep')"
    have n: "4 + ?n < length ep'" "?n \<le> BIG_ARITY_MAX * 8" "rest = drop (?n + 5) ep'"
      using assms Cons 4 by (auto simp: skip_bytes_Some bind_eq_Some_conv Let_def split: if_splits)
    have u: "uint (get_int32 ep') = int ?n" by simp
    have "uint (get_int32 ep') < 2147483648" using n(2) unfolding u arity_max by linarith
    then have i: "sint (get_int32 ep') = int ?n" using sint_u32_small [of "get_int32 ep'"] u by (simp only:)
    let ?ds = "take ?n (drop 5 ep')"
    have len: "length ?ds = ?n" using n(1) by simp
    have "drop 5 ep = ep' ! 4 # ?ds @ drop (Suc 4 + ?n) ep'" using list_parts [OF n(1)] by (simp add: Cons)
    then have s: "sees ep 5 (ep' ! 4 # ?ds)" using n(1) by (simp add: sees_def Cons)
    have "4 \<le> length ep'" using n(1) by simp
    from get32be_int32 [OF this, of tag] have "get32be ep 1 = Some (get_int32 ep', 5)" by (simp add: Cons)
    then have "ei_decode_longlong ep 0 = decode_big_signed 8 ep 0 5 (int (length ?ds))"
      using g 4 i len by (simp add: ei_decode_longlong_def)
    also note decode_big_signed_sees [OF _ s, of 8, where 'a = 64]
    finally show ?thesis using 4 n Cons len by (simp add: Let_def)
  qed
qed

lemma ext_longlong_decoded:
  "\<exists>w. decoded_integer_size (ext_longlong p @ rest) = Some (w, rest) \<and> ext_val (ext_longlong p @ rest) = sint p"
proof -
  consider "sint p < 256 \<and> 0 \<le> sint p" | "\<not> (sint p < 256 \<and> 0 \<le> sint p)" "sint p \<le> ERL_MAX \<and> ERL_MIN \<le> sint p"
    | "\<not> (sint p < 256 \<and> 0 \<le> sint p)" "\<not> (sint p \<le> ERL_MAX \<and> ERL_MIN \<le> sint p)" by blast
  then show ?thesis
  proof cases
    case 1
    then have "uint p = sint p" by (intro uint_of_sint) simp
    then have "uint (ucast p :: u8) = sint p" using 1 by (simp add: unsigned_ucast_eq take_bit_eq_mod)
    with 1 show ?thesis by (simp add: ext_longlong_def skip_bytes_def)
  next
    case 2
    then have v: "- 2147483648 \<le> sint p" "sint p < 2147483648" by simp_all
    have "be32 p = put_int32 (sint p)"
      by (auto simp: put_int32_def be32_def bit_word_of_int_iff bit_unsigned_iff bit_drop_bit_eq bit_ucast_iff bit_sint_iff bit_signed_iff min_def
          intro!: bit_word_eqI)
    moreover have "sint (word_of_int (sint p) :: u32) = sint p"
      using v by (simp only: signed_of_int) (simp add: signed_take_bit_int_eq_self_iff)
    then have "sint (get_int32 (put_int32 (sint p) @ rest)) = sint p" unfolding put_int32_be32 get_be32 .
    moreover have "length (put_int32 (sint p)) = 4" by (simp add: put_int32_def)
    moreover have "ext_longlong p = INTEGER_EXT # be32 p" unfolding ext_longlong_def if_not_P [OF 2(1)] if_P [OF 2(2)] ..
    ultimately show ?thesis by (simp add: skip_bytes_def)
  next
    case 3
    let ?up = "if sint p < 0 then - p else p"
    have l: "length (le_digits ?up) < 256" using length_le_digits_8 [of ?up] by simp
    have "int (le_val (le_digits ?up)) = \<bar>sint p\<bar>"
    proof (cases "sint p < 0")
      case True
      then show ?thesis using uint_of_sint(1) [OF True] by (simp flip: uint_nat)
    next
      case False
      then have "0 \<le> sint p" by simp
      with False show ?thesis using uint_of_sint(2) [of p] by (simp flip: uint_nat)
    qed
    then have "big_val (of_bool (sint p < 0)) (le_digits ?up) = sint p" unfolding big_val_of_bool by (simp only:) simp
    moreover have "ext_longlong p = SMALL_BIG_EXT # of_nat (length (le_digits ?up)) # of_bool (sint p < 0) # le_digits ?up"
      using 3 by (simp add: ext_longlong_def ext_big_def)
    ultimately show ?thesis using decoded_small_big [OF l, of "of_bool (sint p < 0)" rest] by simp
  qed
qed


section \<open>Properties\<close>

text \<open>
  C7. Validated input is decoded: when \<open>decoded_size\<close> accepts the bytes of an integer, \<open>dec_term\<close> reads
  them within the bytes and the heap words that \<open>decoded_size\<close> counted, without an error, and gives a
  well-formed integer term (a small in its range, or a bignum outside of it without leading zero digits)
  of the value the bytes denote, whatever leading zero bytes or sign byte they have.
\<close>

theorem dec_integer_well_formed:
  assumes "decoded_integer_size ep = Some (w, rest)"
  shows "\<exists>t. dec_integer ep w = Some (Decoded (t :: 'd eterm) rest) \<and> int_ok t \<and> ival t = ext_val ep"
  using assms by (rule dec_integer_ok)

theorem dec_integer_well_formed_witness:
  "\<exists>t. dec_integer [SMALL_BIG_EXT, 3, 7, 5, 1, 0, 9] 2 = Some (Decoded (t :: unit eterm) [9]) \<and> int_ok t \<and> ival t = - 261"
proof -
  have "decoded_integer_size [SMALL_BIG_EXT, 3, 7, 5, 1, 0, 9] = Some (2, [9])" by (simp add: skip_bytes_def)
  from dec_integer_well_formed [OF this, where 'd = unit] show ?thesis by (simp add: big_val_def)
qed

text \<open>
  C6. The encoding of every well-formed integer term has the size that the size computation gives, is
  accepted by \<open>decoded_size\<close>, and is decoded to the same term, whatever bytes follow.
\<close>

theorem enc_integer_round_trip:
  assumes "int_ok t"
  shows "\<exists>bs w. enc_integer t = Some bs \<and> encode_integer_size t = Some (length bs)
    \<and> (\<forall>rest. decoded_integer_size (bs @ rest) = Some (w, rest) \<and> dec_integer (bs @ rest) w = Some (Decoded t rest))"
proof -
  from enc_integer_ok [OF assms] obtain bs w where e: "enc_integer t = Some bs" "encode_integer_size t = Some (length bs)"
    "\<And>rest. decoded_integer_size (bs @ rest) = Some (w, rest)" "\<And>rest. ext_val (bs @ rest) = ival t"
    unfolding enc_ok_def by blast
  have "dec_integer (bs @ rest) w = Some (Decoded t rest)" for rest
    using dec_integer_ok [OF e(3) [of rest]] int_ok_inj [OF assms] unfolding e(4) by metis
  with e show ?thesis by blast
qed

theorem enc_integer_round_trip_witness:
  "\<exists>bs w. enc_integer (Big True [0, 1] :: unit eterm) = Some bs \<and> encode_integer_size (Big True [0, 1] :: unit eterm) = Some (length bs)
    \<and> (\<forall>rest. decoded_integer_size (bs @ rest) = Some (w, rest)
        \<and> dec_integer (bs @ rest) w = Some (Decoded (Big True [0, 1] :: unit eterm) rest))"
proof -
  have "int_ok (Big True [0, 1] :: unit eterm)" by (simp add: normal_def arity_max)
  then show ?thesis by (rule enc_integer_round_trip)
qed

end
