(* ===== verification/Erts_Bits.thy ===== *)
theory Erts_Bits
  imports Erts_Bignum
begin

text \<open>
  Bit operations and shifts of integers in \<open>erts/emulator/beam/big.c\<close>.  A negative number is stored as its
  magnitude; the operations work on the digits of the magnitude minus one, whose complement is the
  two's complement of the number, and turn a negative result back to a magnitude.
\<close>

section \<open>Definitions\<close>

abbreviation "D_MASK \<equiv> (- 1 :: u64)"

subsection \<open>The end of a bit operation\<close>

text \<open>\<open>room\<close> is the number of digits that can be stored at \<open>r\<close>.\<close>

text \<open>The digits from the highest on, without those that are all ones, but with the lowest one.\<close>

fun strip_ones :: "digits \<Rightarrow> digits" where
  "strip_ones (d # e # ds) = (if d = D_MASK then strip_ones (e # ds) else d # e # ds)"
| "strip_ones ds = ds"

partial_function (option) lead_mask :: "u64 \<Rightarrow> u64 \<Rightarrow> u64 \<Rightarrow> u64 option" where
  "lead_mask d prev_mask msk =
     (if d AND msk = msk then lead_mask d msk (drop_bit 1 msk OR push_bit 63 1) else Some prev_mask)"

text \<open>The highest digit, complemented; the loop over the mask may only run on a digit with a zero bit.\<close>

definition btrail_top :: "u64 \<Rightarrow> u64 option" where
  "btrail_top d =
     (if d = D_MASK then Some 0
      else do { prev_mask \<leftarrow> lead_mask d 0 (push_bit 63 1); Some (NOT d AND NOT prev_mask) })"

definition I_btrail :: "digits \<Rightarrow> bool \<Rightarrow> nat \<Rightarrow> digits option" where
  "I_btrail r sign room =
     (if r = [] \<or> length r > room then None
      else if sign then do {
        let ds = strip_ones (rev r);
        top \<leftarrow> btrail_top (hd ds);
        fits room (D_add (rev (top # map (\<lambda>d. NOT d) (tl ds))) 1) }
      else Some (strip r))"

subsection \<open>Bit operations\<close>

text \<open>The digits of the magnitude minus one: \<open>DSUB\<close> on the lowest digit, \<open>DSUBb\<close> on the others.\<close>

fun borrow_digits :: "digits \<Rightarrow> u64 \<Rightarrow> digits" where
  "borrow_digits [] b = []"
| "borrow_digits (y # ys) b = (let (c, b) = DSUBb y 0 b in c # borrow_digits ys b)"

fun minus_one :: "digits \<Rightarrow> digits" where
  "minus_one [] = []"
| "minus_one (y # ys) = (let (c, b) = DSUB y 1 in c # borrow_digits ys b)"

definition I_band :: "digits \<Rightarrow> bool \<Rightarrow> digits \<Rightarrow> bool \<Rightarrow> nat \<Rightarrow> digits option" where
  "I_band x xsgn y ysgn room =
     (if y = [] \<or> length x < length y then None
      else I_btrail
        (if \<not> xsgn then
           (if \<not> ysgn then map2 (\<lambda>x y. x AND y) x y
            else map2 (\<lambda>x c. x AND NOT c) x (minus_one y) @ drop (length y) x)
         else
           (if \<not> ysgn then map2 (\<lambda>c y. NOT c AND y) (minus_one x) y
            else map2 (\<lambda>c1 c2. NOT c1 AND NOT c2) (minus_one x) (minus_one y) @ map (\<lambda>c. NOT c) (drop (length y) (minus_one x))))
        (xsgn \<and> ysgn) room)"

definition I_bor :: "digits \<Rightarrow> bool \<Rightarrow> digits \<Rightarrow> bool \<Rightarrow> nat \<Rightarrow> digits option" where
  "I_bor x xsgn y ysgn room =
     (if y = [] \<or> length x < length y then None
      else I_btrail
        (if \<not> xsgn then
           (if \<not> ysgn then map2 (\<lambda>x y. x OR y) x y @ drop (length y) x
            else map2 (\<lambda>x c. x OR NOT c) x (minus_one y))
         else
           (if \<not> ysgn then map2 (\<lambda>c y. NOT c OR y) (minus_one x) y @ map (\<lambda>c. NOT c) (drop (length y) (minus_one x))
            else map2 (\<lambda>c1 c2. NOT c1 OR NOT c2) (minus_one x) (minus_one y)))
        (xsgn \<or> ysgn) room)"

definition I_bxor :: "digits \<Rightarrow> bool \<Rightarrow> digits \<Rightarrow> bool \<Rightarrow> nat \<Rightarrow> digits option" where
  "I_bxor x xsgn y ysgn room =
     (if y = [] \<or> length x < length y then None
      else I_btrail
        (if \<not> xsgn then
           (if \<not> ysgn then map2 (\<lambda>x y. x XOR y) x y @ drop (length y) x
            else map2 (\<lambda>x c. x XOR NOT c) x (minus_one y) @ map (\<lambda>d. NOT d) (drop (length y) x))
         else
           (if \<not> ysgn then map2 (\<lambda>c y. NOT c XOR y) (minus_one x) y @ map (\<lambda>c. NOT c) (drop (length y) (minus_one x))
            else map2 (\<lambda>c1 c2. NOT c1 XOR NOT c2) (minus_one x) (minus_one y) @ drop (length y) (minus_one x)))
        (xsgn \<noteq> ysgn) room)"

definition I_bnot :: "digits \<Rightarrow> bool \<Rightarrow> digits option" where
  "I_bnot x xsgn = (if xsgn then Some (D_add x 1) else D_sub x 1)"

text \<open>An operation on two bignums, the longer one first.\<close>

definition big_bitop ::
  "(digits \<Rightarrow> bool \<Rightarrow> digits \<Rightarrow> bool \<Rightarrow> nat \<Rightarrow> digits option) \<Rightarrow> digits \<Rightarrow> bool \<Rightarrow> digits \<Rightarrow> bool \<Rightarrow> bool \<Rightarrow> nat \<Rightarrow> 'd eterm option" where
  "big_bitop f x xsgn y ysgn sign room = do {
     r \<leftarrow> (if length x \<ge> length y then f x xsgn y ysgn room else f y ysgn x xsgn room);
     Some (big_norm r sign) }"

fun big_band :: "'d eterm \<Rightarrow> 'd eterm \<Rightarrow> nat \<Rightarrow> 'd eterm option" where
  "big_band (Big xsgn x) (Big ysgn y) room = big_bitop I_band x xsgn y ysgn (xsgn \<and> ysgn) room"
| "big_band _ _ _ = None"

fun big_bor :: "'d eterm \<Rightarrow> 'd eterm \<Rightarrow> nat \<Rightarrow> 'd eterm option" where
  "big_bor (Big xsgn x) (Big ysgn y) room = big_bitop I_bor x xsgn y ysgn (xsgn \<or> ysgn) room"
| "big_bor _ _ _ = None"

fun big_bxor :: "'d eterm \<Rightarrow> 'd eterm \<Rightarrow> nat \<Rightarrow> 'd eterm option" where
  "big_bxor (Big xsgn x) (Big ysgn y) room = big_bitop I_bxor x xsgn y ysgn (xsgn \<noteq> ysgn) room"
| "big_bxor _ _ _ = None"

fun big_bnot :: "'d eterm \<Rightarrow> nat \<Rightarrow> 'd eterm option" where
  "big_bnot (Big xsgn x) room = do {
     let sign = (\<not> xsgn);
     _ \<leftarrow> fits room x;
     r \<leftarrow> I_bnot x sign;
     r \<leftarrow> fits room r;
     Some (big_norm r sign) }"
| "big_bnot _ _ = None"

subsection \<open>Shifts\<close>

text \<open>To the left by \<open>sw\<close> bits of a digit, from the lowest digit on; \<open>a1\<close> are the bits from the digit below.\<close>

fun shl_loop :: "nat \<Rightarrow> digits \<Rightarrow> u64 \<Rightarrow> digits" where
  "shl_loop sw [] a1 = (if a1 = 0 then [] else [a1])"
| "shl_loop sw (x # xs) a1 = (push_bit sw x OR a1) # shl_loop sw xs (drop_bit (64 - sw) x)"

text \<open>To the right, from the highest digit on; gives the digits from the highest on and the bits shifted out.\<close>

fun shr_loop :: "nat \<Rightarrow> digits \<Rightarrow> u64 \<Rightarrow> digits \<times> u64" where
  "shr_loop sw [] a0 = ([], a0)"
| "shr_loop sw (x # xs) a0 =
     (let (r, a0') = shr_loop sw xs (push_bit (64 - sw) x) in ((drop_bit sw x OR a0) # r, a0'))"

definition I_lshift :: "digits \<Rightarrow> int \<Rightarrow> bool \<Rightarrow> nat \<Rightarrow> digits option" where
  "I_lshift x y sign room =
     (if y = 0 then fits room x
      else if x = [0] then fits room [0]
      else
        let ay = nat \<bar>y\<bar>; bw = ay div 64; sw = ay mod 64 in
        if y > 0 then fits room (replicate bw 0 @ (if sw \<noteq> 0 then shl_loop sw x 0 else x))
        else if length x \<le> bw then fits room (if sign then [1] else [0])
        else
          let (r, a0) = (if sw \<noteq> 0 then shr_loop sw (rev (drop bw x)) 0 else (rev (drop bw x), 0));
              add_one = (sign \<and> ((\<exists>d \<in> set (take bw x). d \<noteq> 0) \<or> a0 \<noteq> 0))
          in do {
            _ \<leftarrow> fits room r;
            if hd r = 0 \<and> length r = 1 then Some (if sign then [1] else [0])
            else let r = rev (if hd r = 0 then tl r else r) in if add_one then fits room (D_add r 1) else Some r })"

fun big_lshift :: "'d eterm \<Rightarrow> int \<Rightarrow> nat \<Rightarrow> 'd eterm option" where
  "big_lshift (Big sign x) y room = do { r \<leftarrow> I_lshift x y sign room; Some (big_norm r sign) }"
| "big_lshift _ _ _ = None"


section \<open>Bits of vectors\<close>

text \<open>The bits of an integer given by its digits, all further ones being \<open>sign\<close>.\<close>

definition digit_bit :: "digits \<Rightarrow> bool \<Rightarrow> nat \<Rightarrow> bool" where
  "digit_bit r sign i \<longleftrightarrow> (if i div 64 < length r then bit (r ! (i div 64)) (i mod 64) else sign)"

lemma bit_dval: "bit (dval r) i \<longleftrightarrow> digit_bit r False i"
proof (induction r arbitrary: i)
  case Nil
  then show ?case by (simp add: digit_bit_def)
next
  case (Cons d r)
  have out: "\<not> bit d n" if "64 \<le> n" for n using bit_imp_le_length [of d n] that by auto
  have "uint d AND push_bit 64 (dval r) = 0"
    by (rule bit_eqI) (auto simp: bit_and_iff bit_push_bit_iff bit_uint_iff out)
  then have "uint d OR push_bit 64 (dval r) = uint d + push_bit 64 (dval r)"
    using plus_and_or [of "uint d" "push_bit 64 (dval r)"] by linarith
  then have "dval (d # r) = uint d OR push_bit 64 (dval r)" by (simp add: push_bit_eq_mult)
  then have b: "bit (dval (d # r)) i \<longleftrightarrow> (i < 64 \<and> bit d i) \<or> (64 \<le> i \<and> bit (dval r) (i - 64))"
    by (simp only: bit_or_iff bit_push_bit_iff bit_uint_iff) (auto simp: out)
  show ?case
  proof (cases "i < 64")
    case True
    then show ?thesis unfolding b by (simp add: digit_bit_def)
  next
    case False
    then have "i div 64 = Suc ((i - 64) div 64)" "i mod 64 = (i - 64) mod 64"
      using le_div_geq [of 64 i] le_mod_geq [of 64 i] by simp_all
    with False show ?thesis unfolding b by (simp add: Cons.IH digit_bit_def)
  qed
qed

lemma dval_not: "dval (map (\<lambda>d. NOT d) r) = D_BASE ^ length r - 1 - dval r"
proof (induction r)
  case (Cons d r)
  have "uint (NOT d) = mask 64 - take_bit 64 (uint d)" by (simp only: unsigned_not_eq take_bit_not_eq_mask_diff) simp
  also have "\<dots> = D_BASE - 1 - uint d" using u64_bounds [of d] by (simp add: mask_eq_exp_minus_1 take_bit_eq_mod mod_pos_pos_trivial)
  finally have "dval (map (\<lambda>d. NOT d) (d # r)) = D_BASE - 1 - uint d + D_BASE * (D_BASE ^ length r - 1 - dval r)"
    by (simp only: list.map dval.simps Cons.IH)
  then show ?case by (simp only: dval.simps list.size power_Suc right_diff_distrib) simp
qed simp

text \<open>The value of digits followed by infinitely many sign bits.\<close>

definition tval :: "bool \<Rightarrow> digits \<Rightarrow> int" where
  "tval sign r = (if sign then dval r - D_BASE ^ length r else dval r)"

lemma tval_not: "tval True r = NOT (dval (map (\<lambda>d. NOT d) r))"
proof -
  have "NOT v = - v - 1" for v :: int by (rule not_eq_complement)
  then show ?thesis by (simp only: dval_not) (simp add: tval_def)
qed

lemma bit_tval: "bit (tval sign r) i \<longleftrightarrow> digit_bit r sign i"
proof (cases sign)
  case True
  have "bit (NOT d) (i mod 64) \<longleftrightarrow> \<not> bit d (i mod 64)" for d :: u64 by (simp add: bit_not_iff)
  then have "bit (NOT (dval (map (\<lambda>d. NOT d) r))) i \<longleftrightarrow> digit_bit r True i"
    unfolding bit_not_int_iff bit_dval by (simp add: digit_bit_def)
  with True show ?thesis by (simp only: tval_not)
next
  case False
  then show ?thesis by (simp add: tval_def bit_dval)
qed

lemma tval_eqI: "(\<And>i. digit_bit r sign i \<longleftrightarrow> bit v i) \<Longrightarrow> tval sign r = v"
  by (rule bit_eqI) (simp add: bit_tval)



section \<open>The end of a bit operation\<close>

definition top_ones :: "nat \<Rightarrow> u64" where
  "top_ones k = NOT (mask (64 - k))"

lemma bit_top_ones: "bit (top_ones k) n \<longleftrightarrow> n < 64 \<and> 64 - k \<le> n"
  by (auto simp: top_ones_def bit_not_iff bit_mask_iff)

lemma bit_high: "bit (push_bit 63 1 :: u64) n \<longleftrightarrow> n = 63"
  by (simp only: bit_push_bit_iff bit_1_iff) auto

lemma top_ones_Suc: "0 < k \<Longrightarrow> drop_bit 1 (top_ones k) OR push_bit 63 1 = top_ones (Suc k)"
  by (rule bit_word_eqI) (simp only: bit_top_ones bit_or_iff bit_drop_bit_eq bit_high comp_def; auto)

text \<open>The loop over the mask ends on every digit that has a zero bit, with leading ones of the digit.\<close>

lemma lead_mask_ok:
  assumes "d \<noteq> D_MASK" and "k < 64" and "d AND top_ones k = top_ones k"
  shows "\<exists>p. lead_mask d (top_ones k) (top_ones (Suc k)) = Some p \<and> d AND p = p"
  using assms(2,3)
proof (induction "64 - k" arbitrary: k)
  case (Suc n)
  show ?case
  proof (cases "d AND top_ones (Suc k) = top_ones (Suc k)")
    case True
    have "Suc k \<noteq> 64" using True assms(1) by (auto simp: top_ones_def)
    with Suc.prems(1) have "Suc k < 64" by simp
    with Suc.hyps(1) [of "Suc k"] Suc.hyps(2) True
    have "\<exists>p. lead_mask d (top_ones (Suc k)) (top_ones (Suc (Suc k))) = Some p \<and> d AND p = p" by simp
    then show ?thesis using True top_ones_Suc [of "Suc k"] by (subst lead_mask.simps) simp
  next
    case False
    with Suc.prems(2) show ?thesis by (subst lead_mask.simps) simp
  qed
qed simp

lemma btrail_top_not: "btrail_top d = Some (NOT d)"
proof (cases "d = D_MASK")
  case True
  then show ?thesis by (simp add: btrail_top_def)
next
  case False
  have "top_ones 0 = 0" "top_ones (Suc 0) = push_bit 63 1"
    by (rule bit_word_eqI; simp only: bit_top_ones bit_high; auto)+
  with lead_mask_ok [OF False, of 0] obtain p where p: "lead_mask d 0 (push_bit 63 1) = Some p" "d AND p = p" by auto
  have "NOT d AND NOT p = NOT d"
  proof (rule bit_word_eqI)
    fix n
    have "bit p n \<Longrightarrow> bit d n" using p(2) by (metis bit_and_iff)
    then show "bit (NOT d AND NOT p) n \<longleftrightarrow> bit (NOT d) n" by (auto simp: bit_and_iff bit_not_iff)
  qed
  with p(1) False show ?thesis by (simp add: btrail_top_def)
qed

lemma strip_ones_prefix: "\<exists>n. ds = replicate n D_MASK @ strip_ones ds"
proof (induction ds rule: strip_ones.induct)
  case (1 d e ds)
  show ?case
  proof (cases "d = D_MASK")
    case True
    with 1 obtain n where "e # ds = replicate n D_MASK @ strip_ones (e # ds)" by blast
    with True have "d # e # ds = replicate (Suc n) D_MASK @ strip_ones (d # e # ds)" by simp
    then show ?thesis ..
  next
    case False
    then show ?thesis by (intro exI [of _ 0]) simp
  qed
qed (simp_all add: exI [of _ 0])

lemma strip_ones_top: "ds \<noteq> [] \<Longrightarrow> strip_ones ds \<noteq> [] \<and> (hd (strip_ones ds) \<noteq> D_MASK \<or> length (strip_ones ds) = 1)"
  by (induction ds rule: strip_ones.induct) auto

lemma tval_ones: "tval True (r @ replicate n D_MASK) = tval True r"
proof (rule tval_eqI)
  fix i
  have "bit D_MASK (i mod 64)" by (simp add: bit_minus_1_iff)
  then show "digit_bit (r @ replicate n D_MASK) True i \<longleftrightarrow> bit (tval True r) i"
    unfolding bit_tval by (auto simp: digit_bit_def nth_append)
qed

lemma I_btrail_ok:
  assumes "r \<noteq> []" and "length r < room"
  shows "\<exists>s. I_btrail r sign room = Some s \<and> normal s \<and> sval sign s = tval sign r"
proof (cases sign)
  case True
  let ?ds = "strip_ones (rev r)"
  obtain n where n: "rev r = replicate n D_MASK @ ?ds" using strip_ones_prefix by blast
  have "r = rev ?ds @ replicate n D_MASK" using arg_cong [OF n, of rev] by simp
  then have v: "tval True r = tval True (rev ?ds)" by (metis tval_ones)
  have len: "length ?ds \<le> length r" using arg_cong [OF n, of length] by simp
  have top: "?ds \<noteq> []" "hd ?ds \<noteq> D_MASK \<or> length ?ds = 1" using strip_ones_top [of "rev r"] assms(1) by simp_all
  let ?m = "map (\<lambda>d. NOT d) (rev ?ds)"
  have m: "rev (NOT (hd ?ds) # map (\<lambda>d. NOT d) (tl ?ds)) = ?m" using top(1) by (simp add: rev_map flip: list.map(2))
  have "NOT (hd ?ds) = 0 \<longleftrightarrow> hd ?ds = D_MASK" by (metis bit.compl_one bit.double_compl)
  then have nm: "normal ?m" using top by (auto simp: normal_def last_map last_rev)
  have "length (D_add ?m 1) \<le> room" using D_add_length(2) [of ?m 1] len assms(2) by simp
  then have "I_btrail r sign room = Some (D_add ?m 1)"
    using True assms m by (simp add: I_btrail_def btrail_top_not fits_def)
  moreover have "sval True (D_add ?m 1) = tval True (rev ?ds)"
    using D_add_ok [OF nm, of 1] unfolding tval_def by (simp add: dval_not)
  ultimately show ?thesis using True v D_add_ok [OF nm, of 1] by auto
next
  case False
  with assms show ?thesis by (simp add: I_btrail_def strip_normal tval_def)
qed

lemma borrow_digits_sub: "borrow_digits ys b = D_sub_loop ys b"
  by (induction ys arbitrary: b) (simp_all add: DSUBb_def Let_def)

lemma minus_one_sub: "minus_one ys = D_sub_loop ys 1"
  by (cases ys) (simp_all add: DSUB_def Let_def borrow_digits_sub)

lemma length_minus_one [simp]: "length (minus_one ys) = length ys"
  by (simp add: minus_one_sub)

lemma minus_one_val:
  assumes "ys \<noteq> []" and "0 < dval ys"
  shows "dval (minus_one ys) = dval ys - 1"
proof -
  obtain b where b: "b = 0 \<or> b = 1" "dval (minus_one ys) = dval ys - 1 + b * D_BASE ^ length ys"
    using D_sub_loop_val [of 1 ys] by (auto simp: minus_one_sub)
  have "dval (minus_one ys) < D_BASE ^ length ys" using dval_less [of "minus_one ys"] by simp
  with b assms(2) show ?thesis by auto
qed



section \<open>Bit operations\<close>

text \<open>The digits of the two's complement of a number.\<close>

definition twos :: "bool \<Rightarrow> digits \<Rightarrow> digits" where
  "twos sign x = (if sign then map (\<lambda>c. NOT c) (minus_one x) else x)"

lemma length_twos [simp]: "length (twos sign x) = length x"
  by (simp add: twos_def)

text \<open>A signed vector; zero is not negative.\<close>

definition svec :: "bool \<Rightarrow> digits \<Rightarrow> bool" where
  "svec sign x \<longleftrightarrow> normal x \<and> (sign \<longrightarrow> 0 < dval x)"

lemma twos_val:
  assumes "svec sign x"
  shows "tval sign (twos sign x) = sval sign x"
proof (cases sign)
  case True
  have "x \<noteq> []" "0 < dval x" using assms True by (auto simp: svec_def normal_def)
  with True minus_one_val [of x] show ?thesis by (simp add: twos_def tval_def dval_not)
next
  case False
  then show ?thesis by (simp add: twos_def tval_def)
qed

lemma map2_map: "map2 f (map g xs) ys = map2 (\<lambda>x y. f (g x) y) xs ys" "map2 f xs (map h ys) = map2 (\<lambda>x y. f x (h y)) xs ys"
  by (simp_all add: zip_map1 zip_map2 case_prod_beta)

lemma I_band_twos:
  assumes "y \<noteq> []" and "length y \<le> length x"
  shows "I_band x xs y ys room =
    I_btrail (map2 (\<lambda>a b. a AND b) (twos xs x) (twos ys y) @ (if ys then drop (length y) (twos xs x) else [])) (xs \<and> ys) room"
  using assms by (cases xs; cases ys) (simp_all add: I_band_def twos_def map2_map drop_map)

lemma I_bor_twos:
  assumes "y \<noteq> []" and "length y \<le> length x"
  shows "I_bor x xs y ys room =
    I_btrail (map2 (\<lambda>a b. a OR b) (twos xs x) (twos ys y) @ (if ys then [] else drop (length y) (twos xs x))) (xs \<or> ys) room"
  using assms by (cases xs; cases ys) (simp_all add: I_bor_def twos_def map2_map drop_map)

lemma I_bxor_twos:
  assumes "y \<noteq> []" and "length y \<le> length x"
  shows "I_bxor x xs y ys room =
    I_btrail (map2 (\<lambda>a b. a XOR b) (twos xs x) (twos ys y)
        @ map (\<lambda>a. if ys then NOT a else a) (drop (length y) (twos xs x))) (xs \<noteq> ys) room"
  using assms by (cases xs; cases ys) (simp_all add: I_bxor_def twos_def map2_map drop_map comp_def del: bit.xor_compl_left bit.xor_compl_right)

text \<open>
  An operation on bits that is applied to the common digits of two vectors, and to the other digits of
  the longer one with the sign of the shorter one.
\<close>

lemma digit_bit_op:
  assumes len: "length Y \<le> length X"
    and f: "\<And>a b n. n < 64 \<Longrightarrow> bit (f a b) n \<longleftrightarrow> opr (bit a n) (bit b n)"
    and g: "\<And>a n. n < 64 \<Longrightarrow> bit (g a) n \<longleftrightarrow> opr (bit a n) ys"
  shows "digit_bit (map2 f X Y @ map g (drop (length Y) X)) (opr xs ys) i \<longleftrightarrow> opr (digit_bit X xs i) (digit_bit Y ys i)"
proof -
  let ?k = "i div 64"
  consider "?k < length Y" | "length Y \<le> ?k" "?k < length X" | "length X \<le> ?k" by linarith
  then show ?thesis
  proof cases
    case 1
    with len show ?thesis by (simp add: digit_bit_def nth_append f)
  next
    case 2
    with len show ?thesis by (simp add: digit_bit_def nth_append g)
  next
    case 3
    with len show ?thesis by (simp add: digit_bit_def)
  qed
qed

lemma digit_bit_op_short:
  assumes len: "length Y \<le> length X"
    and f: "\<And>a b n. n < 64 \<Longrightarrow> bit (f a b) n \<longleftrightarrow> opr (bit a n) (bit b n)" and c: "\<And>a. opr a ys = opr xs ys"
  shows "digit_bit (map2 f X Y) (opr xs ys) i \<longleftrightarrow> opr (digit_bit X xs i) (digit_bit Y ys i)"
proof (cases "i div 64 < length Y")
  case True
  with len show ?thesis by (simp add: digit_bit_def f)
next
  case False
  with len have "digit_bit Y ys i = ys" "digit_bit (map2 f X Y) (opr xs ys) i = opr xs ys" by (simp_all add: digit_bit_def)
  with c [of "digit_bit X xs i"] show ?thesis by simp
qed

text \<open>The operations with the longer operand first.\<close>

definition bitop_ok :: "(digits \<Rightarrow> bool \<Rightarrow> digits \<Rightarrow> bool \<Rightarrow> nat \<Rightarrow> digits option) \<Rightarrow> (bool \<Rightarrow> bool \<Rightarrow> bool) \<Rightarrow> (int \<Rightarrow> int \<Rightarrow> int) \<Rightarrow> bool" where
  "bitop_ok F opr G \<longleftrightarrow> (\<forall>x xs y ys room. svec xs x \<and> svec ys y \<and> length y \<le> length x \<and> length x < room
    \<longrightarrow> (\<exists>r. F x xs y ys room = Some r \<and> normal r \<and> sval (opr xs ys) r = G (sval xs x) (sval ys y)))"

lemma bitop_okI:
  assumes F: "\<And>x xs y ys room. y \<noteq> [] \<Longrightarrow> length y \<le> length x \<Longrightarrow> F x xs y ys room = I_btrail (R (twos xs x) (twos ys y) ys) (opr xs ys) room"
    and len: "\<And>X Y ys. length Y \<le> length X \<Longrightarrow> length Y \<le> length (R X Y ys) \<and> length (R X Y ys) \<le> length X"
    and R: "\<And>X Y xs ys i. length Y \<le> length X \<Longrightarrow> digit_bit (R X Y ys) (opr xs ys) i \<longleftrightarrow> opr (digit_bit X xs i) (digit_bit Y ys i)"
    and G: "\<And>v w i. bit (G v w) i \<longleftrightarrow> opr (bit v i) (bit w i)"
  shows "bitop_ok F opr G"
  unfolding bitop_ok_def
proof (intro allI impI, elim conjE)
  fix x xs y ys room
  assume a: "svec xs x" "svec ys y" "length y \<le> length x" "length x < room"
  let ?R = "R (twos xs x) (twos ys y) ys"
  have y: "y \<noteq> []" using a(2) by (auto simp: svec_def normal_def)
  have l: "length y \<le> length ?R" "length ?R \<le> length x" using len [of "twos ys y" "twos xs x" ys] a(3) by simp_all
  have "?R \<noteq> []" using l(1) y by auto
  with l a(4) obtain s where s: "I_btrail ?R (opr xs ys) room = Some s" "normal s" "sval (opr xs ys) s = tval (opr xs ys) ?R"
    using I_btrail_ok [of ?R room "opr xs ys"] by auto
  have "tval (opr xs ys) ?R = G (tval xs (twos xs x)) (tval ys (twos ys y))"
    using a(3) by (intro tval_eqI) (simp add: R G bit_tval)
  with s F [OF y a(3)] show "\<exists>r. F x xs y ys room = Some r \<and> normal r \<and> sval (opr xs ys) r = G (sval xs x) (sval ys y)"
    by (simp add: twos_val a(1,2))
qed

lemma I_band_ok: "bitop_ok I_band (\<and>) (\<lambda>v w. v AND w)"
proof (rule bitop_okI [where R = "\<lambda>X Y ys. map2 (\<lambda>a b. a AND b) X Y @ (if ys then drop (length Y) X else [])"])
  fix X Y :: digits and xs ys i
  assume l: "length Y \<le> length X"
  show "digit_bit (map2 (\<lambda>a b. a AND b) X Y @ (if ys then drop (length Y) X else [])) (xs \<and> ys) i \<longleftrightarrow> digit_bit X xs i \<and> digit_bit Y ys i"
    using digit_bit_op [OF l, of "\<lambda>a b. a AND b" "(\<and>)" "\<lambda>a. a" ys xs i] digit_bit_op_short [OF l, of "\<lambda>a b. a AND b" "(\<and>)" ys xs i]
    by (cases ys) (simp_all add: bit_and_iff)
qed (auto simp: I_band_twos bit_and_iff)

lemma I_bor_ok: "bitop_ok I_bor (\<or>) (\<lambda>v w. v OR w)"
proof (rule bitop_okI [where R = "\<lambda>X Y ys. map2 (\<lambda>a b. a OR b) X Y @ (if ys then [] else drop (length Y) X)"])
  fix X Y :: digits and xs ys i
  assume l: "length Y \<le> length X"
  show "digit_bit (map2 (\<lambda>a b. a OR b) X Y @ (if ys then [] else drop (length Y) X)) (xs \<or> ys) i \<longleftrightarrow> digit_bit X xs i \<or> digit_bit Y ys i"
    using digit_bit_op [OF l, of "\<lambda>a b. a OR b" "(\<or>)" "\<lambda>a. a" ys xs i] digit_bit_op_short [OF l, of "\<lambda>a b. a OR b" "(\<or>)" ys xs i]
    by (cases ys) (simp_all add: bit_or_iff)
qed (auto simp: I_bor_twos bit_or_iff)

lemma I_bxor_ok: "bitop_ok I_bxor (\<noteq>) (\<lambda>v w. v XOR w)"
proof (rule bitop_okI [where R = "\<lambda>X Y ys. map2 (\<lambda>a b. a XOR b) X Y @ map (\<lambda>a. if ys then NOT a else a) (drop (length Y) X)"])
  fix X Y :: digits and xs ys i
  assume l: "length Y \<le> length X"
  have "bit (if ys then NOT a else a) n \<longleftrightarrow> bit a n \<noteq> ys" if "n < 64" for a :: u64 and n using that by (simp add: bit_not_iff)
  then show "digit_bit (map2 (\<lambda>a b. a XOR b) X Y @ map (\<lambda>a. if ys then NOT a else a) (drop (length Y) X)) (xs \<noteq> ys) i
      \<longleftrightarrow> digit_bit X xs i \<noteq> digit_bit Y ys i"
    by (intro digit_bit_op [OF l]) (simp_all only: bit_xor_iff)
qed (auto simp: I_bxor_twos bit_xor_iff)

lemma big_bitop_ok:
  assumes F: "bitop_ok F opr G" and comm: "\<And>a b. opr a b = opr b a" "\<And>v w. G v w = G w v"
    and x: "svec xs x" and y: "svec ys y" and room: "max (length x) (length y) < room"
  shows "\<exists>t. big_bitop F x xs y ys (opr xs ys) room = Some t \<and> int_res t (G (sval xs x) (sval ys y))"
proof (cases "length x \<ge> length y")
  case True
  with F x y room obtain r where r: "F x xs y ys room = Some r" "normal r" "sval (opr xs ys) r = G (sval xs x) (sval ys y)"
    unfolding bitop_ok_def by (metis max.strict_boundedE)
  then show ?thesis using True big_norm_res [OF r(2), of "opr xs ys"] unfolding r(3) by (simp add: big_bitop_def)
next
  case False
  with F x y room obtain r where r: "F y ys x xs room = Some r" "normal r" "sval (opr ys xs) r = G (sval ys y) (sval xs x)"
    unfolding bitop_ok_def by (metis max.strict_boundedE nle_le)
  then show ?thesis using False big_norm_res [OF r(2), of "opr xs ys"]
    unfolding r(3) comm(1) [of xs ys] comm(2) [of "sval xs x"] by (simp add: big_bitop_def)
qed


lemma bnot_ok:
  assumes "svec xs x" and "length x < room"
  shows "\<exists>t. big_bnot (Big xs x) room = Some t \<and> int_res t (NOT (sval xs x))"
proof -
  have n: "normal x" and ne: "x \<noteq> []" and l: "length x \<le> room" using assms by (auto simp: svec_def normal_def)
  obtain r where r: "I_bnot x (\<not> xs) = Some r" "length r \<le> room" "normal r" "sval (\<not> xs) r = NOT (sval xs x)"
  proof (cases xs)
    case True
    then have "uint (1 :: u64) \<le> dval x" using assms(1) by (simp add: svec_def)
    from D_sub_ok [OF ne this] obtain r where "D_sub x 1 = Some r" "dval r = dval x - 1" "normal r" "length r \<le> length x" by auto
    with True l that show ?thesis by (simp add: I_bnot_def not_eq_complement)
  next
    case False
    have "length (D_add x 1) \<le> room" using D_add_length(2) [of x 1] assms(2) by simp
    with False D_add_ok [OF n, of 1] that show ?thesis by (simp add: I_bnot_def not_eq_complement)
  qed
  show ?thesis using big_norm_res [OF r(3), of "\<not> xs"] r(1,2) l unfolding r(4) by (simp add: fits_def)
qed


section \<open>Shifts\<close>

lemma uint_or_disjoint:
  fixes a b :: u64
  assumes "uint a = 2 ^ k * c" and "uint b < 2 ^ k"
  shows "uint (a OR b) = uint a + uint b"
proof -
  have "uint a = push_bit k c" using assms(1) by (simp add: push_bit_eq_mult mult.commute)
  moreover have "uint b = take_bit k (uint b)" using assms(2) by (simp add: take_bit_eq_mod mod_pos_pos_trivial)
  ultimately have "uint a AND uint b = 0"
    by (intro bit_eqI) (metis bit_and_iff bit_push_bit_iff bit_take_bit_iff bit_0_eq bot_apply bot_bool_def leD)
  then have "uint a OR uint b = uint a + uint b" using plus_and_or [of "uint a" "uint b"] by linarith
  then show ?thesis by (simp add: unsigned_or_eq)
qed

lemma uint_drop: "uint (drop_bit n (x :: u64)) = uint x div 2 ^ n"
proof -
  have "uint (drop_bit n x) = drop_bit n (take_bit 64 (uint x))" by (simp only: unsigned_drop_bit_eq) simp
  also have "take_bit 64 (uint x) = uint x" using u64_bounds [of x] by (simp add: take_bit_eq_mod mod_pos_pos_trivial)
  finally show ?thesis by (simp add: drop_bit_eq_div)
qed

text \<open>A digit shifted to the left and the bits that leave it.\<close>

lemma uint_push:
  assumes "sw < 64"
  shows "uint (push_bit sw (x :: u64)) = 2 ^ sw * (uint x mod 2 ^ (64 - sw))"
    and "2 ^ sw * uint x = uint (push_bit sw x) + D_BASE * uint (drop_bit (64 - sw) x)"
proof -
  have B: "(2 :: int) ^ sw * 2 ^ (64 - sw) = D_BASE" using assms by (simp flip: power_add)
  have "uint (push_bit sw x) = take_bit 64 (push_bit sw (uint x))" by (simp only: unsigned_push_bit_eq) simp
  also have "\<dots> = (2 ^ sw * uint x) mod (2 ^ sw * 2 ^ (64 - sw))" by (simp add: take_bit_eq_mod push_bit_eq_mult B mult.commute)
  also have "\<dots> = 2 ^ sw * (uint x mod 2 ^ (64 - sw))" by (simp only: mult_mod_right)
  finally show p: "uint (push_bit sw (x :: u64)) = 2 ^ sw * (uint x mod 2 ^ (64 - sw))" .
  have "2 ^ sw * uint x = 2 ^ sw * (uint x mod 2 ^ (64 - sw) + 2 ^ (64 - sw) * (uint x div 2 ^ (64 - sw)))" by simp
  also have "\<dots> = uint (push_bit sw x) + D_BASE * uint (drop_bit (64 - sw) x)"
    unfolding p uint_drop B [symmetric] by (simp only: distrib_left mult.assoc)
  finally show "2 ^ sw * uint x = uint (push_bit sw x) + D_BASE * uint (drop_bit (64 - sw) x)" .
qed

lemma drop_bit_small:
  assumes "sw < 64"
  shows "uint (drop_bit (64 - sw) (x :: u64)) < 2 ^ sw"
proof -
  have B: "(2 :: int) ^ sw * 2 ^ (64 - sw) = D_BASE" using assms by (simp flip: power_add)
  show ?thesis unfolding uint_drop by (rule zdiv_less) (use u64_bounds(2) [of x] B in \<open>simp_all add: mult.commute\<close>)
qed

lemma shl_loop_val:
  assumes "sw < 64" and "uint a1 < 2 ^ sw"
  shows "dval (shl_loop sw x a1) = 2 ^ sw * dval x + uint a1"
  using assms(2)
proof (induction x arbitrary: a1)
  case (Cons d x)
  have "uint (push_bit sw d OR a1) = uint (push_bit sw d) + uint a1"
    using uint_push(1) [OF assms(1)] Cons.prems by (rule uint_or_disjoint)
  moreover have "dval (shl_loop sw x (drop_bit (64 - sw) d)) = 2 ^ sw * dval x + uint (drop_bit (64 - sw) d)"
    by (rule Cons.IH [OF drop_bit_small [OF assms(1)]])
  ultimately show ?case using uint_push(2) [OF assms(1), of d] by (simp only: shl_loop.simps dval.simps distrib_left)
qed simp

lemma shl_loop_length:
  "length (shl_loop sw x a1) = length x \<or> length (shl_loop sw x a1) = Suc (length x) \<and> last (shl_loop sw x a1) \<noteq> 0"
  by (induction sw x a1 rule: shl_loop.induct) auto

lemma shr_loop_val:
  assumes "0 < sw" and "sw < 64" and "uint a0 = 2 ^ (64 - sw) * q" and "0 \<le> q" and "shr_loop sw ds a0 = (r, a0')"
  shows "length r = length ds \<and> dval (rev r) = (q * D_BASE ^ length ds + dval (rev ds)) div 2 ^ sw
    \<and> uint a0' = 2 ^ (64 - sw) * ((q * D_BASE ^ length ds + dval (rev ds)) mod 2 ^ sw)"
  using assms(3-5)
proof (induction ds arbitrary: a0 q r)
  case Nil
  have "q < 2 ^ sw"
  proof (rule ccontr)
    assume "\<not> q < 2 ^ sw"
    then have "2 ^ (64 - sw) * 2 ^ sw \<le> 2 ^ (64 - sw) * q" by (intro mult_left_mono) simp_all
    moreover have "(2 :: int) ^ (64 - sw) * 2 ^ sw = D_BASE" using assms(2) by (simp flip: power_add)
    ultimately show False using Nil.prems(1) u64_bounds(2) [of a0] by linarith
  qed
  with Nil show ?case by (simp add: div_pos_pos_trivial mod_pos_pos_trivial)
next
  case (Cons x xs)
  let ?n = "length xs" and ?x = "uint x"
  have B: "(2 :: int) ^ sw * 2 ^ (64 - sw) = D_BASE" using assms(2) by (simp flip: power_add)
  obtain r1 where r1: "shr_loop sw xs (push_bit (64 - sw) x) = (r1, a0')" "r = (drop_bit sw x OR a0) # r1"
    using Cons.prems(3) by (auto simp: Let_def split: prod.splits)
  define q1 where "q1 = ?x mod 2 ^ sw"
  have q1: "uint (push_bit (64 - sw) x) = 2 ^ (64 - sw) * q1" using uint_push(1) [of "64 - sw" x] assms(1,2) by (simp add: q1_def)
  define N1 where "N1 = q1 * D_BASE ^ ?n + dval (rev xs)"
  have IH: "length r1 = ?n" "dval (rev r1) = N1 div 2 ^ sw" "uint a0' = 2 ^ (64 - sw) * (N1 mod 2 ^ sw)"
    using Cons.IH [OF q1 _ r1(1)] by (simp_all add: q1_def N1_def)
  have "uint (drop_bit sw x) < 2 ^ (64 - sw)" using drop_bit_small [of "64 - sw" x] assms(1,2) by simp
  then have d: "uint (drop_bit sw x OR a0) = 2 ^ (64 - sw) * q + ?x div 2 ^ sw"
    using uint_or_disjoint [OF Cons.prems(1), of "drop_bit sw x"] by (simp add: or.commute Cons.prems(1) uint_drop)
  define M where "M = D_BASE ^ ?n * (2 ^ (64 - sw) * q + ?x div 2 ^ sw)"
  have x: "?x = 2 ^ sw * (?x div 2 ^ sw) + q1" unfolding q1_def by simp
  have "q * D_BASE ^ length (x # xs) + dval (rev (x # xs)) = q * (D_BASE * D_BASE ^ ?n) + (dval (rev xs) + D_BASE ^ ?n * ?x)"
    by (simp add: dval_append)
  also have "\<dots> = N1 + 2 ^ sw * M"
    unfolding N1_def M_def B [symmetric] by (subst x) (simp only: algebra_simps)
  finally have N: "q * D_BASE ^ length (x # xs) + dval (rev (x # xs)) = N1 + 2 ^ sw * M" .
  have "dval (rev r) = N1 div 2 ^ sw + M" unfolding r1(2) by (simp add: dval_append IH d M_def)
  then show ?case unfolding N using IH(1,3) r1(2) by simp
qed

lemma take_nonzero: "dval xs \<noteq> 0 \<longleftrightarrow> (\<exists>d \<in> set xs. d \<noteq> 0)"
proof (induction xs)
  case (Cons x xs)
  have "0 \<le> uint x" "0 \<le> dval xs" by simp_all
  then have "uint x + D_BASE * dval xs = 0 \<longleftrightarrow> uint x = 0 \<and> dval xs = 0" by linarith
  with Cons show ?case by (auto simp: word_uint_eq_iff)
qed simp


lemma base_pow: "(2 :: int) ^ (64 * k) = D_BASE ^ k"
  by (simp add: power_mult)

text \<open>Division by a power of two works on the digits from one digit on.\<close>

lemma dval_split:
  assumes "bw \<le> length x"
  shows "dval x div 2 ^ (64 * bw + sw) = dval (drop bw x) div 2 ^ sw"
    and "dval x mod 2 ^ (64 * bw + sw) \<noteq> 0 \<longleftrightarrow> (\<exists>d \<in> set (take bw x). d \<noteq> 0) \<or> dval (drop bw x) mod 2 ^ sw \<noteq> 0"
proof -
  define L H where "L = dval (take bw x)" and "H = dval (drop bw x)"
  have x: "dval x = L + D_BASE ^ bw * H" using dval_take_drop [of x bw] assms by (simp add: L_def H_def min_absorb1)
  have L: "0 \<le> L" "L < D_BASE ^ bw" using dval_less [of "take bw x"] assms by (simp_all add: L_def min_absorb2)
  have m: "(2 :: int) ^ (64 * bw + sw) = D_BASE ^ bw * 2 ^ sw" by (simp add: power_add base_pow)
  have div: "(L + D_BASE ^ bw * H) div D_BASE ^ bw = H" "(L + D_BASE ^ bw * H) mod D_BASE ^ bw = L"
    using L by (simp add: div_pos_pos_trivial, simp only: mod_mult_self2 mod_pos_pos_trivial)
  show "dval x div 2 ^ (64 * bw + sw) = dval (drop bw x) div 2 ^ sw"
    unfolding m x H_def [symmetric] by (simp only: zdiv_zmult2_eq zero_le_power zero_le_numeral div(1))
  have "dval x mod 2 ^ (64 * bw + sw) = D_BASE ^ bw * (H mod 2 ^ sw) + L"
    unfolding m x using zmod_zmult2_eq [of "2 ^ sw" "L + D_BASE ^ bw * H" "D_BASE ^ bw"] by (simp only: div) simp
  moreover have "0 \<le> D_BASE ^ bw * (H mod 2 ^ sw)" by simp
  moreover have "D_BASE ^ bw * (H mod 2 ^ sw) = 0 \<longleftrightarrow> H mod 2 ^ sw = 0" by simp
  ultimately have "dval x mod 2 ^ (64 * bw + sw) \<noteq> 0 \<longleftrightarrow> L \<noteq> 0 \<or> H mod 2 ^ sw \<noteq> 0"
    using L(1) by linarith
  then show "dval x mod 2 ^ (64 * bw + sw) \<noteq> 0 \<longleftrightarrow> (\<exists>d \<in> set (take bw x). d \<noteq> 0) \<or> dval (drop bw x) mod 2 ^ sw \<noteq> 0"
    by (simp add: L_def H_def take_nonzero)
qed

text \<open>The loop of a shift to the right divides; the bits it drops are the remainder.\<close>

lemma shr_core:
  assumes "bw < length x" and "sw < 64"
    and r: "(if sw \<noteq> 0 then shr_loop sw (rev (drop bw x)) 0 else (rev (drop bw x), 0)) = (r, a0)"
  shows "length r = length x - bw" and "dval (rev r) = dval x div 2 ^ (64 * bw + sw)"
    and "(\<exists>d \<in> set (take bw x). d \<noteq> 0) \<or> a0 \<noteq> 0 \<longleftrightarrow> dval x mod 2 ^ (64 * bw + sw) \<noteq> 0"
proof -
  let ?H = "dval (drop bw x)"
  note split = dval_split [OF less_imp_le [OF assms(1)], of sw]
  have res: "length r = length x - bw \<and> dval (rev r) = ?H div 2 ^ sw \<and> (a0 \<noteq> 0 \<longleftrightarrow> ?H mod 2 ^ sw \<noteq> 0)"
  proof (cases "sw = 0")
    case True
    with r show ?thesis by auto
  next
    case False
    then have "shr_loop sw (rev (drop bw x)) 0 = (r, a0)" using r by simp
    from shr_loop_val [OF _ assms(2) _ _ this, of 0] False
    have "length r = length x - bw" "dval (rev r) = ?H div 2 ^ sw" "uint a0 = 2 ^ (64 - sw) * (?H mod 2 ^ sw)"
      by simp_all
    moreover from this(3) have "uint a0 = 0 \<longleftrightarrow> ?H mod 2 ^ sw = 0" by simp
    ultimately show ?thesis by (simp add: word_uint_eq_iff)
  qed
  then show "length r = length x - bw" "dval (rev r) = dval x div 2 ^ (64 * bw + sw)" using split(1) by simp_all
  show "(\<exists>d \<in> set (take bw x). d \<noteq> 0) \<or> a0 \<noteq> 0 \<longleftrightarrow> dval x mod 2 ^ (64 * bw + sw) \<noteq> 0"
    using res unfolding split(2) by simp
qed

lemma neg_floor: "(- v) div m = - (v div m + (if v mod m \<noteq> 0 then 1 else 0))" if "m \<noteq> 0" for v m :: int
  using zdiv_zminus1_eq_if [OF that, of v] by simp

definition shifted :: "int \<Rightarrow> int \<Rightarrow> int" where
  "shifted v y = (if y \<ge> 0 then v * 2 ^ nat y else v div 2 ^ nat (- y))"

lemma I_lshift_left:
  assumes x: "normal x" "0 < dval x" and y: "0 < y" and room: "length x + nat y div 64 + 1 \<le> room"
  shows "\<exists>r. I_lshift x y sign room = Some r \<and> normal r \<and> dval r = dval x * 2 ^ nat y \<and> length x + nat y div 64 \<le> length r"
proof -
  define bw sw where "bw = nat y div 64" and "sw = nat y mod 64"
  have sw: "sw < 64" by (simp add: sw_def)
  have ny: "nat y = 64 * bw + sw" by (simp add: bw_def sw_def)
  let ?s = "if sw \<noteq> 0 then shl_loop sw x 0 else x"
  have ne: "x \<noteq> []" "x \<noteq> [0]" using x by (auto simp: normal_def)
  have v: "dval ?s = 2 ^ sw * dval x" using shl_loop_val [OF sw, of 0 x] by simp
  have l: "length ?s = length x \<or> length ?s = Suc (length x) \<and> last ?s \<noteq> 0" using shl_loop_length [of sw x 0] by simp
  have ns: "normal ?s"
  proof (cases "length ?s = length x")
    case True
    have "1 * dval x \<le> 2 ^ sw * dval x" by (rule mult_right_mono) simp_all
    then show ?thesis using normal_mono [OF x(1) True] v by simp
  next
    case False
    with l show ?thesis by (auto simp: normal_def)
  qed
  let ?r = "replicate bw 0 @ ?s"
  have "?s \<noteq> []" by (rule normal_not_Nil [OF ns])
  moreover have "last ?s \<noteq> 0"
  proof
    assume z: "last ?s = 0"
    then have "length ?s = 1" using ns by (simp add: normal_def)
    then obtain d where "?s = [d]" by (auto simp: length_1)
    with z v x(2) show False by simp
  qed
  ultimately have nr: "normal ?r" by (simp add: normal_def)
  have "length ?r \<le> room" using l room by (auto simp: bw_def)
  moreover have "I_lshift x y sign room = fits room ?r"
    using y ne unfolding I_lshift_def Let_def by (simp add: bw_def sw_def)
  moreover have "dval ?r = dval x * 2 ^ nat y" by (simp only: dval_append v ny power_add base_pow) simp
  moreover have "length x + nat y div 64 \<le> length ?r" using l by (auto simp: bw_def)
  ultimately show ?thesis using nr by (simp only: fits_def if_True) blast
qed

lemma I_lshift_right:
  assumes x: "normal x" "0 < dval x" and y: "y < 0" and room: "length x - nat (- y) div 64 + 1 \<le> room"
  shows "\<exists>r. I_lshift x y sign room = Some r \<and> normal r \<and> sval sign r = sval sign x div 2 ^ nat (- y)"
proof -
  define bw sw where "bw = nat (- y) div 64" and "sw = nat (- y) mod 64"
  have sw: "sw < 64" by (simp add: sw_def)
  have ny: "nat (- y) = 64 * bw + sw" by (simp add: bw_def sw_def)
  have ab: "nat \<bar>y\<bar> = nat (- y)" using y by simp
  have ne: "x \<noteq> []" "x \<noteq> [0]" using x by (auto simp: normal_def)
  define M where "M = (2 :: int) ^ (64 * bw + sw)"
  have M: "0 < M" by (simp add: M_def)
  have goal: "sval sign x div 2 ^ nat (- y) = (if sign then - (dval x div M + (if dval x mod M \<noteq> 0 then 1 else 0)) else dval x div M)"
    unfolding ny M_def by (cases sign) (simp_all add: neg_floor)
  have one: "dval x div M = 0 \<Longrightarrow> dval x mod M \<noteq> 0" using x(2) div_mult_mod_eq [of "dval x" M] by auto
  have small: "normal (if sign then [1] else [0 :: u64])" by (simp add: normal_def)
  show ?thesis
  proof (cases "length x \<le> bw")
    case True
    then have "I_lshift x y sign room = Some (if sign then [1] else [0])"
      using y ne ab room unfolding I_lshift_def Let_def by (simp add: bw_def fits_def)
    moreover have "dval x < M"
    proof -
      have "D_BASE ^ length x \<le> D_BASE ^ bw" using True by (intro power_increasing) simp_all
      moreover have "D_BASE ^ bw * 1 \<le> D_BASE ^ bw * 2 ^ sw" by (intro mult_left_mono) simp_all
      ultimately show ?thesis using dval_less [of x] unfolding M_def power_add base_pow by linarith
    qed
    then have "dval x div M = 0" by (simp add: div_pos_pos_trivial)
    ultimately show ?thesis using small one unfolding goal by (cases sign) simp_all
  next
    case False
    then have bw: "bw < length x" by simp
    obtain r a0 where r: "(if sw \<noteq> 0 then shr_loop sw (rev (drop bw x)) 0 else (rev (drop bw x), 0)) = (r, a0)" by fastforce
    note core = shr_core [OF bw sw r, folded M_def]
    have rl: "length r \<le> room" "length r + 1 \<le> room" "r \<noteq> []" using core(1) room bw by (auto simp: bw_def)
    let ?add = "sign \<and> dval x mod M \<noteq> 0"
    have eq: "I_lshift x y sign room =
        (if hd r = 0 \<and> length r = 1 then Some (if sign then [1] else [0])
         else let r = rev (if hd r = 0 then tl r else r) in if ?add then fits room (D_add r 1) else Some r)"
      using y ne ab bw rl(1) core(3)
      unfolding I_lshift_def Let_def bw_def [symmetric] sw_def [symmetric] ab r by (simp add: fits_def bw_def [symmetric] sw_def [symmetric] r)
    show ?thesis
    proof (cases "hd r = 0 \<and> length r = 1")
      case True
      then have "r = [0]" by (cases r) auto
      then have "dval x div M = 0" using core(2) by simp
      with True eq small one show ?thesis unfolding goal by (cases sign) simp_all
    next
      case nz: False
      let ?r = "rev (if hd r = 0 then tl r else r)"
      have v: "dval ?r = dval x div M"
      proof (cases "hd r = 0")
        case True
        then have "rev r = rev (tl r) @ [0]" using rl(3) by (cases r) simp_all
        with core(2) True show ?thesis by (simp add: dval_append)
      qed (use core(2) in simp)
      have n: "normal ?r"
      proof (cases "hd r = 0")
        case True
        with nz rl(3) have l: "2 \<le> length r" by (cases r rule: list.exhaust) (auto simp: Suc_le_eq)
        then have "D_BASE ^ (length r - 2) * M \<le> D_BASE ^ (length r - 2) * (D_BASE ^ bw * D_BASE)"
          unfolding M_def power_add base_pow
          using sw power_increasing [of sw 64 "2 :: int"] by (intro mult_left_mono) simp_all
        also have "\<dots> = D_BASE ^ (length x - 1)"
          using l core(1) bw by (simp only: power_add [symmetric] power_Suc2 [symmetric]) (rule arg_cong [where f = "power D_BASE"], simp)
        also have "\<dots> \<le> dval x" using normal_dval [OF x(1)] l core(1) bw by auto
        finally have "D_BASE ^ (length r - 2) * M div M \<le> dval x div M" using M by (rule zdiv_mono1)
        then have "D_BASE ^ (length ?r - 1) \<le> dval ?r" using M v l True by (simp add: numeral_2_eq_2)
        then show ?thesis using l True by (intro normalI) (cases r; cases "tl r"; simp)
      next
        case False
        with rl(3) show ?thesis by (simp add: normal_def last_rev)
      qed
      have "length (D_add ?r 1) \<le> room" using D_add_length(2) [of ?r 1] rl by auto
      then show ?thesis using eq nz n v D_add_ok [OF n, of 1] unfolding goal
        by (cases sign; cases "dval x mod M = 0") (simp_all only: if_True if_False Let_def fits_def simp_thms, simp_all)
    qed
  qed
qed

text \<open>What a shift needs of its buffer.\<close>

definition shift_room :: "digits \<Rightarrow> int \<Rightarrow> nat" where
  "shift_room x y =
     (if y = 0 then length x else if y > 0 then length x + nat y div 64 + 1 else length x - nat (- y) div 64 + 1)"

lemma I_lshift_ok:
  assumes "normal x" and "0 < dval x" and "shift_room x y \<le> room"
  shows "\<exists>r. I_lshift x y sign room = Some r \<and> normal r \<and> sval sign r = shifted (sval sign x) y"
proof (cases y "0 :: int" rule: linorder_cases)
  case less
  then show ?thesis using I_lshift_right [OF assms(1,2) less, of room sign] assms(3) by (simp add: shift_room_def shifted_def)
next
  case equal
  then show ?thesis using assms by (simp add: I_lshift_def fits_def shift_room_def shifted_def)
next
  case greater
  then show ?thesis using I_lshift_left [OF assms(1,2) greater, of room sign] assms(3)
    by (cases sign) (auto simp: shift_room_def shifted_def)
qed

lemma big_lshift_ok:
  assumes "normal x" and "0 < dval x" and "shift_room x y \<le> room"
  shows "\<exists>t. big_lshift (Big sign x) y room = Some t \<and> int_res t (shifted (sval sign x) y)"
proof -
  from I_lshift_ok [OF assms] obtain r where
    r: "I_lshift x y sign room = Some r" "normal r" "sval sign r = shifted (sval sign x) y" by blast
  then show ?thesis using big_norm_res [OF r(2), of sign] by simp
qed

end
