(* ===== verification/Erts_Float.thy ===== *)
theory Erts_Float
  imports Erts_Bits
begin

text \<open>
  The conversion of bignums to floating point numbers (\<open>big_to_double\<close> in \<open>erts/emulator/beam/big.c\<close>, 64-bit
  emulator) and \<open>fit_in_bits\<close> of \<open>utils.c\<close>, which it uses.  Floating point numbers are a parameter: a record of
  the operations of C on doubles that the emulator uses.
\<close>

section \<open>Definitions\<close>

text \<open>
  The operations on doubles: the conversion of an integer, the arithmetic operators, \<open>ldexp\<close> and \<open>isfinite\<close>.
\<close>

record 'd fp =
  fp_of_int :: "int \<Rightarrow> 'd"
  fp_add :: "'d \<Rightarrow> 'd \<Rightarrow> 'd"
  fp_sub :: "'d \<Rightarrow> 'd \<Rightarrow> 'd"
  fp_mul :: "'d \<Rightarrow> 'd \<Rightarrow> 'd"
  fp_neg :: "'d \<Rightarrow> 'd"
  fp_ldexp :: "'d \<Rightarrow> int \<Rightarrow> 'd"
  fp_isfinite :: "'d \<Rightarrow> bool"

subsection \<open>Bit length\<close>

text \<open>The table from its last entry on; \<open>>>\<close> is the shift of a signed number.\<close>

definition fib_data :: "(u64 \<times> nat) list" where
  "fib_data = [(0x2, 1), (0xc, 2), (0xf0, 4), (0xff00, 8), (0xffff0000, 16), (0xffffffff00000000, 32)]"

fun fit_loop :: "(u64 \<times> nat) list \<Rightarrow> u64 \<Rightarrow> nat \<Rightarrow> nat" where
  "fit_loop [] val bits = bits"
| "fit_loop ((msk, b) # tab) val bits =
     (if val AND msk \<noteq> 0 then fit_loop tab (signed_drop_bit b val) (bits OR b) else fit_loop tab val bits)"

definition fit_in_bits :: "u64 \<Rightarrow> nat \<Rightarrow> nat" where
  "fit_in_bits val start = fit_loop (rev (take (start + 1) fib_data)) val 0 + 1"

definition erts_fit_in_bits_uint :: "u64 \<Rightarrow> nat" where
  "erts_fit_in_bits_uint val = fit_in_bits val 5"

subsection \<open>Rounding\<close>

text \<open>The top 54 bits: the digit that has the lowest of them, the bits, and the bits of that digit below.\<close>

fun mant_loop :: "digits \<Rightarrow> nat \<Rightarrow> nat \<Rightarrow> u64 \<Rightarrow> (nat \<times> u64 \<times> u64) option" where
  "mant_loop v guard i mant =
     (let dig = v ! i; lsb = i * 64 in
      if lsb > guard then
        (case i of 0 \<Rightarrow> None | Suc j \<Rightarrow> mant_loop v guard j (mant OR push_bit (lsb - guard) dig))
      else
        (let k = guard - lsb; lesser_bits = dig AND (push_bit k 1 - 1) in
         Some (i, mant OR drop_bit k dig, lesser_bits)))"

text \<open>The search for a bit below: false when all the digits down to the first one are zero.\<close>

fun lesser_loop :: "digits \<Rightarrow> nat \<Rightarrow> u64 \<Rightarrow> bool" where
  "lesser_loop v i lesser_bits =
     (if lesser_bits = 0 then (case i of 0 \<Rightarrow> False | Suc j \<Rightarrow> lesser_loop v j (v ! j)) else True)"

declare mant_loop.simps [simp del] lesser_loop.simps [simp del]

text \<open>The mantissa and the exponent of a number of more than 53 bits.\<close>

definition round_digits :: "digits \<Rightarrow> nat \<Rightarrow> (u64 \<times> int) option" where
  "round_digits v bitlen = do {
     let guard = bitlen - 54;
     (i, mant, lesser_bits) \<leftarrow> mant_loop v guard (length v - 1) 0;
     let half_bit = mant AND 1;
     let mant = drop_bit 1 mant;
     let exp = int guard + 1;
     if half_bit \<noteq> 0 \<and> (mant AND 1 \<noteq> 0 \<or> lesser_loop v i lesser_bits)
     then let mant = mant + 1 in
       if mant = push_bit 53 1 then Some (drop_bit 1 mant, exp + 1) else Some (mant, exp)
     else Some (mant, exp) }"

text \<open>\<open>Inl ()\<close> is the return value -1.\<close>

fun big_to_double :: "'d fp \<Rightarrow> 'd eterm \<Rightarrow> (unit + 'd) option" where
  "big_to_double fp (Big xsgn v) =
     (if v = [] \<or> last v = 0 then None
      else let bitlen = (length v - 1) * 64 + erts_fit_in_bits_uint (last v) in
        if bitlen \<le> 53 then None
        else if bitlen > 1024 then Some (Inl ())
        else do {
          (mant, exp) \<leftarrow> round_digits v bitlen;
          let d = fp_ldexp fp (fp_of_int fp (uint mant)) exp;
          Some (if fp_isfinite fp d then Inr (if xsgn then fp_neg fp d else d) else Inl ()) })"
| "big_to_double _ _ = None"


section \<open>Bit length\<close>

text \<open>
  Half of the bits that are left are tested at a time: \<open>w\<close> are the bits below twice the step.
\<close>

lemma or_power_nat:
  fixes c :: nat
  shows "2 ^ (k + 1) * c OR 2 ^ k = 2 ^ (k + 1) * c + 2 ^ k"
proof -
  have "2 ^ (k + 1) * c = push_bit k (push_bit 1 c)" "2 ^ k = push_bit k (1 :: nat)" by (simp_all add: push_bit_eq_mult)
  then have "2 ^ (k + 1) * c OR 2 ^ k = push_bit k (push_bit 1 c) OR push_bit k 1" by (simp only:)
  also have "\<dots> = push_bit k (push_bit 1 c OR 1)" by (simp only: push_bit_or)
  also have "push_bit 1 c OR 1 = 2 * c + 1" using or_one_eq [of "2 * c"] by (simp add: push_bit_eq_mult mult.commute)
  finally show ?thesis by (simp add: push_bit_eq_mult algebra_simps)
qed

lemma uint_take: "uint (take_bit n (x :: u64)) = uint x mod 2 ^ n"
  by (simp only: unsigned_take_bit_eq) (simp only: take_bit_eq_mod)

lemma mod_double: "(v mod 2 ^ (2 * b)) div 2 ^ b = (v div 2 ^ b) mod 2 ^ b" for v :: int
proof -
  have "(v div 2 ^ b) mod 2 ^ b = take_bit b (drop_bit b v)" by (simp add: take_bit_eq_mod drop_bit_eq_div)
  also have "\<dots> = drop_bit b (take_bit (2 * b) v)" by (simp add: take_bit_drop_bit mult_2)
  finally show ?thesis by (simp add: take_bit_eq_mod drop_bit_eq_div)
qed

lemma fit_step:
  fixes val :: u64
  assumes b: "2 * b \<le> 64" and msk: "msk = push_bit b (mask b)"
  shows "val AND msk \<noteq> 0 \<longleftrightarrow> 2 ^ b \<le> uint val mod 2 ^ (2 * b)"
    and "uint (signed_drop_bit b val) mod 2 ^ b = (uint val mod 2 ^ (2 * b)) div 2 ^ b"
proof -
  let ?t = "take_bit b (drop_bit b val)"
  have t: "uint ?t = (uint val mod 2 ^ (2 * b)) div 2 ^ b" by (simp only: uint_take uint_drop mod_double)
  have "val AND msk = push_bit b ?t" unfolding msk
    by (rule bit_word_eqI) (auto simp: bit_simps)
  moreover have "push_bit b ?t = 0 \<longleftrightarrow> ?t = 0"
  proof
    assume z: "push_bit b ?t = 0"
    show "?t = 0"
    proof (rule bit_word_eqI)
      fix n assume "n < LENGTH(64)"
      have "\<not> bit (push_bit b ?t) (b + n)" using z by simp
      then show "bit ?t n \<longleftrightarrow> bit 0 n" using b by (auto simp: bit_simps)
    qed
  qed simp
  ultimately have "val AND msk \<noteq> 0 \<longleftrightarrow> uint ?t \<noteq> 0" by (simp add: word_uint_eq_iff)
  also have "\<dots> \<longleftrightarrow> 2 ^ b \<le> uint val mod 2 ^ (2 * b)"
    unfolding t by (smt (verit) div_pos_pos_trivial pos_imp_zdiv_pos_iff zero_less_power pos_mod_sign)
  finally show "val AND msk \<noteq> 0 \<longleftrightarrow> 2 ^ b \<le> uint val mod 2 ^ (2 * b)" .
  have "take_bit b (signed_drop_bit b val) = ?t"
    using b by (intro bit_word_eqI) (auto simp: bit_simps)
  then show "uint (signed_drop_bit b val) mod 2 ^ b = (uint val mod 2 ^ (2 * b)) div 2 ^ b"
    using t by (simp only: uint_take [symmetric])
qed

text \<open>The invariant of the loop: \<open>bits\<close> bits are below the bits \<open>w\<close> that are left.\<close>

definition fit_inv :: "u64 \<Rightarrow> nat \<Rightarrow> u64 \<Rightarrow> nat \<Rightarrow> bool" where
  "fit_inv d b val bits \<longleftrightarrow> b dvd bits
     \<and> (let w = uint val mod 2 ^ b in 0 < w \<and> 2 ^ bits * w \<le> uint d \<and> uint d < 2 ^ bits * (w + 1))"

lemma div_block:
  assumes "p * w \<le> d" and "d < p * (w + 1)" and "0 < p" and "0 < (q :: int)"
  shows "p * q * (w div q) \<le> (d :: int)" and "d < p * q * (w div q + 1)"
proof -
  have "q * (w div q) \<le> w" using assms(4) by (metis minus_mod_eq_mult_div pos_mod_sign diff_le_eq le_add_same_cancel1)
  then have "p * (q * (w div q)) \<le> p * w" using assms(3) by simp
  then show "p * q * (w div q) \<le> d" using assms(1) by (simp add: mult.assoc)
  have "w + 1 \<le> q * (w div q + 1)"
    using pos_mod_bound [OF assms(4), of w] mult_div_mod_eq [of q w] by (simp only: distrib_left)
  then have "p * (w + 1) \<le> p * (q * (w div q + 1))" using assms(3) by simp
  then show "d < p * q * (w div q + 1)" using assms(2) by (simp add: mult.assoc)
qed

lemma fit_inv_step:
  assumes inv: "fit_inv d (2 * 2 ^ k) val bits" and k: "2 * 2 ^ k \<le> (64 :: nat)" and msk: "msk = push_bit (2 ^ k) (mask (2 ^ k))"
  shows "if val AND msk \<noteq> 0 then fit_inv d (2 ^ k) (signed_drop_bit (2 ^ k) val) (bits OR 2 ^ k) else fit_inv d (2 ^ k) val bits"
proof -
  let ?b = "2 ^ k :: nat"
  define w where "w = uint val mod 2 ^ (2 * ?b)"
  note st = fit_step [OF k msk, of val, folded w_def]
  obtain c where c: "bits = 2 ^ (k + 1) * c" using inv by (auto simp: fit_inv_def)
  have w: "0 < w" "2 ^ bits * w \<le> uint d" "uint d < 2 ^ bits * (w + 1)" using inv by (simp_all add: fit_inv_def w_def Let_def)
  show ?thesis
  proof (cases "2 ^ ?b \<le> w")
    case True
    have bits: "bits OR ?b = bits + ?b" unfolding c by (rule or_power_nat)
    have "0 < w div 2 ^ ?b" using True by (simp add: pos_imp_zdiv_pos_iff)
    moreover have "?b dvd bits + ?b" unfolding c by simp
    ultimately show ?thesis using True st div_block [OF w(2,3), of "2 ^ ?b"]
      by (simp add: fit_inv_def Let_def bits power_add)
  next
    case False
    have "?b dvd bits" unfolding c by simp
    moreover have "uint val mod 2 ^ ?b = w"
    proof -
      have "uint val mod 2 ^ ?b = w mod 2 ^ ?b" unfolding w_def by (simp add: mod_mod_cancel le_imp_power_dvd)
      with False w(1) show ?thesis by (simp add: mod_pos_pos_trivial)
    qed
    ultimately show ?thesis using False st w by (simp add: fit_inv_def Let_def)
  qed
qed

definition fit_entry :: "nat \<Rightarrow> u64 \<times> nat" where
  "fit_entry k = (push_bit (2 ^ k) (mask (2 ^ k)), 2 ^ k)"

lemma fib_data_entries: "rev (take (5 + 1) fib_data) = map fit_entry (rev [0..<6])"
  by (simp add: fib_data_def fit_entry_def numeral_nat upt_rec mask_eq_exp_minus_1 push_bit_eq_mult)

lemma fit_loop_inv:
  "fit_inv d (2 ^ n) val bits \<Longrightarrow> n \<le> 6 \<Longrightarrow> \<exists>val'. fit_inv d 1 val' (fit_loop (map fit_entry (rev [0..<n])) val bits)"
proof (induction n arbitrary: val bits)
  case (Suc n)
  have k: "2 * 2 ^ n \<le> (64 :: nat)" using power_increasing [of "Suc n" 6 "2 :: nat"] Suc.prems(2) by simp
  show ?case using fit_inv_step [OF _ k refl, of d val bits] Suc.prems Suc.IH by (simp add: fit_entry_def)
qed auto

lemma erts_fit_in_bits_uint_ok:
  assumes "d \<noteq> 0"
  shows "2 ^ (erts_fit_in_bits_uint d - 1) \<le> uint d" and "uint d < 2 ^ erts_fit_in_bits_uint d"
    and "1 \<le> erts_fit_in_bits_uint d" and "erts_fit_in_bits_uint d \<le> 64"
proof -
  define bits where "bits = fit_loop (map fit_entry (rev [0..<6])) d 0"
  have n: "erts_fit_in_bits_uint d = bits + 1"
    unfolding erts_fit_in_bits_uint_def fit_in_bits_def fib_data_entries bits_def ..
  have "uint d mod 2 ^ 64 = uint d" using u64_bounds [of d] by (intro mod_pos_pos_trivial) simp_all
  moreover have "0 < uint d" using assms by (simp add: word_uint_eq_iff order_less_le)
  ultimately have "fit_inv d (2 ^ 6) d 0" by (simp add: fit_inv_def Let_def)
  from fit_loop_inv [OF this] obtain val where v: "fit_inv d 1 val bits" by (auto simp: bits_def)
  then have "0 < uint val mod 2" by (simp add: fit_inv_def Let_def)
  then have "uint val mod 2 = 1" using pos_mod_bound [of 2 "uint val"] by linarith
  with v have b: "2 ^ bits \<le> uint d" "uint d < 2 ^ (bits + 1)" by (simp_all add: fit_inv_def Let_def)
  then have "(2 :: int) ^ bits < 2 ^ 64" using u64_bounds [of d] by simp
  then have "bits < 64" by (rule power_less_imp_less_exp [rotated]) simp
  with b show "2 ^ (erts_fit_in_bits_uint d - 1) \<le> uint d" "uint d < 2 ^ erts_fit_in_bits_uint d"
    "1 \<le> erts_fit_in_bits_uint d" "erts_fit_in_bits_uint d \<le> 64" by (simp_all add: n)
qed


section \<open>Rounding\<close>

text \<open>
  A mantissa of 53 bits and an exponent that are nearest to a number, with an even mantissa on a tie.  Below the power of two
  that the least mantissa stands for, the numbers are twice as dense.
\<close>

definition nearest :: "int \<Rightarrow> int \<Rightarrow> nat \<Rightarrow> bool" where
  "nearest n m e \<longleftrightarrow> 2 ^ 52 \<le> m \<and> m < 2 ^ 53 \<and> 2 * \<bar>n - m * 2 ^ e\<bar> \<le> 2 ^ e
     \<and> (2 * \<bar>n - m * 2 ^ e\<bar> = 2 ^ e \<longrightarrow> even m) \<and> (m = 2 ^ 52 \<and> n < m * 2 ^ e \<longrightarrow> 4 * \<bar>n - m * 2 ^ e\<bar> \<le> 2 ^ e)"

lemma abs_far: "2 * \<bar>n - a\<bar> \<le> d \<Longrightarrow> d \<le> \<bar>b - a\<bar> \<Longrightarrow> \<bar>n - a\<bar> \<le> \<bar>n - b\<bar>" for n a b d :: int
  by (cases "a \<le> n"; cases "a \<le> b"; cases "b \<le> n") simp_all

lemma abs_below:
  fixes n a b c :: int
  assumes "b \<le> a - c" and "0 \<le> c" and "n < a \<Longrightarrow> 4 * \<bar>n - a\<bar> \<le> 2 * c"
  shows "\<bar>n - a\<bar> \<le> \<bar>n - b\<bar>"
  using assms by (cases "n < a") (simp_all split: abs_split)

text \<open>No other number with a mantissa of 53 bits is nearer.\<close>

lemma nearest_least:
  assumes n: "nearest n m e" and m': "m' < 2 ^ 53"
  shows "\<bar>n - m * 2 ^ e\<bar> \<le> \<bar>n - m' * 2 ^ e'\<bar>"
proof -
  from n have m: "2 ^ 52 \<le> m" and d: "2 * \<bar>n - m * 2 ^ e\<bar> \<le> 2 ^ e"
    and least: "m = 2 ^ 52 \<Longrightarrow> n < m * 2 ^ e \<Longrightarrow> 4 * \<bar>n - m * 2 ^ e\<bar> \<le> 2 ^ e" unfolding nearest_def by blast+
  show ?thesis
  proof (cases "e \<le> e'")
    case True
    define q where "q = m' * 2 ^ (e' - e)"
    have q: "m' * 2 ^ e' = q * 2 ^ e" using True by (simp add: q_def flip: power_add)
    show ?thesis
    proof (cases "q = m")
      case False
      then have "1 * 2 ^ e \<le> \<bar>q - m\<bar> * 2 ^ e" by (intro mult_right_mono) simp_all
      also have "\<dots> = \<bar>q * 2 ^ e - m * 2 ^ e\<bar>" by (simp add: abs_mult flip: left_diff_distrib)
      finally show ?thesis using abs_far [OF d] unfolding q by simp
    qed (simp add: q)
  next
    case False
    then obtain f where f: "e = Suc f" "e' \<le> f" by (metis Suc_le_D not_less_eq_eq)
    have "m' * 2 ^ e' \<le> (2 ^ 53 - 1) * 2 ^ e'" using m' by (intro mult_right_mono) simp_all
    also have "\<dots> \<le> (2 ^ 53 - 1) * 2 ^ f" using f(2) by (intro mult_left_mono power_increasing) simp_all
    finally have b: "m' * 2 ^ e' \<le> 2 ^ 52 * 2 ^ e - 2 ^ f" unfolding f(1) by (simp add: left_diff_distrib)
    have e: "(2 :: int) ^ e = 2 * 2 ^ f" by (simp add: f(1))
    show ?thesis
    proof (cases "m = 2 ^ 52")
      case True
      then show ?thesis using least b e by (intro abs_below [where c = "2 ^ f"]) simp_all
    next
      case False
      then have "(2 ^ 52 + 1) * 2 ^ e \<le> m * 2 ^ e" using m by (intro mult_right_mono) auto
      then have "2 ^ 52 * 2 ^ e + 2 ^ e \<le> m * 2 ^ e" by (simp add: distrib_right)
      then have "2 ^ e \<le> \<bar>m' * 2 ^ e' - m * 2 ^ e\<bar>" using b zero_le_power [of "2 :: int" f] by linarith
      with d show ?thesis by (rule abs_far)
    qed
  qed
qed

lemma lesser_loop_iff:
  "i \<le> length v \<Longrightarrow> lesser_loop v i lb \<longleftrightarrow> lb \<noteq> 0 \<or> (\<exists>d \<in> set (take i v). d \<noteq> 0)"
proof (induction i arbitrary: lb)
  case 0
  then show ?case by (simp add: lesser_loop.simps)
next
  case (Suc i)
  then show ?case by (subst lesser_loop.simps) (auto simp: take_Suc_conv_app_nth)
qed

lemma uint_low:
  assumes "k < 64"
  shows "uint (d AND (push_bit k 1 - 1) :: u64) = uint d mod 2 ^ k"
proof -
  have "d AND (push_bit k 1 - 1) = take_bit k d" by (simp add: take_bit_eq_mask mask_eq_exp_minus_1 push_bit_eq_mult)
  then show ?thesis by (simp only: uint_take)
qed

lemma and_one_nonzero: "w AND 1 \<noteq> 0 \<longleftrightarrow> odd (uint w)" for w :: u64
proof -
  have "w AND 1 = take_bit 1 w" by (simp add: take_bit_eq_mask)
  then have "uint (w AND 1) = uint w mod 2 ^ 1" by (simp only: uint_take)
  then show ?thesis by (simp add: word_uint_eq_iff odd_iff_mod_2_eq_one)
qed

text \<open>The top 54 bits of a number.\<close>

lemma mant_loop_ok:
  assumes v: "v \<noteq> []" "last v \<noteq> 0" and n: "bitlen = (length v - 1) * 64 + erts_fit_in_bits_uint (last v)" "54 \<le> bitlen"
  shows "\<exists>i mant lb k. mant_loop v (bitlen - 54) (length v - 1) 0 = Some (i, mant, lb) \<and> i < length v
    \<and> bitlen - 54 = 64 * i + k \<and> uint mant = dval (drop i v) div 2 ^ k \<and> uint lb = dval (drop i v) mod 2 ^ k"
proof -
  define h where "h = erts_fit_in_bits_uint (last v)"
  note hb = erts_fit_in_bits_uint_ok [OF v(2), folded h_def]
  define j where "j = length v - 1"
  have vj: "v ! j = last v" "drop j v = [last v]" "j < length v"
    using v(1) by (simp_all add: j_def last_conv_nth Cons_nth_drop_Suc [symmetric])
  have nj: "bitlen = j * 64 + h" "54 \<le> j * 64 + h" using n by (simp_all only: j_def h_def)
  show ?thesis unfolding j_def [symmetric]
  proof (cases "54 \<le> h")
    case True
    have g: "bitlen - 54 = 64 * j + (h - 54)" "\<not> bitlen - 54 < j * 64" "bitlen - 54 - j * 64 = h - 54" using nj True by simp_all
    have l: "h - 54 < 64" using hb(4) by simp
    have "mant_loop v (bitlen - 54) j 0 = Some (j, drop_bit (h - 54) (last v), last v AND (push_bit (h - 54) 1 - 1))"
      by (subst mant_loop.simps) (simp only: Let_def g(2,3) vj(1) if_False, simp)
    moreover have "uint (drop_bit (h - 54) (last v)) = dval (drop j v) div 2 ^ (h - 54)" by (simp add: vj(2) uint_drop)
    moreover have "uint (last v AND (push_bit (h - 54) 1 - 1)) = dval (drop j v) mod 2 ^ (h - 54)"
      by (simp only: vj(2) uint_low [OF l]) simp
    ultimately show "\<exists>i mant lb k. mant_loop v (bitlen - 54) j 0 = Some (i, mant, lb) \<and> i < length v
        \<and> bitlen - 54 = 64 * i + k \<and> uint mant = dval (drop i v) div 2 ^ k \<and> uint lb = dval (drop i v) mod 2 ^ k"
      using g(1) vj(3) by blast
  next
    case False
    then have "1 \<le> j" using nj(2) by (cases j) simp_all
    then obtain i where i: "j = Suc i" by (cases j) auto
    define k where "k = 10 + h"
    have k: "k < 64" "54 - h = 64 - k" "54 - h < 64" using False hb(3) by (auto simp: k_def)
    have g: "bitlen - 54 = 64 * i + k" "j * 64 - (bitlen - 54) = 64 - k" "bitlen - 54 < j * 64" "i * 64 \<le> bitlen - 54"
      using nj False hb(3) i by (simp_all add: k_def)
    have di: "dval (drop i v) = uint (v ! i) + D_BASE * uint (last v)"
      using vj i by (simp add: Cons_nth_drop_Suc [symmetric])
    let ?m = "push_bit (64 - k) (last v)" and ?l = "drop_bit k (v ! i)"
    have B: "D_BASE = 2 ^ (64 - k) * 2 ^ k" using k(1) by (simp flip: power_add)
    have "uint (last v) < 2 ^ (64 - (64 - k))"
    proof -
      have "(2 :: int) ^ h \<le> 2 ^ k" by (rule power_increasing) (simp_all add: k_def)
      with hb(2) have "uint (last v) < 2 ^ k" by (rule less_le_trans)
      with k(1) show ?thesis by simp
    qed
    then have m: "uint ?m = 2 ^ (64 - k) * uint (last v)"
      using uint_push(1) [of "64 - k" "last v"] hb(3) by (simp add: k_def mod_pos_pos_trivial)
    moreover have "uint ?l < 2 ^ (64 - k)" using drop_bit_small [of "64 - k" "v ! i"] k(1) hb(3) by (simp add: k_def)
    ultimately have "uint (?m OR ?l) = uint ?m + uint ?l" by (rule uint_or_disjoint)
    also have "\<dots> = dval (drop i v) div 2 ^ k"
    proof -
      have e: "uint (v ! i) + D_BASE * uint (last v) = uint (v ! i) + 2 ^ (64 - k) * uint (last v) * 2 ^ k"
        unfolding B by simp
      show ?thesis unfolding di m uint_drop e by simp
    qed
    finally have mant: "uint (?m OR ?l) = dval (drop i v) div 2 ^ k" .
    have "uint (v ! i) mod 2 ^ k = (uint (v ! i) + 2 ^ k * (2 ^ (64 - k) * uint (last v))) mod 2 ^ k" by simp
    also have "\<dots> = dval (drop i v) mod 2 ^ k" unfolding di B by (simp add: ac_simps)
    finally have "uint (v ! i AND (push_bit k 1 - 1)) = dval (drop i v) mod 2 ^ k" unfolding uint_low [OF k(1)] .
    moreover have "mant_loop v (bitlen - 54) j 0 = Some (i, ?m OR ?l, v ! i AND (push_bit k 1 - 1))"
      using g i vj(1) by (subst mant_loop.simps, subst mant_loop.simps) (simp add: Let_def)
    ultimately show "\<exists>i mant lb k. mant_loop v (bitlen - 54) j 0 = Some (i, mant, lb) \<and> i < length v
        \<and> bitlen - 54 = 64 * i + k \<and> uint mant = dval (drop i v) div 2 ^ k \<and> uint lb = dval (drop i v) mod 2 ^ k"
      using mant g(1) Suc_lessD [OF vj(3) [unfolded i]] by blast
  qed
qed

lemma dval_bits:
  assumes v: "v \<noteq> []" "last v \<noteq> 0" and n: "bitlen = (length v - 1) * 64 + erts_fit_in_bits_uint (last v)"
  shows "2 ^ (bitlen - 1) \<le> dval v" and "dval v < 2 ^ bitlen"
proof -
  define j h where "j = length v - 1" and "h = erts_fit_in_bits_uint (last v)"
  note hb = erts_fit_in_bits_uint_ok [OF v(2), folded h_def]
  have nj: "bitlen = 64 * j + h" using n by (simp add: j_def h_def)
  have l: "length (butlast v) = j" by (simp add: j_def)
  have "dval v = dval (butlast v @ [last v])" using v(1) by simp
  also have "\<dots> = dval (butlast v) + D_BASE ^ j * uint (last v)" by (simp only: dval_append l) simp
  finally have d: "dval v = dval (butlast v) + D_BASE ^ j * uint (last v)" .
  have "D_BASE ^ j * 2 ^ (h - 1) \<le> D_BASE ^ j * uint (last v)" using hb(1) by (intro mult_left_mono) simp_all
  also have "\<dots> \<le> dval v" unfolding d by simp
  finally show "2 ^ (bitlen - 1) \<le> dval v" using hb(3) by (simp add: nj base_pow [symmetric] power_add [symmetric])
  have "dval v < D_BASE ^ j * (uint (last v) + 1)" using dval_less [of "butlast v"] unfolding l d by (simp add: distrib_left)
  also have "\<dots> \<le> D_BASE ^ j * 2 ^ h" using hb(2) by (intro mult_left_mono) simp_all
  finally show "dval v < 2 ^ bitlen" by (simp add: nj base_pow power_add)
qed

lemma nearest_down:
  assumes "n = (2 * m + h) * 2 ^ g + r" and "0 \<le> r" and "r < 2 ^ g" and "2 ^ 52 \<le> m" and "m < 2 ^ 53"
    and "h = 0 \<or> h = 1 \<and> even m \<and> r = 0"
  shows "nearest n m (g + 1)"
proof -
  have d: "n - m * 2 ^ (g + 1) = h * 2 ^ g + r" using assms(1) by (simp add: algebra_simps)
  from assms(6) have "2 * \<bar>h * 2 ^ g + r\<bar> \<le> 2 ^ (g + 1) \<and> (2 * \<bar>h * 2 ^ g + r\<bar> = 2 ^ (g + 1) \<longrightarrow> even m)"
    using assms(2,3) by auto
  moreover have "0 \<le> h * 2 ^ g + r" using assms(2,6) by auto
  then have "m * 2 ^ (g + 1) \<le> n" using d by linarith
  ultimately show ?thesis using assms(4,5) unfolding nearest_def d by auto
qed

lemma nearest_up:
  assumes "n = (2 * m + 1) * 2 ^ g + r" and "0 \<le> r" and "r < 2 ^ g" and "2 ^ 52 \<le> m" and "m < 2 ^ 53" and "odd m \<or> r \<noteq> 0"
  shows "if m + 1 = 2 ^ 53 then nearest n (2 ^ 52) (g + 2) else nearest n (m + 1) (g + 1)"
proof -
  have d: "n - (m + 1) * 2 ^ (g + 1) = r - 2 ^ g" using assms(1) by (simp add: algebra_simps)
  have a: "\<bar>r - 2 ^ g\<bar> \<le> 2 ^ g" "\<bar>r - 2 ^ g\<bar> = 2 ^ g \<longrightarrow> r = 0" using assms(2,3) by auto
  show ?thesis
  proof (cases "m + 1 = 2 ^ 53")
    case True
    have "(2 :: int) ^ 52 * 2 ^ (g + 2) = (m + 1) * 2 ^ (g + 1)" unfolding True by (simp flip: power_add)
    then have "n - 2 ^ 52 * 2 ^ (g + 2) = r - 2 ^ g" using d by simp
    with True a(1) show ?thesis by (simp add: nearest_def)
  next
    case False
    then show ?thesis using a assms(4-6) unfolding nearest_def d by (auto simp: nearest_def d)
  qed
qed

lemma round_digits_ok:
  assumes v: "v \<noteq> []" "last v \<noteq> 0" and n: "bitlen = (length v - 1) * 64 + erts_fit_in_bits_uint (last v)" "54 \<le> bitlen"
  shows "\<exists>mant e. round_digits v bitlen = Some (mant, int e) \<and> nearest (dval v) (uint mant) e"
proof -
  define g where "g = bitlen - 54"
  obtain i mant lb k where loop: "mant_loop v g (length v - 1) 0 = Some (i, mant, lb)" "i < length v"
      "g = 64 * i + k" "uint mant = dval (drop i v) div 2 ^ k" "uint lb = dval (drop i v) mod 2 ^ k"
    using mant_loop_ok [OF v n] unfolding g_def by blast
  define r where "r = dval v mod 2 ^ g"
  note split = dval_split [OF less_imp_le [OF loop(2)], of k, folded loop(3)]
  have q: "uint mant = dval v div 2 ^ g" using split(1) loop(4) by simp
  have lb: "lb \<noteq> 0 \<longleftrightarrow> dval (drop i v) mod 2 ^ k \<noteq> 0" by (simp only: loop(5) [symmetric]) (simp add: word_uint_eq_iff)
  have low: "lesser_loop v i lb \<longleftrightarrow> r \<noteq> 0"
    unfolding r_def split(2) lesser_loop_iff [OF less_imp_le [OF loop(2)]] lb by (rule disj_commute)
  define m h where "m = uint mant div 2" and "h = uint mant mod 2"
  have "2 * m + h = dval v div 2 ^ g" unfolding m_def h_def q [symmetric] by (rule mult_div_mod_eq)
  then have dv: "dval v = (2 * m + h) * 2 ^ g + r" unfolding r_def by (simp only: div_mult_mod_eq)
  have r: "0 \<le> r" "r < 2 ^ g" by (simp_all add: r_def)
  have "54 + g = bitlen" "53 + g = bitlen - 1" using n(2) by (simp_all add: g_def)
  then have pw: "(2 :: int) ^ bitlen = 2 ^ 54 * 2 ^ g" "(2 :: int) ^ (bitlen - 1) = 2 ^ 53 * 2 ^ g"
    by (simp_all only: power_add [symmetric])
  have "2 ^ 53 * 2 ^ g div 2 ^ g \<le> dval v div 2 ^ g" using dval_bits(1) [OF v n(1)] unfolding pw by (rule zdiv_mono1) simp
  then have lo: "2 ^ 53 \<le> uint mant" unfolding q by simp
  have hi: "uint mant < 2 ^ 54" unfolding q using dval_bits(2) [OF v n(1)] unfolding pw by (intro zdiv_less) simp_all
  have m: "2 ^ 52 \<le> m" "m < 2 ^ 53" using lo hi by (simp_all add: m_def)
  let ?m = "drop_bit 1 mant"
  have um: "uint ?m = m" by (simp only: uint_drop m_def power_one_right)
  have half: "mant AND 1 \<noteq> 0 \<longleftrightarrow> h = 1" by (simp add: and_one_nonzero h_def odd_iff_mod_2_eq_one)
  have odd: "?m AND 1 \<noteq> 0 \<longleftrightarrow> odd m" unfolding um [symmetric] by (rule and_one_nonzero)
  have eq: "round_digits v bitlen =
      (if h = 1 \<and> (odd m \<or> r \<noteq> 0)
       then if ?m + 1 = push_bit 53 1 then Some (drop_bit 1 (?m + 1), int g + 1 + 1) else Some (?m + 1, int g + 1)
       else Some (?m, int g + 1))"
    unfolding round_digits_def g_def [symmetric] Let_def loop(1) by (simp only: Option.bind.simps prod.case half odd low)
  show ?thesis
  proof (cases "h = 1 \<and> (odd m \<or> r \<noteq> 0)")
    case True
    then have dv1: "dval v = (2 * m + 1) * 2 ^ g + r" and up: "odd m \<or> r \<noteq> 0" using dv by simp_all
    note near = nearest_up [OF dv1 r m up]
    have um1: "uint (?m + 1) = m + 1"
      using m(2) uint_add_lem [of ?m 1] unfolding um by simp
    show ?thesis
    proof (cases "m + 1 = 2 ^ 53")
      case c: True
      then have "uint (?m + 1) = uint (push_bit 53 1 :: u64)" unfolding um1 by (simp add: push_bit_eq_mult)
      then have "?m + 1 = push_bit 53 1" by (simp only: word_uint_eq_iff)
      then have "round_digits v bitlen = Some (drop_bit 1 (?m + 1), int (g + 2))" using eq True by simp
      moreover have "uint (drop_bit 1 (?m + 1)) = 2 ^ 52" unfolding uint_drop um1 c by simp
      ultimately show ?thesis using near [unfolded if_P [OF c]] by metis
    next
      case c: False
      have "uint (?m + 1) \<noteq> uint (push_bit 53 1 :: u64)" using c unfolding um1 by (simp add: push_bit_eq_mult)
      then have "?m + 1 \<noteq> push_bit 53 1" by metis
      then have "round_digits v bitlen = Some (?m + 1, int (g + 1))" using eq True by simp
      then show ?thesis using near [unfolded if_not_P [OF c]] unfolding um1 [symmetric] by blast
    qed
  next
    case False
    have "h = 0 \<or> h = 1" by (auto simp: h_def)
    with False have "h = 0 \<or> h = 1 \<and> even m \<and> r = 0" by blast
    from nearest_down [OF dv r m this] have "nearest (dval v) (uint ?m) (g + 1)" unfolding um .
    moreover have "round_digits v bitlen = Some (?m, int (g + 1))" using False eq by simp
    ultimately show ?thesis by blast
  qed
qed


text \<open>C11. The float of a bignum is correctly rounded.  A bignum of less than \<open>2 ^ 1024\<close> is given to \<open>ldexp\<close> as a mantissa of
  exactly 53 bits and an exponent; no other number with a mantissa of 53 bits is nearer, and on a tie the mantissa is even.  The sign
  is applied after that, and -1 is returned when \<open>ldexp\<close> gives infinity.  For a greater bignum -1 is returned.\<close>

theorem big_to_double_nearest:
  assumes "int_ok (Big neg x)"
  shows "if dval x < 2 ^ 1024
    then \<exists>m e. 2 ^ 52 \<le> m \<and> m < 2 ^ 53
      \<and> (\<forall>m' e'. m' < 2 ^ 53 \<longrightarrow> \<bar>dval x - m * 2 ^ e\<bar> \<le> \<bar>dval x - m' * 2 ^ e'\<bar>)
      \<and> (if 2 * \<bar>dval x - m * 2 ^ e\<bar> = 2 ^ e then even m else 2 * \<bar>dval x - m * 2 ^ e\<bar> < 2 ^ e)
      \<and> big_to_double fp (Big neg x) = Some (let d = fp_ldexp fp (fp_of_int fp m) (int e)
           in if fp_isfinite fp d then Inr (if neg then fp_neg fp d else d) else Inl ())
    else big_to_double fp (Big neg x) = Some (Inl ())"
proof -
  define b where "b = (length x - 1) * 64 + erts_fit_in_bits_uint (last x)"
  have x: "normal x" "MAX_SMALL < dval x" using assms by (auto split: if_splits)
  have v: "x \<noteq> []" "last x \<noteq> 0" using x by (auto simp: normal_def length_1)
  note bits = dval_bits [OF v b_def]
  have d: "big_to_double fp (Big neg x) = (if x = [] \<or> last x = 0 then None else if b \<le> 53 then None
      else if b > 1024 then Some (Inl ()) else do { (mant, exp) \<leftarrow> round_digits x b;
          let d = fp_ldexp fp (fp_of_int fp (uint mant)) exp;
          Some (if fp_isfinite fp d then Inr (if neg then fp_neg fp d else d) else Inl ()) })"
    by (simp only: big_to_double.simps b_def Let_def)
  have "53 < b"
  proof (rule ccontr)
    assume "\<not> 53 < b"
    then have "(2 :: int) ^ b \<le> 2 ^ 53" by (intro power_increasing) simp_all
    with bits(2) x(2) show False by simp
  qed
  show ?thesis
  proof (cases "b \<le> 1024")
    case True
    have "(2 :: int) ^ b \<le> 2 ^ 1024" using True by (intro power_increasing) simp_all
    with bits(2) have lt: "dval x < 2 ^ 1024" by linarith
    from round_digits_ok [OF v b_def] \<open>53 < b\<close> obtain mant e where
      r: "round_digits x b = Some (mant, int e)" "nearest (dval x) (uint mant) e" by auto
    have "big_to_double fp (Big neg x) = Some (let d = fp_ldexp fp (fp_of_int fp (uint mant)) (int e)
           in if fp_isfinite fp d then Inr (if neg then fp_neg fp d else d) else Inl ())"
      unfolding d using v True \<open>53 < b\<close> by (simp add: r(1) Let_def)
    moreover have "\<forall>m' e'. m' < 2 ^ 53 \<longrightarrow> \<bar>dval x - uint mant * 2 ^ e\<bar> \<le> \<bar>dval x - m' * 2 ^ e'\<bar>"
      using nearest_least [OF r(2)] by blast
    moreover have "if 2 * \<bar>dval x - uint mant * 2 ^ e\<bar> = 2 ^ e then even (uint mant) else 2 * \<bar>dval x - uint mant * 2 ^ e\<bar> < 2 ^ e"
      "2 ^ 52 \<le> uint mant" "uint mant < 2 ^ 53"
      using r(2) unfolding nearest_def by auto
    ultimately show ?thesis unfolding if_P [OF lt] by blast
  next
    case False
    have "(2 :: int) ^ 1024 \<le> 2 ^ (b - 1)" using False by (intro power_increasing) simp_all
    with bits(1) have "\<not> dval x < 2 ^ 1024" by linarith
    moreover have "big_to_double fp (Big neg x) = Some (Inl ())" unfolding d using v False by simp
    ultimately show ?thesis by simp
  qed
qed

theorem big_to_double_nearest_witness:
  "int_ok (Big True [9223372036854776832] :: int eterm) \<and>
   (\<forall>fp. \<exists>m e. 2 ^ 52 \<le> m \<and> m < 2 ^ 53 \<and> 2 * \<bar>9223372036854776832 - m * 2 ^ e\<bar> \<le> 2 ^ e \<and>
     big_to_double fp (Big True [9223372036854776832] :: int eterm)
       = Some (let d = fp_ldexp fp (fp_of_int fp m) (int e) in if fp_isfinite fp d then Inr (fp_neg fp d) else Inl ()))"
proof (intro conjI allI)
  show ok: "int_ok (Big True [9223372036854776832] :: int eterm)" by (simp add: normal_def BIG_ARITY_MAX_def)
  fix fp :: "int fp"
  have v: "dval [9223372036854776832] = 9223372036854776832" by simp
  have lt: "(9223372036854776832 :: int) < 2 ^ 1024" by simp
  from big_to_double_nearest [OF ok, of fp, unfolded v if_P [OF lt]] obtain m e where
    me: "2 ^ 52 \<le> m" "m < 2 ^ 53" "if 2 * \<bar>9223372036854776832 - m * 2 ^ e\<bar> = 2 ^ e then even m else 2 * \<bar>9223372036854776832 - m * 2 ^ e\<bar> < 2 ^ e"
      "big_to_double fp (Big True [9223372036854776832]) = Some (let d = fp_ldexp fp (fp_of_int fp m) (int e)
           in if fp_isfinite fp d then Inr (if True then fp_neg fp d else d) else Inl ())"
    by blast
  from me(3) have "2 * \<bar>9223372036854776832 - m * 2 ^ e\<bar> \<le> 2 ^ e" by (simp split: if_splits)
  with me(1,2) me(4) [unfolded if_True]
  show "\<exists>m e. 2 ^ 52 \<le> m \<and> m < 2 ^ 53 \<and> 2 * \<bar>9223372036854776832 - m * 2 ^ e\<bar> \<le> 2 ^ e \<and>
     big_to_double fp (Big True [9223372036854776832]) = Some (let d = fp_ldexp fp (fp_of_int fp m) (int e) in if fp_isfinite fp d then Inr (fp_neg fp d) else Inl ())"
    by blast
qed

end
