(* ===== verification/Erts_Arith.thy ===== *)
theory Erts_Arith
  imports Erts_Float
begin

text \<open>
  The arithmetic of the emulator in \<open>erts/emulator/beam/erl_arith.c\<close>: addition, subtraction, multiplication, bit
  operations and shifts of integer terms, with the cases of floats.  The buffers for bignums are on the
  heap; a function of \<open>big.c\<close> gets the number of digits that have been allocated.  The trimming of heap fragments and
  the counting of reductions are left out.
\<close>

section \<open>Definitions\<close>

text \<open>
  The outcome of an operation: \<open>None\<close> when memory outside of a buffer is accessed, the reason of an
  exception, or the term that is returned.
\<close>

type_synonym 'd arith = "(arith_error + 'd eterm) option"

fun big_size :: "'d eterm \<Rightarrow> nat" where
  "big_size (Big neg x) = length x"
| "big_size _ = 0"

text \<open>The end of an operation that has called a function of \<open>big.c\<close>.\<close>

fun nil_limit :: "'d eterm \<Rightarrow> arith_error + 'd eterm" where
  "nil_limit NIL = Inl SYSTEM_LIMIT"
| "nil_limit t = Inr t"

definition small_or_big :: "int \<Rightarrow> 'd eterm" where
  "small_or_big ires = (if IS_SSMALL ires then make_small ires else small_to_big ires)"

text \<open>The label \<open>do_float\<close>.\<close>

definition float_result :: "'d fp \<Rightarrow> 'd \<Rightarrow> 'd arith" where
  "float_result fp f = Some (if fp_isfinite fp f then Inr (Float f) else Inl BADARITH)"

text \<open>The conversion of a bignum operand, which fails with \<open>badarith\<close>.\<close>

definition with_double :: "'d fp \<Rightarrow> 'd eterm \<Rightarrow> ('d \<Rightarrow> 'd arith) \<Rightarrow> 'd arith" where
  "with_double fp t f = do {
     r \<leftarrow> big_to_double fp t;
     (case r of Inl _ \<Rightarrow> Some (Inl BADARITH) | Inr d \<Rightarrow> f d) }"

subsection \<open>Addition, subtraction and multiplication\<close>

definition plus_big :: "'d eterm \<Rightarrow> 'd eterm \<Rightarrow> 'd arith" where
  "plus_big arg1 arg2 = map_option nil_limit (big_plus arg1 arg2 (max (big_size arg1) (big_size arg2) + 1))"

fun erts_mixed_plus :: "'d fp \<Rightarrow> 'd eterm \<Rightarrow> 'd eterm \<Rightarrow> 'd arith" where
  "erts_mixed_plus fp (Small i) (Small j) = Some (Inr (small_or_big (i + j)))"
| "erts_mixed_plus fp (Small i) (Big neg y) =
     (if i = 0 then Some (Inr (Big neg y)) else plus_big (small_to_big i) (Big neg y))"
| "erts_mixed_plus fp (Small i) (Float f2) = float_result fp (fp_add fp (fp_of_int fp i) f2)"
| "erts_mixed_plus fp (Big neg x) (Small j) =
     (if j = 0 then Some (Inr (Big neg x)) else plus_big (Big neg x) (small_to_big j))"
| "erts_mixed_plus fp (Big xs x) (Big ys y) = plus_big (Big xs x) (Big ys y)"
| "erts_mixed_plus fp (Big neg x) (Float f2) = with_double fp (Big neg x) (\<lambda>f1. float_result fp (fp_add fp f1 f2))"
| "erts_mixed_plus fp (Float f1) (Small j) = float_result fp (fp_add fp f1 (fp_of_int fp j))"
| "erts_mixed_plus fp (Float f1) (Big neg y) = with_double fp (Big neg y) (\<lambda>f2. float_result fp (fp_add fp f1 f2))"
| "erts_mixed_plus fp (Float f1) (Float f2) = float_result fp (fp_add fp f1 f2)"
| "erts_mixed_plus fp _ _ = Some (Inl BADARITH)"

text \<open>Unary minus is the difference to a bignum of the value zero; the result is asserted not to be too big.\<close>

fun erts_unary_minus :: "'d fp \<Rightarrow> 'd eterm \<Rightarrow> 'd arith" where
  "erts_unary_minus fp (Small i) = Some (Inr (small_or_big (- i)))"
| "erts_unary_minus fp (Big neg x) = map_option Inr (big_minus (Big False [0]) (Big neg x) (length x))"
| "erts_unary_minus fp (Float f) = float_result fp (fp_neg fp f)"
| "erts_unary_minus fp _ = Some (Inl BADARITH)"

definition minus_big :: "'d eterm \<Rightarrow> 'd eterm \<Rightarrow> 'd arith" where
  "minus_big arg1 arg2 = map_option nil_limit (big_minus arg1 arg2 (max (big_size arg1) (big_size arg2) + 1))"

fun erts_mixed_minus :: "'d fp \<Rightarrow> 'd eterm \<Rightarrow> 'd eterm \<Rightarrow> 'd arith" where
  "erts_mixed_minus fp (Small i) (Small j) = Some (Inr (small_or_big (i - j)))"
| "erts_mixed_minus fp (Small i) (Big neg y) = minus_big (small_to_big i) (Big neg y)"
| "erts_mixed_minus fp (Small i) (Float f2) = float_result fp (fp_sub fp (fp_of_int fp i) f2)"
| "erts_mixed_minus fp (Big neg x) (Small j) =
     (if j = 0 then Some (Inr (Big neg x)) else minus_big (Big neg x) (small_to_big j))"
| "erts_mixed_minus fp (Big xs x) (Big ys y) = minus_big (Big xs x) (Big ys y)"
| "erts_mixed_minus fp (Big neg x) (Float f2) = with_double fp (Big neg x) (\<lambda>f1. float_result fp (fp_sub fp f1 f2))"
| "erts_mixed_minus fp (Float f1) (Small j) = float_result fp (fp_sub fp f1 (fp_of_int fp j))"
| "erts_mixed_minus fp (Float f1) (Big neg y) = with_double fp (Big neg y) (\<lambda>f2. float_result fp (fp_sub fp f1 f2))"
| "erts_mixed_minus fp (Float f1) (Float f2) = float_result fp (fp_sub fp f1 f2)"
| "erts_mixed_minus fp _ _ = Some (Inl BADARITH)"

text \<open>\<open>same\<close> tells that two bignum operands are one object.\<close>

definition times_big :: "bool \<Rightarrow> 'd eterm \<Rightarrow> 'd eterm \<Rightarrow> nat \<Rightarrow> 'd arith" where
  "times_big same arg1 arg2 sz = map_option nil_limit (big_times same arg1 arg2 sz)"

fun erts_mixed_times :: "'d fp \<Rightarrow> bool \<Rightarrow> 'd eterm \<Rightarrow> 'd eterm \<Rightarrow> 'd arith" where
  "erts_mixed_times fp same (Small i) (Small j) = Some (Inr
     (if i = 0 \<or> j = 0 then Small 0 else if i = 1 then Small j else if j = 1 then Small i else small_times i j))"
| "erts_mixed_times fp same (Small i) (Big neg y) =
     (if i = 0 then Some (Inr (Small 0)) else if i = 1 then Some (Inr (Big neg y))
      else times_big False (small_to_big i) (Big neg y) (2 + length y))"
| "erts_mixed_times fp same (Small i) (Float f2) = float_result fp (fp_mul fp (fp_of_int fp i) f2)"
| "erts_mixed_times fp same (Big neg x) (Small j) =
     (if j = 0 then Some (Inr (Small 0)) else if j = 1 then Some (Inr (Big neg x))
      else times_big False (Big neg x) (small_to_big j) (2 + length x))"
| "erts_mixed_times fp same (Big xs x) (Big ys y) = times_big same (Big xs x) (Big ys y) (length x + length y)"
| "erts_mixed_times fp same (Big neg x) (Float f2) = with_double fp (Big neg x) (\<lambda>f1. float_result fp (fp_mul fp f1 f2))"
| "erts_mixed_times fp same (Float f1) (Small j) = float_result fp (fp_mul fp f1 (fp_of_int fp j))"
| "erts_mixed_times fp same (Float f1) (Big neg y) = with_double fp (Big neg y) (\<lambda>f2. float_result fp (fp_mul fp f1 f2))"
| "erts_mixed_times fp same (Float f1) (Float f2) = float_result fp (fp_mul fp f1 f2)"
| "erts_mixed_times fp same _ _ = Some (Inl BADARITH)"

fun is_big :: "'d eterm \<Rightarrow> bool" where
  "is_big (Big neg x) = True"
| "is_big _ = False"

text \<open>An operand that is a small is made a bignum; \<open>None\<close> for a float or something else.\<close>

fun big_arg :: "'d eterm \<Rightarrow> 'd eterm option" where
  "big_arg (Small i) = Some (small_to_big i)"
| "big_arg (Big neg x) = Some (Big neg x)"
| "big_arg _ = None"

text \<open>The product that is stored through \<open>pp\<close> for the report of an error is left out.\<close>

definition erts_mul_add :: "'d fp \<Rightarrow> bool \<Rightarrow> 'd eterm \<Rightarrow> 'd eterm \<Rightarrow> 'd eterm \<Rightarrow> 'd arith" where
  "erts_mul_add fp same arg1 arg2 arg3 =
     (case (big_arg arg1, big_arg arg2, big_arg arg3) of
        (Some big_arg1, Some big_arg2, Some big_arg3) \<Rightarrow>
          map_option nil_limit (big_mul_add (same \<and> is_big arg1) big_arg1 big_arg2 big_arg3
            (max (big_size big_arg1 + big_size big_arg2) (big_size big_arg3) + 1))
      | _ \<Rightarrow> do {
          product \<leftarrow> erts_mixed_times fp same arg1 arg2;
          (case product of Inl e \<Rightarrow> Some (Inl e) | Inr product \<Rightarrow> erts_mixed_plus fp product arg3) })"

subsection \<open>Bit operations\<close>

text \<open>The operands of a bit operation, one of which at least must be a bignum.\<close>

fun bit_args :: "'d eterm \<Rightarrow> 'd eterm \<Rightarrow> ('d eterm \<times> 'd eterm) option" where
  "bit_args (Small i) (Big neg y) = Some (small_to_big i, Big neg y)"
| "bit_args (Big neg x) (Small j) = Some (Big neg x, small_to_big j)"
| "bit_args (Big xs x) (Big ys y) = Some (Big xs x, Big ys y)"
| "bit_args _ _ = None"

definition erts_band :: "'d eterm \<Rightarrow> 'd eterm \<Rightarrow> 'd arith" where
  "erts_band arg1 arg2 = (case bit_args arg1 arg2 of
     None \<Rightarrow> Some (Inl BADARITH)
   | Some (arg1, arg2) \<Rightarrow> map_option Inr (big_band arg1 arg2 (max (big_size arg1) (big_size arg2) + 1)))"

definition erts_bor :: "'d eterm \<Rightarrow> 'd eterm \<Rightarrow> 'd arith" where
  "erts_bor arg1 arg2 = (case bit_args arg1 arg2 of
     None \<Rightarrow> Some (Inl BADARITH)
   | Some (arg1, arg2) \<Rightarrow> map_option Inr (big_bor arg1 arg2 (max (big_size arg1) (big_size arg2) + 1)))"

definition erts_bxor :: "'d eterm \<Rightarrow> 'd eterm \<Rightarrow> 'd arith" where
  "erts_bxor arg1 arg2 = (case bit_args arg1 arg2 of
     None \<Rightarrow> Some (Inl BADARITH)
   | Some (arg1, arg2) \<Rightarrow> map_option nil_limit (big_bxor arg1 arg2 (max (big_size arg1) (big_size arg2) + 1)))"

fun erts_bnot :: "'d eterm \<Rightarrow> 'd arith" where
  "erts_bnot (Big neg x) = map_option nil_limit (big_bnot (Big neg x) (length x + 1))"
| "erts_bnot _ = Some (Inl BADARITH)"

text \<open>
  The built-in functions.  \<open>band\<close> and \<open>bor\<close> of two smalls work on the tagged words, in which the value is above the
  tag bits, which are all set.
\<close>

fun band_2 :: "'d eterm \<Rightarrow> 'd eterm \<Rightarrow> 'd arith" where
  "band_2 (Small i) (Small j) = Some (Inr (Small (i AND j)))"
| "band_2 arg1 arg2 = erts_band arg1 arg2"

fun bor_2 :: "'d eterm \<Rightarrow> 'd eterm \<Rightarrow> 'd arith" where
  "bor_2 (Small i) (Small j) = Some (Inr (Small (i OR j)))"
| "bor_2 arg1 arg2 = erts_bor arg1 arg2"

fun bxor_2 :: "'d eterm \<Rightarrow> 'd eterm \<Rightarrow> 'd arith" where
  "bxor_2 (Small i) (Small j) = Some (Inr (make_small (i XOR j)))"
| "bxor_2 arg1 arg2 = erts_bxor arg1 arg2"

fun bnot_1 :: "'d eterm \<Rightarrow> 'd arith" where
  "bnot_1 (Small i) = Some (Inr (make_small (NOT i)))"
| "bnot_1 (Big neg x) = map_option nil_limit (big_bnot (Big neg x) (length x + 1))"
| "bnot_1 _ = Some (Inl BADARITH)"

subsection \<open>Shifts\<close>

text \<open>The label \<open>big_shift\<close>; \<open>i\<close> is not zero.\<close>

definition big_shift :: "'d eterm \<Rightarrow> int \<Rightarrow> 'd arith" where
  "big_shift arg1 i =
     (let ires = (if i > 0 then int (big_size arg1) + i div 64
                  else if int (big_size arg1) \<le> - i div 64 then 3
                  else int (big_size arg1) - (- i div 64))
      in if ires - 8 > int BIG_ARITY_MAX then Some (Inl SYSTEM_LIMIT)
         else map_option nil_limit (big_lshift arg1 i (nat (ires + 1))))"

text \<open>The label \<open>small_shift\<close>; the tests for a small result are on words.\<close>

definition small_shift :: "int \<Rightarrow> int \<Rightarrow> 'd arith" where
  "small_shift ires i =
     (if i = 0 \<or> ires = 0 then Some (Inr (Small ires))
      else if i < 0 then
        Some (Inr (if - i \<ge> int SMALL_BITS - 1 then (if ires < 0 then Small (-1) else Small 0)
                   else make_small (drop_bit (nat (- i)) ires)))
      else
        let msk = push_bit (SMALL_BITS - 1 - nat i) (NOT 0 :: u64) in
        if i < int SMALL_BITS - 1 \<and> (ires > 0 \<and> msk AND word_of_int ires = 0 \<or> msk AND NOT (word_of_int ires) = 0)
        then Some (Inr (make_small (push_bit (nat i) ires)))
        else big_shift (small_to_big ires) i)"

text \<open>A shift to the left by a small.\<close>

fun shift_by :: "'d eterm \<Rightarrow> int \<Rightarrow> 'd arith" where
  "shift_by (Small ires) i = small_shift ires i"
| "shift_by (Big neg x) i = (if i = 0 then Some (Inr (Big neg x)) else big_shift (Big neg x) i)"
| "shift_by _ i = Some (Inl BADARITH)"

text \<open>The label \<open>do_bsl\<close>.\<close>

fun do_bsl :: "'d eterm \<Rightarrow> 'd eterm \<Rightarrow> 'd arith" where
  "do_bsl arg1 (Small i) = shift_by arg1 i"
| "do_bsl arg1 (Big neg y) =
     (if neg then shift_by arg1 MIN_SMALL
      else (case arg1 of
         Small i \<Rightarrow> if i = 0 then Some (Inr arg1) else Some (Inl SYSTEM_LIMIT)
       | Big xs x \<Rightarrow> Some (Inl SYSTEM_LIMIT)
       | _ \<Rightarrow> Some (Inl BADARITH)))"
| "do_bsl arg1 _ = Some (Inl BADARITH)"

fun do_bsr :: "'d eterm \<Rightarrow> 'd eterm \<Rightarrow> 'd arith" where
  "do_bsr arg1 (Small i) = shift_by arg1 (- i)"
| "do_bsr arg1 (Big neg y) = do_bsl arg1 (make_small (if neg then MAX_SMALL else MIN_SMALL))"
| "do_bsr arg1 _ = Some (Inl BADARITH)"

definition erts_shift :: "'d eterm \<Rightarrow> 'd eterm \<Rightarrow> bool \<Rightarrow> 'd arith" where
  "erts_shift arg1 arg2 right = (if right then do_bsr arg1 arg2 else do_bsl arg1 arg2)"

definition erts_bsl :: "'d eterm \<Rightarrow> 'd eterm \<Rightarrow> 'd arith" where
  "erts_bsl arg1 arg2 = erts_shift arg1 arg2 False"

definition erts_bsr :: "'d eterm \<Rightarrow> 'd eterm \<Rightarrow> 'd arith" where
  "erts_bsr arg1 arg2 = erts_shift arg1 arg2 True"


section \<open>Exactness\<close>

text \<open>The outcome for the integer \<open>v\<close>: its term, or \<open>system_limit\<close> when it is too big for a bignum.\<close>

definition int_arith :: "'d arith \<Rightarrow> int \<Rightarrow> bool" where
  "int_arith r v \<longleftrightarrow>
     (if \<bar>v\<bar> < BIG_LIMIT then \<exists>t. r = Some (Inr t) \<and> int_ok t \<and> ival t = v else r = Some (Inl SYSTEM_LIMIT))"

lemma int_arith_limit: "int_res t v \<Longrightarrow> int_arith (Some (nil_limit t)) v"
  by (cases t) (auto simp: int_res_def int_arith_def split: if_splits)

lemma int_arith_term: "int_ok t \<Longrightarrow> int_arith (Some (Inr t)) (ival t)"
  using int_ok_limit [of t] by (simp add: int_arith_def)

lemma int_arith_map:
  "\<exists>t. r = Some t \<and> int_res t v \<Longrightarrow> int_arith (map_option nil_limit r) v"
  using int_arith_limit by auto

lemma arity_pos: "1 \<le> BIG_ARITY_MAX"
  by (simp add: BIG_ARITY_MAX_def)

lemma small_product_limit:
  assumes "MIN_SMALL \<le> i" "i \<le> MAX_SMALL" "MIN_SMALL \<le> j" "j \<le> MAX_SMALL"
  shows "\<bar>i * j\<bar> < BIG_LIMIT"
proof -
  have "\<bar>i\<bar> * \<bar>j\<bar> \<le> 2 ^ 59 * 2 ^ 59" using assms by (intro mult_mono) simp_all
  also have "\<dots> < D_BASE ^ 2" by simp
  also have "\<dots> \<le> BIG_LIMIT" unfolding BIG_LIMIT_def by (intro power_increasing) (simp_all add: BIG_ARITY_MAX_def)
  finally show ?thesis by (simp add: abs_mult)
qed

text \<open>An operand as a bignum.\<close>

lemma big_arg_ok:
  assumes "int_ok t"
  shows "\<exists>neg x. big_arg t = Some (Big neg x) \<and> svec neg x \<and> sval neg x = ival t \<and> (is_big t \<longrightarrow> t = Big neg x)
    \<and> (\<not> is_big t \<longrightarrow> length x = 1)"
proof (cases t)
  case (Small i)
  then have "- 9223372036854775808 \<le> i" "i < 9223372036854775808" using assms by simp_all
  from small_to_big_ok [OF this] obtain neg d where
    "(small_to_big i :: 'a eterm) = Big neg [d]" "ival (Big neg [d] :: 'a eterm) = i" "neg \<longrightarrow> i < 0" by blast
  with Small show ?thesis by (auto simp: svec_def normal_def)
next
  case (Big neg x)
  with assms show ?thesis by (auto simp: svec_def)
qed (use assms in simp_all)

lemma small_or_big_ok:
  assumes "- 9223372036854775808 \<le> v" and "v < 9223372036854775808"
  shows "int_ok (small_or_big v :: 'd eterm) \<and> ival (small_or_big v :: 'd eterm) = v"
proof (cases "MIN_SMALL \<le> v \<and> v \<le> MAX_SMALL")
  case True
  then show ?thesis using IS_SSMALL_iff [OF assms] by (simp add: small_or_big_def make_small_id)
next
  case False
  from small_to_big_ok [OF assms] obtain neg d where
    d: "(small_to_big v :: 'd eterm) = Big neg [d]" "ival (Big neg [d] :: 'd eterm) = v" "neg \<longrightarrow> v < 0" by blast
  have n: "normal [d]" by (simp add: normal_def)
  have "MAX_SMALL + (if neg then 1 else 0) < dval [d]" using d(2) False uint_ge_0 [of d] by (cases neg) auto
  with n d(1,2) arity_pos False show ?thesis using IS_SSMALL_iff [OF assms] by (auto simp: small_or_big_def)
qed

lemma small_or_big_arith:
  assumes "- 9223372036854775808 \<le> v" and "v < 9223372036854775808"
  shows "int_arith (Some (Inr (small_or_big v))) v"
  using int_arith_term [of "small_or_big v"] small_or_big_ok [OF assms] by metis

lemma big_ops_arith:
  assumes "svec xs x" and "svec ys y"
  shows "int_arith (plus_big (Big xs x) (Big ys y)) (sval xs x + sval ys y)"
    and "int_arith (minus_big (Big xs x) (Big ys y)) (sval xs x - sval ys y)"
proof -
  have ok: "big_ok (Big xs x)" "big_ok (Big ys y)" using assms by (simp_all add: svec_def)
  note r = big_plus_res [OF ok refl refl order_refl]
  show "int_arith (plus_big (Big xs x) (Big ys y)) (sval xs x + sval ys y)"
    using int_arith_map [OF r(1)] by (simp add: plus_big_def)
  show "int_arith (minus_big (Big xs x) (Big ys y)) (sval xs x - sval ys y)"
    using int_arith_map [OF r(2)] by (simp add: minus_big_def)
qed

lemma plus_arith:
  assumes "int_ok a" and "int_ok b"
  shows "int_arith (erts_mixed_plus fp a b) (ival a + ival b)"
proof -
  from big_arg_ok [OF assms(1)] obtain xs x where
    x: "big_arg a = Some (Big xs x)" "svec xs x" "sval xs x = ival a" "is_big a \<longrightarrow> a = Big xs x" by blast
  from big_arg_ok [OF assms(2)] obtain ys y where
    y: "big_arg b = Some (Big ys y)" "svec ys y" "sval ys y = ival b" "is_big b \<longrightarrow> b = Big ys y" by blast
  note r = big_ops_arith(1) [OF x(2) y(2), unfolded x(3) y(3)]
  show ?thesis
  proof (cases a; cases b)
    fix i j assume "a = Small i" "b = Small j"
    with assms show ?thesis by (simp add: small_or_big_arith)
  next
    fix i n z assume ab: "a = Small i" "b = Big n z"
    then show ?thesis using r x(1) y(4) int_arith_term [OF assms(2)] by auto
  next
    fix j n z assume ab: "a = Big n z" "b = Small j"
    then show ?thesis using r y(1) x(4) int_arith_term [OF assms(1)] by auto
  next
    fix n z m w assume "a = Big n z" "b = Big m w"
    then show ?thesis using r x(4) y(4) by simp
  qed (use assms in simp_all)
qed

lemma minus_arith:
  assumes "int_ok a" and "int_ok b"
  shows "int_arith (erts_mixed_minus fp a b) (ival a - ival b)"
proof -
  from big_arg_ok [OF assms(1)] obtain xs x where
    x: "big_arg a = Some (Big xs x)" "svec xs x" "sval xs x = ival a" "is_big a \<longrightarrow> a = Big xs x" by blast
  from big_arg_ok [OF assms(2)] obtain ys y where
    y: "big_arg b = Some (Big ys y)" "svec ys y" "sval ys y = ival b" "is_big b \<longrightarrow> b = Big ys y" by blast
  note r = big_ops_arith(2) [OF x(2) y(2), unfolded x(3) y(3)]
  show ?thesis
  proof (cases a; cases b)
    fix i j assume "a = Small i" "b = Small j"
    with assms show ?thesis by (simp add: small_or_big_arith)
  next
    fix i n z assume ab: "a = Small i" "b = Big n z"
    then show ?thesis using r x(1) y(4) by auto
  next
    fix j n z assume ab: "a = Big n z" "b = Small j"
    then show ?thesis using r y(1) x(4) int_arith_term [OF assms(1)] by auto
  next
    fix n z m w assume "a = Big n z" "b = Big m w"
    then show ?thesis using r x(4) y(4) by simp
  qed (use assms in simp_all)
qed

lemma times_arith:
  fixes fp :: "'d fp"
  assumes "int_ok a" and "int_ok b" and "same \<Longrightarrow> a = b"
  shows "int_arith (erts_mixed_times fp same a b) (ival a * ival b)"
proof -
  from big_arg_ok [OF assms(1)] obtain xs x where
    x: "big_arg a = Some (Big xs x)" "svec xs x" "sval xs x = ival a" "is_big a \<longrightarrow> a = Big xs x" "\<not> is_big a \<longrightarrow> length x = 1" by blast
  from big_arg_ok [OF assms(2)] obtain ys y where
    y: "big_arg b = Some (Big ys y)" "svec ys y" "sval ys y = ival b" "is_big b \<longrightarrow> b = Big ys y" "\<not> is_big b \<longrightarrow> length y = 1" by blast
  have r: "int_arith (times_big s (Big xs x) (Big ys y) room) (ival a * ival b)"
    if "s \<Longrightarrow> x = y" "length x + length y \<le> room" for s room
    using int_arith_map [OF big_times_res [where x = x and y = y and same = s and room = room and xs = xs and ys = ys]] that x(2,3) y(2,3)
    by (simp add: times_big_def svec_def)
  show ?thesis
  proof (cases a; cases b)
    fix i j assume ab: "a = Small i" "b = Small j"
    have "int_res (small_times i j :: 'd eterm) (i * j)" using assms ab by (intro small_times_res) simp_all
    moreover have "\<bar>i * j\<bar> < BIG_LIMIT" using assms ab by (intro small_product_limit) simp_all
    ultimately have "int_arith (Some (Inr (small_times i j :: 'd eterm))) (i * j)" by (simp add: int_res_def int_arith_def)
    with ab assms int_arith_term [of "Small 0"] int_arith_term [OF assms(1)] int_arith_term [OF assms(2)] show ?thesis by auto
  next
    fix i n z assume ab: "a = Small i" "b = Big n z"
    then show ?thesis using r [of False "2 + length z"] x(1,5) y(4) int_arith_term [OF assms(2)] int_arith_term [of "Small 0"] by auto
  next
    fix j n z assume ab: "a = Big n z" "b = Small j"
    then show ?thesis using r [of False "2 + length z"] y(1,5) x(4) int_arith_term [OF assms(1)] int_arith_term [of "Small 0"] by auto
  next
    fix n z m w assume "a = Big n z" "b = Big m w"
    then show ?thesis using r [of same "length x + length y"] x(4) y(4) assms(3) by auto
  qed (use assms in simp_all)
qed

lemma unary_minus_arith:
  fixes fp :: "'d fp"
  assumes "int_ok a"
  shows "int_arith (erts_unary_minus fp a) (- ival a)"
proof (cases a)
  case (Small i)
  with assms show ?thesis by (simp add: small_or_big_arith)
next
  case (Big neg x)
  with assms have n: "normal x" "x \<noteq> []" by (auto simp: normal_def)
  have "normal [0]" by (simp add: normal_def)
  from B_plus_minus_res [OF this n(1), of "length x" False "\<not> neg"] n(2) dval_less [of x]
  obtain t :: "'d eterm" where t: "B_plus_minus [0] False x (\<not> neg) (length x) = Some t" "int_res t (sval (\<not> neg) x)"
    by (auto simp: Suc_le_eq)
  have "sval (\<not> neg) x = - ival a" using Big by (cases neg) simp_all
  with t(2) int_ok_limit [OF assms] have "int_ok t" "ival t = - ival a" by (simp_all add: int_res_def)
  then show ?thesis using t(1) int_arith_term [of t] Big by simp
qed (use assms in simp_all)

lemma mul_add_arith:
  assumes "int_ok a" and "int_ok b" and "int_ok c" and "same \<Longrightarrow> a = b"
  shows "int_arith (erts_mul_add fp same a b c) (ival a * ival b + ival c)"
proof -
  from big_arg_ok [OF assms(1)] obtain xs x where
    x: "big_arg a = Some (Big xs x)" "svec xs x" "sval xs x = ival a" "is_big a \<longrightarrow> a = Big xs x" by blast
  from big_arg_ok [OF assms(2)] obtain ys y where
    y: "big_arg b = Some (Big ys y)" "svec ys y" "sval ys y = ival b" "is_big b \<longrightarrow> b = Big ys y" by blast
  from big_arg_ok [OF assms(3)] obtain zs z where
    z: "big_arg c = Some (Big zs z)" "svec zs z" "sval zs z = ival c" by blast
  have "same \<and> is_big a \<Longrightarrow> x = y" using assms(4) x(4) y(4) by auto
  moreover have "normal x" "normal y" "normal z" using x(2) y(2) z(2) by (simp_all add: svec_def)
  ultimately have "int_arith (map_option nil_limit (big_mul_add (same \<and> is_big a) (Big xs x) (Big ys y) (Big zs z)
      (max (length x + length y) (length z) + 1))) (sval xs x * sval ys y + sval zs z)"
    by (intro int_arith_map big_mul_add_res order_refl)
  then show ?thesis unfolding x(3) y(3) z(3) by (simp only: erts_mul_add_def x(1) y(1) z(1) prod.case option.case big_size.simps)
qed

subsection \<open>Bit operations\<close>

lemma signed_range: "- (2 ^ n) \<le> v \<and> v < 2 ^ n \<longleftrightarrow> signed_take_bit n v = v" for v :: int
  by (simp add: signed_take_bit_int_eq_self_iff)

lemma signed_bits: "signed_take_bit n v = v \<longleftrightarrow> (\<forall>m. bit v (min n m) \<longleftrightarrow> bit v m)" for v :: int
  by (auto simp: bit_eq_iff bit_signed_take_bit_iff)

lemma small_range: "MIN_SMALL \<le> v \<and> v \<le> MAX_SMALL \<longleftrightarrow> - (2 ^ 59) \<le> v \<and> v < 2 ^ 59"
  by auto

text \<open>The smalls are closed under the bit operations.\<close>

lemma small_ops:
  assumes "MIN_SMALL \<le> i \<and> i \<le> MAX_SMALL" and "MIN_SMALL \<le> j \<and> j \<le> MAX_SMALL"
  shows "MIN_SMALL \<le> i AND j \<and> i AND j \<le> MAX_SMALL"
    and "MIN_SMALL \<le> i OR j \<and> i OR j \<le> MAX_SMALL"
    and "MIN_SMALL \<le> i XOR j \<and> i XOR j \<le> MAX_SMALL"
  using assms unfolding small_range signed_range signed_bits by (simp_all add: bit_and_iff bit_or_iff bit_xor_iff)

text \<open>The disjunction of two integers is not further from zero than both of them.\<close>

lemma or_limit:
  assumes "\<bar>v\<bar> < L" and "\<bar>w\<bar> < L" and "L = 2 ^ n"
  shows "\<bar>v OR w\<bar> < (L :: int)"
proof -
  have "signed_take_bit n v = v" "signed_take_bit n w = w" using assms unfolding signed_range [symmetric] by auto
  then have "\<forall>m. bit (v OR w) (min n m) \<longleftrightarrow> bit (v OR w) m" unfolding signed_bits by (simp add: bit_or_iff)
  then have "v OR w < L" unfolding signed_bits [symmetric] signed_range [symmetric] assms(3) by simp
  moreover have "- L < v OR w"
  proof (cases "0 \<le> w")
    case True
    then have "v \<le> v OR w" by (rule or_greater_eq)
    with assms(1) show ?thesis by linarith
  next
    case False
    then have "NOT v AND NOT w \<le> NOT w" by (intro AND_upper2) (simp add: not_int_def)
    moreover have "v OR w = NOT (NOT v AND NOT w)" by simp
    ultimately show ?thesis using assms(2) by (simp add: not_int_def)
  qed
  ultimately show ?thesis by linarith
qed

lemma not_eq_commute: "(a \<noteq> b) = (b \<noteq> a)"
  by blast

lemma limit_pow: "BIG_LIMIT = 2 ^ (64 * BIG_ARITY_MAX)"
  by (simp only: BIG_LIMIT_def base_pow)

lemma bit_args_ok:
  assumes "int_ok a" and "int_ok b" and "is_big a \<or> is_big b"
  shows "\<exists>xs x ys y. bit_args a b = Some (Big xs x, Big ys y) \<and> svec xs x \<and> svec ys y \<and> sval xs x = ival a \<and> sval ys y = ival b"
proof -
  from big_arg_ok [OF assms(1)] obtain xs x where
    x: "big_arg a = Some (Big xs x)" "svec xs x" "sval xs x = ival a" "is_big a \<longrightarrow> a = Big xs x" by blast
  from big_arg_ok [OF assms(2)] obtain ys y where
    y: "big_arg b = Some (Big ys y)" "svec ys y" "sval ys y = ival b" "is_big b \<longrightarrow> b = Big ys y" by blast
  have "bit_args a b = Some (Big xs x, Big ys y)" using x(1,4) y(1,4) assms by (cases a; cases b) auto
  with x y show ?thesis by blast
qed

lemma big_bitops_res:
  assumes "svec xs x" and "svec ys y"
  shows "\<exists>t. big_band (Big xs x) (Big ys y) (max (length x) (length y) + 1) = Some t \<and> int_res t (sval xs x AND sval ys y)"
    and "\<exists>t. big_bor (Big xs x) (Big ys y) (max (length x) (length y) + 1) = Some t \<and> int_res t (sval xs x OR sval ys y)"
    and "\<exists>t. big_bxor (Big xs x) (Big ys y) (max (length x) (length y) + 1) = Some t \<and> int_res t (sval xs x XOR sval ys y)"
  using big_bitop_ok [OF I_band_ok conj_commute and.commute assms less_add_one]
    big_bitop_ok [OF I_bor_ok disj_commute or.commute assms less_add_one]
    big_bitop_ok [OF I_bxor_ok not_eq_commute xor.commute assms less_add_one]
  by (simp_all only: big_band.simps big_bor.simps big_bxor.simps)

text \<open>The most negative bignum.\<close>

lemma ones_val: "dval (replicate n (- 1)) = D_BASE ^ n - 1"
proof -
  have "dval (replicate n 0) = 0" by (induction n) simp_all
  then show ?thesis using dval_not [of "replicate n 0"] by simp
qed

lemma ones_ok: "int_ok (Big True (replicate BIG_ARITY_MAX (- 1)) :: 'd eterm)"
proof -
  have n: "normal (replicate BIG_ARITY_MAX (- 1))" using arity_pos by (simp add: normal_def)
  have "D_BASE ^ 1 \<le> D_BASE ^ BIG_ARITY_MAX" using arity_pos by (intro power_increasing) simp_all
  then have "MAX_SMALL + 1 < D_BASE ^ BIG_ARITY_MAX - 1" by simp
  with n show ?thesis by (simp only: int_ok.simps ones_val length_replicate if_True) simp
qed

lemma and_minus_2: "v AND - 2 = v - v mod 2" for v :: int
  by (subst and_rec) (simp add: minus_mod_eq_mult_div)

lemma ones_and: "- (BIG_LIMIT - 1) AND - 2 = - BIG_LIMIT"
proof -
  have "even BIG_LIMIT" using arity_pos by (simp add: limit_pow)
  then show ?thesis by (simp add: and_minus_2 mod2_eq_if)
qed

lemma band_res:
  assumes "int_ok a" and "int_ok b"
  shows "\<exists>t. band_2 a b = Some (Inr t) \<and> int_res t (ival a AND ival b)"
proof (cases "is_big a \<or> is_big b")
  case True
  from bit_args_ok [OF assms True] obtain xs x ys y where
    b: "bit_args a b = Some (Big xs x, Big ys y)" "svec xs x" "svec ys y" "sval xs x = ival a" "sval ys y = ival b" by blast
  have "\<exists>t. big_band (Big xs x) (Big ys y) (max (length x) (length y) + 1) = Some t \<and> int_res t (ival a AND ival b)"
    using big_bitops_res(1) [OF b(2,3)] unfolding b(4,5) .
  moreover have "band_2 a b = erts_band a b" using True by (cases a; cases b) simp_all
  ultimately show ?thesis using b(1) by (auto simp: erts_band_def)
next
  case False
  with assms obtain i j where ij: "a = Small i" "b = Small j" by (cases a; cases b) auto
  have "int_ok (Small (i AND j))" using assms ij small_ops(1) [of i j] by simp
  with ij show ?thesis using int_ok_limit [of "Small (i AND j)"] by (auto simp: int_res_def)
qed

lemma bor_res:
  assumes "int_ok a" and "int_ok b"
  shows "\<exists>t. bor_2 a b = Some (Inr t) \<and> int_ok t \<and> ival t = ival a OR ival b"
proof (cases "is_big a \<or> is_big b")
  case True
  from bit_args_ok [OF assms True] obtain xs x ys y where
    b: "bit_args a b = Some (Big xs x, Big ys y)" "svec xs x" "svec ys y" "sval xs x = ival a" "sval ys y = ival b" by blast
  have "\<exists>t. big_bor (Big xs x) (Big ys y) (max (length x) (length y) + 1) = Some t \<and> int_res t (ival a OR ival b)"
    using big_bitops_res(2) [OF b(2,3)] unfolding b(4,5) .
  moreover have "bor_2 a b = erts_bor a b" using True by (cases a; cases b) simp_all
  moreover have "\<bar>ival a OR ival b\<bar> < BIG_LIMIT" using int_ok_limit [OF assms(1)] int_ok_limit [OF assms(2)] by (rule or_limit [OF _ _ limit_pow])
  ultimately show ?thesis using b(1) by (auto simp: erts_bor_def int_res_def)
next
  case False
  with assms obtain i j where ij: "a = Small i" "b = Small j" by (cases a; cases b) auto
  with assms small_ops(2) [of i j] show ?thesis by simp
qed

lemma bxor_arith:
  assumes "int_ok a" and "int_ok b"
  shows "int_arith (bxor_2 a b) (ival a XOR ival b)"
proof (cases "is_big a \<or> is_big b")
  case True
  from bit_args_ok [OF assms True] obtain xs x ys y where
    b: "bit_args a b = Some (Big xs x, Big ys y)" "svec xs x" "svec ys y" "sval xs x = ival a" "sval ys y = ival b" by blast
  have "\<exists>t. big_bxor (Big xs x) (Big ys y) (max (length x) (length y) + 1) = Some t \<and> int_res t (ival a XOR ival b)"
    using big_bitops_res(3) [OF b(2,3)] unfolding b(4,5) .
  from int_arith_map [OF this] have "int_arith (erts_bxor a b) (ival a XOR ival b)"
    using b(1) by (simp add: erts_bxor_def)
  moreover have "bxor_2 a b = erts_bxor a b" using True by (cases a; cases b) simp_all
  ultimately show ?thesis by simp
next
  case False
  with assms obtain i j where ij: "a = Small i" "b = Small j" by (cases a; cases b) auto
  with assms small_ops(3) [of i j] int_arith_term [of "Small (i XOR j)"] show ?thesis by (simp add: make_small_id)
qed

lemma bnot_arith:
  assumes "int_ok a"
  shows "int_arith (bnot_1 a) (NOT (ival a))"
proof (cases a)
  case (Small i)
  then show ?thesis using assms int_arith_term [of "Small (NOT i)"] by (simp add: make_small_id not_int_def)
next
  case (Big neg x)
  with assms have "svec neg x" by (auto simp: svec_def)
  from int_arith_map [OF bnot_ok [OF this, of "length x + 1"]] Big show ?thesis by simp
qed (use assms in simp_all)

subsection \<open>Shifts\<close>

lemma mask_bound:
  assumes "push_bit k (NOT 0) AND w = (0 :: u64)"
  shows "uint w < 2 ^ k"
proof -
  have "\<not> bit w n" if "k \<le> n" "n < 64" for n
  proof -
    have "\<not> bit (push_bit k (NOT 0) AND w) n" unfolding assms by simp
    with that show ?thesis by (simp add: bit_and_iff bit_push_bit_iff bit_not_iff del: push_bit_minus_one_eq_not_mask)
  qed
  then have "take_bit k w = w" by (intro bit_eqI) (auto simp: bit_take_bit_iff not_le [symmetric])
  then have "take_bit k (uint w) = uint w" by (metis unsigned_take_bit_eq)
  then show ?thesis by (metis take_bit_int_less_exp)
qed

text \<open>The tests of the left shift of a small.\<close>

lemma shift_test:
  assumes "MIN_SMALL \<le> v" and "v \<le> MAX_SMALL" and "k \<le> 59"
    and "v > 0 \<and> push_bit k (NOT 0) AND word_of_int v = (0 :: u64) \<or> push_bit k (NOT 0) AND NOT (word_of_int v) = (0 :: u64)"
  shows "- (2 ^ k) \<le> v \<and> v < 2 ^ k"
proof -
  have u: "uint (word_of_int v :: u64) = (if v < 0 then v + D_BASE else v)"
    using assms by (intro uint_word_signed) simp_all
  from assms(4) consider "v > 0" "uint (word_of_int v :: u64) < 2 ^ k" | "uint (NOT (word_of_int v) :: u64) < 2 ^ k"
    using mask_bound by blast
  then show ?thesis
  proof cases
    case 1
    moreover have "(0 :: int) \<le> 2 ^ k" by simp
    ultimately show ?thesis using u by simp
  next
    case 2
    have n: "uint (NOT (word_of_int v) :: u64) = D_BASE - 1 - uint (word_of_int v :: u64)"
      using dval_not [of "[word_of_int v]"] by simp
    have "(2 :: int) ^ k \<le> 2 ^ 59" using assms(3) by (intro power_increasing) simp_all
    with 2 n u assms(1,2) show ?thesis by (auto split: if_splits)
  qed
qed

text \<open>A shift to the right by at least as many bits as the value has.\<close>

lemma floor_far:
  assumes "\<bar>v\<bar> \<le> m" and "v < m" and "0 < m"
  shows "v div m = (if v < 0 then -1 else 0 :: int)"
proof (cases "v < 0")
  case True
  have "v = m * (-1) + (v + m)" by simp
  then have "v div m = -1" by (rule int_div_pos_eq) (use assms True in auto)
  with True show ?thesis by simp
next
  case False
  with assms show ?thesis by (simp add: div_pos_pos_trivial)
qed

lemma floor_between: "0 < m \<Longrightarrow> (if v < 0 then v \<le> v div m \<and> v div m < 0 else 0 \<le> v div m \<and> v div m \<le> v)" for v m :: int
proof (cases "v < 0")
  case True
  assume m: "0 < m"
  have "v * m \<le> v" using True m mult_left_mono_neg [of 1 m v] by simp
  then have "v * m div m \<le> v div m" using m by (intro zdiv_mono1)
  then show ?thesis using True m div_neg_pos_less0 [of v m] by simp
next
  case False
  assume m: "0 < m"
  then have "v div m \<le> v div 1" using False by (intro zdiv_mono2) auto
  then show ?thesis using False m by (simp add: pos_imp_zdiv_nonneg_iff)
qed

lemma big_shift_arith:
  assumes x: "normal x" "0 < dval x" "length x \<le> BIG_ARITY_MAX" and i: "i \<noteq> 0"
  shows "int_arith (big_shift (Big sign x :: 'd eterm) i) (shifted (sval sign x) i)"
proof -
  define ires where "ires = (if i > 0 then int (length x) + i div 64
                  else if int (length x) \<le> - i div 64 then 3 else int (length x) - (- i div 64))"
  have b: "big_shift (Big sign x :: 'd eterm) i = (if ires - 8 > int BIG_ARITY_MAX then Some (Inl SYSTEM_LIMIT)
         else map_option nil_limit (big_lshift (Big sign x) i (nat (ires + 1))))"
    by (simp add: big_shift_def ires_def Let_def)
  show ?thesis
  proof (cases "ires - 8 > int BIG_ARITY_MAX")
    case True
    have "i > 0" using True x(3) arity_pos zdiv_mono1 [of 0 "- i" 64] by (auto simp: ires_def split: if_splits)
    then have "int (length x) - 1 + i div 64 \<ge> int BIG_ARITY_MAX" using True by (simp add: ires_def)
    then have l: "BIG_ARITY_MAX \<le> length x - 1 + nat i div 64" using \<open>i > 0\<close> by linarith
    have lo: "D_BASE ^ (length x - 1) \<le> dval x" using normal_dval [OF x(1)] x(2) by auto
    have "BIG_LIMIT \<le> D_BASE ^ (length x - 1 + nat i div 64)" unfolding BIG_LIMIT_def using l by (intro power_increasing) simp_all
    also have "\<dots> = D_BASE ^ (length x - 1) * 2 ^ (64 * (nat i div 64))" by (simp only: power_add base_pow)
    also have "\<dots> \<le> dval x * 2 ^ nat i" using lo x(2) by (intro mult_mono power_increasing) auto
    finally have "BIG_LIMIT \<le> \<bar>shifted (sval sign x) i\<bar>" using \<open>i > 0\<close> x(2) by (cases sign) (simp_all add: shifted_def abs_mult)
    then show ?thesis using True by (simp add: b int_arith_def)
  next
    case False
    have "shift_room x i \<le> nat (ires + 1)"
    proof (cases "i > 0")
      case True
      then have "nat (ires + 1) = length x + nat i div 64 + 1" by (simp add: ires_def nat_add_distrib nat_div_distrib)
      with True show ?thesis by (simp add: shift_room_def)
    next
      case neg: False
      define q where "q = nat (- i) div 64"
      have q: "- i div 64 = int q" using neg by (simp add: q_def zdiv_int)
      show ?thesis using neg i by (simp add: shift_room_def ires_def q q_def [symmetric]) linarith
    qed
    from int_arith_map [OF big_lshift_ok [OF x(1,2) this]] False show ?thesis by (simp only: b if_False)
  qed
qed

lemma small_shift_arith:
  assumes v: "MIN_SMALL \<le> v" "v \<le> MAX_SMALL"
  shows "int_arith (small_shift v i :: 'd arith) (shifted v i)"
proof -
  have tm: "int_arith (Some (Inr (Small v)) :: 'd arith) v" using int_arith_term [of "Small v"] v by simp
  consider "i = 0 \<or> v = 0" | "i < 0" "v \<noteq> 0" | "i > 0" "v \<noteq> 0" by linarith
  then show ?thesis
  proof cases
    case 1
    then show ?thesis using tm by (auto simp: small_shift_def shifted_def)
  next
    case 2
    define k where "k = nat (- i)"
    have ki: "i = - int k" "0 < k" using 2 by (simp_all add: k_def)
    have s: "shifted v i = v div 2 ^ k" using ki by (simp add: shifted_def)
    show ?thesis
    proof (cases "59 \<le> k")
      case True
      have p: "(2 :: int) ^ 59 \<le> 2 ^ k" using True by (intro power_increasing) simp_all
      have "v div 2 ^ k = (if v < 0 then -1 else 0)" using p v by (intro floor_far) simp_all
      moreover have "(small_shift v i :: 'd arith) = Some (Inr (Small (if v < 0 then -1 else 0)))"
        using 2 True by (simp add: small_shift_def ki)
      ultimately show ?thesis using s int_arith_term [of "Small (if v < 0 then -1 else 0) :: 'd eterm"] by simp
    next
      case False
      have "small_shift v i = (Some (Inr (make_small (v div 2 ^ k))) :: 'd arith)"
        using 2 False ki(2) by (simp add: small_shift_def ki(1) drop_bit_eq_div)
      moreover have "MIN_SMALL \<le> v div 2 ^ k \<and> v div 2 ^ k \<le> MAX_SMALL"
        using v floor_between [of "2 ^ k" v] by (cases "v < 0") auto
      ultimately show ?thesis using s int_arith_term [of "Small (v div 2 ^ k)"] by (simp add: make_small_id)
    qed
  next
    case 3
    define k where "k = nat i"
    have ki: "i = int k" "0 < k" using 3 by (simp_all add: k_def)
    have s: "shifted v i = v * 2 ^ k" using ki by (simp add: shifted_def)
    let ?msk = "push_bit (59 - k) (NOT 0) :: u64"
    let ?test = "k < 59 \<and> (v > 0 \<and> ?msk AND word_of_int v = 0 \<or> ?msk AND NOT (word_of_int v) = 0)"
    have d: "small_shift v i = (if ?test then Some (Inr (make_small (v * 2 ^ k))) else big_shift (small_to_big v) i :: 'd arith)"
      using 3 ki(2) by (auto simp: small_shift_def ki(1) push_bit_eq_mult [of _ v] Let_def)
    show ?thesis
    proof (cases ?test)
      case True
      then have "- (2 ^ (59 - k)) \<le> v" "v < 2 ^ (59 - k)" using shift_test [OF v, of "59 - k"] by auto
      then have "- (2 ^ (59 - k)) * 2 ^ k \<le> v * 2 ^ k" "v * 2 ^ k < 2 ^ (59 - k) * 2 ^ k" by (simp_all only: mult_right_mono mult_strict_right_mono zero_less_power zero_le_power zero_less_numeral zero_le_numeral)
      moreover have "(2 :: int) ^ (59 - k) * 2 ^ k = 2 ^ 59" using True by (simp add: power_add [symmetric])
      ultimately have "MIN_SMALL \<le> v * 2 ^ k" "v * 2 ^ k \<le> MAX_SMALL" by simp_all
      then show ?thesis using d True s int_arith_term [of "Small (v * 2 ^ k)"] by (simp add: make_small_id)
    next
      case False
      have "int_ok (Small v :: 'd eterm)" using v by simp
      from big_arg_ok [OF this] obtain neg x where
        x: "small_to_big v = (Big neg x :: 'd eterm)" "svec neg x" "sval neg x = v" "length x = 1" by auto
      then have "normal x" "0 < dval x" using 3 dval_nonneg [of x] by (cases neg; auto simp: svec_def less_le)+
      from big_shift_arith [OF this, of i neg] x(3,4) arity_pos 3
      have "int_arith (big_shift (small_to_big v) i :: 'd arith) (shifted v i)" by (simp add: x(1))
      moreover have "small_shift v i = (big_shift (small_to_big v) i :: 'd arith)" unfolding d using False by (rule if_not_P)
      ultimately show ?thesis by simp
    qed
  qed
qed

lemma shift_by_arith:
  assumes "int_ok a"
  shows "int_arith (shift_by a i) (shifted (ival a) i)"
proof (cases a)
  case (Small v)
  with assms show ?thesis using small_shift_arith [of v i] by simp
next
  case (Big neg x)
  with assms have x: "normal x" "0 < dval x" "length x \<le> BIG_ARITY_MAX" by (auto split: if_splits)
  show ?thesis
  proof (cases "i = 0")
    case True
    with Big int_arith_term [OF assms] show ?thesis by (simp add: shifted_def)
  next
    case False
    with big_shift_arith [OF x False, of neg] Big show ?thesis by simp
  qed
qed (use assms in simp_all)

text \<open>A shift by a bignum is one by the smallest or the greatest small.\<close>

lemma shifted_right_far:
  assumes "\<bar>v\<bar> < BIG_LIMIT" and "- i \<ge> 4194240"
  shows "shifted v i = (if v < 0 then -1 else 0)"
proof -
  define k where "k = nat (- i)"
  have "64 * BIG_ARITY_MAX \<le> k" using assms(2) by (simp add: k_def BIG_ARITY_MAX_def)
  then have "BIG_LIMIT \<le> 2 ^ k" unfolding limit_pow by (intro power_increasing) simp_all
  with assms(1) have "v div 2 ^ k = (if v < 0 then -1 else 0)" by (intro floor_far) simp_all
  then show ?thesis using assms(2) by (simp add: shifted_def k_def)
qed

lemma shifted_left_far:
  assumes "v \<noteq> 0" and "i \<ge> 4194240"
  shows "BIG_LIMIT \<le> \<bar>shifted v i\<bar>"
proof -
  define k where "k = nat i"
  have "64 * BIG_ARITY_MAX \<le> k" using assms(2) by (simp add: k_def BIG_ARITY_MAX_def)
  then have "BIG_LIMIT \<le> 2 ^ k" unfolding limit_pow by (intro power_increasing) simp_all
  also have "\<dots> \<le> \<bar>v\<bar> * 2 ^ k" using assms(1) by simp
  finally show ?thesis using assms(2) by (simp add: shifted_def k_def abs_mult)
qed

lemma far_shift:
  assumes "\<bar>v\<bar> < BIG_LIMIT" and "4194240 \<le> \<bar>i\<bar>" and "4194240 \<le> \<bar>j\<bar>" and "0 < i \<longleftrightarrow> 0 < j"
  shows "int_arith r (shifted v i) \<longleftrightarrow> int_arith r (shifted v j)"
proof (cases "0 < i")
  case True
  then show ?thesis
    using assms shifted_left_far [of v i] shifted_left_far [of v j]
    by (cases "v = 0") (auto simp: int_arith_def shifted_def [of 0])
next
  case False
  then show ?thesis using assms shifted_right_far [of v i] shifted_right_far [of v j] by auto
qed

lemma big_far: "int_ok (Big neg y) \<Longrightarrow> 4194240 \<le> \<bar>sval neg y\<bar> \<and> (0 < sval neg y \<longleftrightarrow> \<not> neg)"
  by (cases neg) auto

lemma bsl_arith:
  assumes "int_ok a" and "int_ok b"
  shows "int_arith (do_bsl a b) (shifted (ival a) (ival b))"
proof (cases b)
  case (Small i)
  with shift_by_arith [OF assms(1)] show ?thesis by simp
next
  case (Big neg y)
  note far = big_far [of neg y] assms(2) Big
  show ?thesis
  proof (cases neg)
    case True
    then have "int_arith r (shifted (ival a) MIN_SMALL) \<longleftrightarrow> int_arith r (shifted (ival a) (ival b))" for r :: "'a arith"
      using far by (intro far_shift int_ok_limit [OF assms(1)]) auto
    with shift_by_arith [OF assms(1), of MIN_SMALL] True Big show ?thesis by simp
  next
    case False
    then have l: "ival a \<noteq> 0 \<Longrightarrow> BIG_LIMIT \<le> \<bar>shifted (ival a) (ival b)\<bar>" using far by (intro shifted_left_far) auto
    have nz: "ival a \<noteq> 0" if "is_big a" using assms(1) that by (cases a) (auto split: if_splits)
    have "0 < BIG_LIMIT" using int_ok_limit [OF assms(1)] by linarith
    then show ?thesis
      using l nz assms(1) False Big by (cases a) (auto simp: int_arith_def shifted_def [of 0])
  qed
qed (use assms in simp_all)

lemma bsr_arith:
  assumes "int_ok a" and "int_ok b"
  shows "int_arith (do_bsr a b) (shifted (ival a) (- ival b))"
proof (cases b)
  case (Small i)
  with shift_by_arith [OF assms(1)] show ?thesis by simp
next
  case (Big neg y)
  define i where "i = (if neg then MAX_SMALL else MIN_SMALL)"
  have "int_arith r (shifted (ival a) i) \<longleftrightarrow> int_arith r (shifted (ival a) (- ival b))" for r :: "'a arith"
    using big_far [of neg y] assms(2) Big by (intro far_shift int_ok_limit [OF assms(1)]) (auto simp: i_def)
  moreover have "do_bsr a b = shift_by a i" using Big by (simp add: i_def make_small_id)
  ultimately show ?thesis using shift_by_arith [OF assms(1), of i] by (simp only:)
qed (use assms in simp_all)


section \<open>Properties\<close>

text \<open>C1. Addition, subtraction, multiplication, negation and multiplication with addition of integer terms are exact: the result is
  the normal form of the mathematical result (a small whenever it fits), or the exception \<open>system_limit\<close> when it does not fit in a
  bignum of the largest size.  No access is outside of the buffer that has been allocated.\<close>

theorem erts_arith_exact:
  assumes "int_ok a" and "int_ok b" and "int_ok c" and "same \<Longrightarrow> a = b"
  shows "int_arith (erts_mixed_plus fp a b) (ival a + ival b)
    \<and> int_arith (erts_mixed_minus fp a b) (ival a - ival b)
    \<and> int_arith (erts_mixed_times fp same a b) (ival a * ival b)
    \<and> int_arith (erts_unary_minus fp a) (- ival a)
    \<and> int_arith (erts_mul_add fp same a b c) (ival a * ival b + ival c)"
  using plus_arith [OF assms(1,2)] minus_arith [OF assms(1,2)] times_arith [OF assms(1,2,4)] unary_minus_arith [OF assms(1)]
    mul_add_arith [OF assms] by blast

text \<open>C2. A shift of an integer term by an integer term, small or bignum, is exact: to the left the product with the power of two, to the
  right the floor of the quotient, as a term in normal form, or \<open>system_limit\<close> when the result does not fit in a bignum.\<close>

theorem erts_shift_exact:
  assumes "int_ok a" and "int_ok b"
  shows "int_arith (erts_bsl a b) (if 0 \<le> ival b then ival a * 2 ^ nat (ival b) else ival a div 2 ^ nat (- ival b))
    \<and> int_arith (erts_bsr a b) (if 0 \<le> ival b then ival a div 2 ^ nat (ival b) else ival a * 2 ^ nat (- ival b))"
proof -
  have "shifted (ival a) (- ival b) = (if 0 \<le> ival b then ival a div 2 ^ nat (ival b) else ival a * 2 ^ nat (- ival b))"
    by (simp add: shifted_def)
  with bsl_arith [OF assms] bsr_arith [OF assms] show ?thesis
    by (simp add: erts_bsl_def erts_bsr_def erts_shift_def shifted_def)
qed

text \<open>C3. The bit operations on integer terms are those on the infinite two's complement representation.  Disjunction always
  gives a term; exclusive or and complement give \<open>system_limit\<close> when the result does not fit in a bignum.\<close>

theorem bit_operations_exact:
  assumes "int_ok a" and "int_ok b"
  shows "(\<bar>ival a AND ival b\<bar> < BIG_LIMIT \<longrightarrow> (\<exists>t. band_2 a b = Some (Inr t) \<and> int_ok t \<and> ival t = ival a AND ival b))
    \<and> (\<exists>t. bor_2 a b = Some (Inr t) \<and> int_ok t \<and> ival t = ival a OR ival b)
    \<and> int_arith (bxor_2 a b) (ival a XOR ival b)
    \<and> int_arith (bnot_1 a) (NOT (ival a))"
  using band_res [OF assms] bor_res [OF assms] bxor_arith [OF assms] bnot_arith [OF assms(1)] by (auto simp: int_res_def)

theorem erts_arith_exact_witness:
  "int_ok (Small 576460752303423487 :: int eterm) \<and> int_ok (Small 2 :: int eterm) \<and> int_ok (Big True [576460752303423489] :: int eterm) \<and>
   (\<forall>fp :: int fp. int_arith (erts_mixed_plus fp (Small 576460752303423487) (Small 2)) 576460752303423489
     \<and> int_arith (erts_mul_add fp False (Small 576460752303423487) (Small 2) (Big True [576460752303423489])) 576460752303423485)"
proof (intro conjI allI)
  show ok: "int_ok (Small 576460752303423487 :: int eterm)" "int_ok (Small 2 :: int eterm)"
    and ok3: "int_ok (Big True [576460752303423489] :: int eterm)" by (simp_all add: normal_def BIG_ARITY_MAX_def)
  fix fp :: "int fp"
  note e = erts_arith_exact [OF ok ok3, of False fp]
  show "int_arith (erts_mixed_plus fp (Small 576460752303423487) (Small 2)) 576460752303423489" using e by simp
  show "int_arith (erts_mul_add fp False (Small 576460752303423487) (Small 2) (Big True [576460752303423489])) 576460752303423485"
    using e by simp
qed

theorem erts_shift_exact_witness:
  "int_ok (Small (- 5) :: int eterm) \<and> int_ok (Small 1 :: int eterm)
   \<and> int_arith (erts_bsl (Small (- 5)) (Small 1) :: int arith) (- 10)
   \<and> int_arith (erts_bsr (Small (- 5)) (Small 1) :: int arith) (- 3)"
  using erts_shift_exact [of "Small (- 5) :: int eterm" "Small 1"] by simp

theorem bit_operations_exact_witness:
  "int_ok (Big False [0, 1] :: int eterm) \<and> int_ok (Small (- 1) :: int eterm)
   \<and> (\<exists>t :: int eterm. bor_2 (Big False [0, 1]) (Small (- 1)) = Some (Inr t) \<and> ival t = - 1)"
proof -
  have ok: "int_ok (Big False [0, 1] :: int eterm)" "int_ok (Small (- 1) :: int eterm)"
    by (simp_all add: normal_def BIG_ARITY_MAX_def)
  with bit_operations_exact [OF ok] show ?thesis by auto
qed

text \<open>C38. The conjunction of two negative bignums can be minus the limit, which does not fit: \<open>erts_band\<close> then returns the empty
  list, the value by which \<open>big_band\<close> tells that, to the program, and it does so in no other case.  The most negative bignum and
  -2 are such operands.\<close>

theorem erts_band_returns_nil:
  assumes "int_ok a" and "int_ok b"
  shows "band_2 a b = Some (Inr NIL) \<longleftrightarrow> BIG_LIMIT \<le> \<bar>ival a AND ival b\<bar>"
  using band_res [OF assms] by (auto simp: int_res_def split: if_splits)

theorem erts_band_returns_nil_witness:
  "int_ok (Big True (replicate BIG_ARITY_MAX D_MASK) :: int eterm) \<and> int_ok (Small (- 2) :: int eterm)
   \<and> band_2 (Big True (replicate BIG_ARITY_MAX D_MASK)) (Small (- 2)) = Some (Inr NIL :: arith_error + int eterm)"
proof (intro conjI)
  show ok: "int_ok (Big True (replicate BIG_ARITY_MAX D_MASK) :: int eterm)" by (rule ones_ok)
  show ok2: "int_ok (Small (- 2) :: int eterm)" by simp
  have "ival (Big True (replicate BIG_ARITY_MAX D_MASK) :: int eterm) = - (BIG_LIMIT - 1)"
    by (simp only: ival.simps sval.simps ones_val BIG_LIMIT_def)
  then have "ival (Big True (replicate BIG_ARITY_MAX D_MASK) :: int eterm) AND ival (Small (- 2) :: int eterm) = - BIG_LIMIT"
    using ones_and by (simp only: ival.simps)
  then show "band_2 (Big True (replicate BIG_ARITY_MAX D_MASK)) (Small (- 2)) = Some (Inr NIL :: arith_error + int eterm)"
    using erts_band_returns_nil [OF ok ok2] by simp
qed

end
