(* ===== verification/Spec2Isabelle.thy ===== *)
theory Spec2Isabelle
  imports Ei_Integer Ei_Atom Ei_Compound Ei_Binary Ei_Big Ei_Ids Ei_Fun Ei_Term Ei_Iodata Ei_Xbuf Ei_Cmp
    Erts_Atom Erts_Register Erts_External Erts_Arith
begin

text \<open>
  A verification development for C code of Erlang/OTP.  It covers two parts of the system that meet in the
  external term format: the library \<open>ei\<close> (\<open>lib/erl_interface/src\<close>), with which C programs read and write
  Erlang terms, and the tables and integers of the emulator (\<open>erts/emulator/beam\<close>).

  \<^bold>\<open>Conventions.\<close>  A machine integer is a word of its width (\<open>u8\<close>, \<open>u32\<close>, \<open>u64\<close>), an index of type \<open>int\<close> an
  integer.  An object in memory is a list; a read or write outside of it makes the function return \<open>None\<close>,
  so a theorem with the result \<open>Some\<close> also says that all accesses are in range.  A failure that the code
  reports is a value: \<open>-1\<close> with the index, \<open>Fail\<close>, \<open>Inl\<close> of an error, \<open>NIL\<close>.  Code that is not part of the
  sources is a parameter: \<open>malloc\<close> and \<open>realloc\<close> give a block or fail, and \<open>sscanf\<close> of the old float
  format is a function.  The models follow the 64-bit build; \<open>ei\<close> also has those of its integer
  codecs for 32-bit longs.

  \<^bold>\<open>The ei library.\<close>  Every encoder runs twice, without a buffer to compute the size and with one to
  store the bytes; every decoder reads from an index and moves it.  \<open>Ei_Buffer\<close> has the get and put
  macros of \<open>misc/putget.h\<close> and the contracts of the other theories as locales: \<open>ei_encoder\<close> (both passes
  agree with an external format), \<open>ei_decoder\<close> and \<open>ei_codec\<close> (the decoder inverts the encoder), with the
  round trip and the frame proved once in them.  The locales are interpreted for the C functions:
    \<^item> \<open>Ei_Integer\<close>: \<open>encode_long.c\<close>, \<open>encode_longlong.c\<close> and their decoders; which big integers a
      decoder accepts and how many bytes an encoder needs.
    \<^item> \<open>Ei_Atom\<close>: \<open>encode_atom.c\<close>, \<open>decode_atom.c\<close> and the booleans; the converters between Latin-1 and
      UTF-8 against a reference, their path for whole words of ASCII against the plain loops, the names the encoder
      accepts and the number of bytes a decoder stores.
    \<^item> \<open>Ei_Compound\<close>: tuple, map and list headers, strings, versions and floats.
    \<^item> \<open>Ei_Binary\<close>: binaries and bit strings; the bit copy gives exactly the bits from any offset.
    \<^item> \<open>Ei_Big\<close>: bignums of any size; codec and comparison.
    \<^item> \<open>Ei_Ids\<close> and \<open>Ei_Fun\<close>: process identifiers, ports, references, trace tokens and funs.
    \<^item> \<open>Ei_Term\<close>: \<open>ei_get_type\<close>, \<open>ei_skip_term\<close>, \<open>ei_decode_ei_term\<close> and \<open>ei_decode_intlist\<close>.  The recursion of
      \<open>ei_skip_term\<close> runs on fuel, one unit for each level; the nesting depth of a term is enough fuel,
      and there are bytes for which no fuel is enough, on which the C function does not return.
    \<^item> \<open>Ei_Iodata\<close>: \<open>ei_decode_iodata\<close> flattens iodata, with fuel for the nesting of lists.
    \<^item> \<open>Ei_Xbuf\<close>: the growing buffers of \<open>ei_x_encode.c\<close>; the locale \<open>x_appender\<close> is the contract of
      an operation on them, and any sequence of operations appends what the values denote.
    \<^item> \<open>Ei_Cmp\<close>: \<open>ei_cmp_nc.c\<close>, shown to be the orders given by keys.

  \<^bold>\<open>Tables of the emulator.\<close>  \<open>Erts_Hash\<close> is \<open>hash.c\<close>: buckets in chains, growing and shrinking by the
  load; its locale \<open>hash_client\<close> has the laws a user must obey and shows that the table refines a map.
  \<open>Erts_Index\<close> is \<open>index.c\<close>, a hash table with numbered entries in segments; its locale
  \<open>index_client\<close> shows that it refines a list without repetitions.  \<open>Erts_Unicode\<close> has the UTF-8
  routines of \<open>erl_unicode.c\<close>.  \<open>Erts_Atom\<close> is \<open>atom.c\<close>, an interpretation of \<open>index_client\<close>: interning in three
  encodings, lookup, and the order of atoms.  \<open>Erts_Register\<close> is \<open>register.c\<close>, an interpretation of
  \<open>hash_client\<close>: names of processes and ports, an inductive reachability of states under registration,
  removal (which may have to wait for the lock of a port and start again in a new state), creation and exit, and the invariant that the table and the pointers of the processes agree.

  \<^bold>\<open>Integers of the emulator.\<close>  \<open>Erts_Digits\<close> has the digit macros of \<open>big.c\<close>, in the form for compilers with
  128-bit integers and in the portable one, shown equal.  \<open>Erts_Vector\<close> and \<open>Erts_Multiply\<close> are the routines
  on digit vectors: comparison, addition, subtraction, products and quotients with a digit, the
  school method, squaring and Karatsuba's method, against the integers the vectors denote (\<open>dval\<close>) and with the sizes of the
  buffers; Karatsuba's recursion ends because the operands get shorter.  \<open>Erts_Bignum\<close> is the level of
  terms: a term that represents an integer (\<open>int_ok\<close>) is a small in its range or a normal bignum outside of it, so that an
  integer has exactly one term; sums and products are exact or, above the size limit of a bignum, the
  value \<open>NIL\<close> for which the callers raise \<open>system_limit\<close>.  \<open>Erts_Bits\<close> has the bit operations of \<open>big.c\<close>, which work on
  magnitudes as if these were in two's complement, and its shifts.  \<open>Erts_Float\<close> is \<open>big_to_double\<close> with \<open>fit_in_bits\<close> of
  \<open>utils.c\<close>: the mantissa and the exponent given to \<open>ldexp\<close> are those of the nearest double, even on a tie; the operations of C on doubles
  are a parameter.  \<open>Erts_Arith\<close> is \<open>erl_arith.c\<close> without division: the operators of the language on
  smalls, bignums and floats, with the buffers they allocate; on integers they are exact or raise \<open>system_limit\<close>, apart
  from \<open>band\<close>, which returns the value \<open>NIL\<close> in one case.  \<open>Erts_External\<close> has the integer cases of \<open>external.c\<close>:
  what the encoder writes the validation accepts and the decoder reads back, and what the
  validation accepts is decoded to a well-formed term inside the counted words.  The two parts meet in the properties of
  this theory: the emulator decodes what \<open>ei\<close> encodes, and the decoders of both agree on all bytes that the
  emulator accepts.

  \<^bold>\<open>Not modelled.\<close>  The distribution protocol, \<open>epmd\<close> client, printing and formatting of \<open>ei\<close> work on sockets and
  on streams.  Of the emulator: division of bignums by bignums, conversion to strings; the other terms of the external format;
  schedulers, garbage collection, allocators, ports, loader and interpreter, whose states are heaps and threads
  beyond these models.  Locks of single operations are left out, apart from the lock of the registry.  The
  applications written in Erlang, the drivers and the other libraries are no part of this development.
\<close>


section \<open>Properties\<close>

text \<open>
  C5. The emulator reads what a C program writes: in a buffer with the room the sizing pass of \<open>ei_encode_longlong\<close> asks
  for, the bytes that are written are accepted by \<open>decoded_size\<close>, and \<open>dec_term\<close> makes of them, within the counted heap words, the
  integer term of the number, and goes on behind them.
\<close>

theorem emulator_decodes_ei_longlong:
  assumes "ei_encode_longlong None i n = Some (0, None, j)" and "0 \<le> i" and "j \<le> int (length b)"
  shows "\<exists>b' w t. ei_encode_longlong (Some b) i n = Some (0, Some b', j)
    \<and> decoded_integer_size (drop (nat i) b') = Some (w, drop (nat j) b)
    \<and> dec_integer (drop (nat i) b') w = Some (Decoded (t :: 'd eterm) (drop (nat j) b))
    \<and> int_ok t \<and> ival t = sint n"
proof -
  from enc_longlong.sized_write [OF assms] obtain bs where
    bs: "bs = ext_longlong n" "j = i + int (length bs)" "ei_encode_longlong (Some b) i n = Some (0, Some (splice_at b i bs), j)"
    by auto
  have "nat i \<le> length b" "nat j = nat i + length bs" using bs(2) assms(2,3) by auto
  then have d: "drop (nat i) (splice_at b i bs) = ext_longlong n @ drop (nat j) b" by (simp add: splice_at_def bs(1))
  obtain w where w: "decoded_integer_size (ext_longlong n @ drop (nat j) b) = Some (w, drop (nat j) b)"
    and v: "ext_val (ext_longlong n @ drop (nat j) b) = sint n" using ext_longlong_decoded by blast
  from dec_integer_ok [OF w, where 'd = 'd] show ?thesis using bs(3) w unfolding d [symmetric] v [unfolded d [symmetric]] by blast
qed

theorem emulator_decodes_ei_longlong_witness:
  "ei_encode_longlong None 1 (- 300000000) = Some (0, None, 8)
   \<and> (\<exists>b' w t. ei_encode_longlong (Some (replicate 9 0)) 1 (- 300000000) = Some (0, Some b', 8)
     \<and> dec_integer (drop 1 b') w = Some (Decoded (t :: unit eterm) [0]) \<and> ival t = - 300000000)"
proof -
  have e: "ei_encode_longlong None 1 (- 300000000) = Some (0, None, 8)"
    by (simp add: ei_encode_longlong_def count_digits.simps drop_bit_eq_div)
  from emulator_decodes_ei_longlong [OF e, of "replicate 9 0", where 'd = unit] e show ?thesis by auto
qed

text \<open>
  C4. The two decoders of integers agree: on bytes that \<open>decoded_size\<close> accepts as an integer, of any of the four formats and with
  any leading zero bytes, \<open>ei_decode_longlong\<close> returns the value of the term that \<open>dec_term\<close> makes and moves the index by the
  bytes that \<open>dec_term\<close> consumes if the value fits 64 signed bits, and fails with the index unchanged otherwise.
\<close>

theorem integer_decoders_agree:
  assumes "decoded_integer_size ep = Some (w, rest)"
  shows "\<exists>t. dec_integer ep w = Some (Decoded (t :: 'd eterm) rest) \<and> int_ok t
    \<and> ei_decode_longlong ep 0 =
        (if - (2 ^ 63) \<le> ival t \<and> ival t < 2 ^ 63
         then Some (Done (word_of_int (ival t)), int (length ep) - int (length rest)) else Some (Fail, 0))"
  using dec_integer_ok [OF assms, where 'd = 'd] ei_decode_longlong_ext [OF assms] by metis

theorem integer_decoders_agree_witness:
  "decoded_integer_size [SMALL_BIG_EXT, 3, 7, 5, 1, 0, 9] = Some (2, [9])
   \<and> (\<exists>t. dec_integer [SMALL_BIG_EXT, 3, 7, 5, 1, 0, 9] 2 = Some (Decoded (t :: unit eterm) [9])
     \<and> (\<exists>r. ei_decode_longlong [SMALL_BIG_EXT, 3, 7, 5, 1, 0, 9] 0 = Some r
         \<and> (- (2 ^ 63) \<le> ival t \<and> ival t < 2 ^ 63 \<longleftrightarrow> r = (Done (word_of_int (ival t)), 6))))"
proof -
  have e: "decoded_integer_size [SMALL_BIG_EXT, 3, 7, 5, 1, 0, 9] = Some (2, [9])" by (simp add: skip_bytes_def)
  from integer_decoders_agree [OF e, where 'd = unit] e show ?thesis by (auto split: if_splits)
qed

end
